(* ===== verification/Qaspa_Prelude.thy ===== *)
theory Qaspa_Prelude
  imports Main "HOL-Library.Word" "HOL-Library.AList"
begin

text \<open>
  Shared vocabulary of the development: the machine integers of the Rust sources, the
  outcome of a fallible computation, the hash map of the standard library, and the
  generic lemmas the components use.

  \<^item> The workspace builds the release profile with \<^verbatim>\<open>overflow-checks = true\<close>
    (\<^verbatim>\<open>src/Cargo.toml\<close>), so an arithmetic overflow of \<open>+\<close>, \<open>-\<close> or \<open>*\<close> is a
    panic, and so is a failed \<^verbatim>\<open>assert!\<close>, an index out of range or a division by
    zero. \<open>Panic\<close> is therefore an outcome of its own, beside a returned value and a
    returned error.
  \<^item> A \<^verbatim>\<open>HashMap\<close> is an association list with distinct keys; the list order stands for
    the (unspecified) iteration order, and no theorem fixes it.
\<close>

named_theorems outcome_simps \<open>evaluation and inversion of outcomes\<close>
named_theorems hmap_simps \<open>what a lookup returns after an update of a hash map\<close>

section \<open>Machine integers\<close>

type_synonym u8 = "8 word"
type_synonym u16 = "16 word"
type_synonym u32 = "32 word"
type_synonym u64 = "64 word"
type_synonym hash = "256 word"

section \<open>Outcomes\<close>

datatype ('a, 'e) outcome = Ok (the_ok: 'a) | Err 'e | Panic

definition is_ok :: "('a, 'e) outcome \<Rightarrow> bool" where
  "is_ok r = (case r of Ok _ \<Rightarrow> True | _ \<Rightarrow> False)"

fun rbind :: "('a, 'e) outcome \<Rightarrow> ('a \<Rightarrow> ('b, 'e) outcome) \<Rightarrow> ('b, 'e) outcome" where
  "rbind (Ok x) f = f x"
| "rbind (Err e) f = Err e"
| "rbind Panic f = Panic"

definition ok_or :: "'a option \<Rightarrow> 'e \<Rightarrow> ('a, 'e) outcome" where
  "ok_or x e = (case x of None \<Rightarrow> Err e | Some v \<Rightarrow> Ok v)"

definition expect :: "'a option \<Rightarrow> ('a, 'e) outcome" where
  "expect x = (case x of None \<Rightarrow> Panic | Some v \<Rightarrow> Ok v)"

definition assert_that :: "bool \<Rightarrow> (unit, 'e) outcome" where
  "assert_that b = (if b then Ok () else Panic)"

text \<open>A check that returns an error when its condition holds (\<^verbatim>\<open>if c { return Err(e) }\<close>).\<close>

definition fail_if :: "bool \<Rightarrow> 'e \<Rightarrow> (unit, 'e) outcome" where
  "fail_if b e = (if b then Err e else Ok ())"

lemma is_ok_simps [simp]: "is_ok (Ok x)" "\<not> is_ok (Err e)" "\<not> is_ok Panic"
  by (simp_all add: is_ok_def)

lemma is_ok_iff: "is_ok r \<longleftrightarrow> (\<exists>x. r = Ok x)"
  by (cases r) auto

lemma rbind_Ok_iff [outcome_simps]: "rbind m f = Ok y \<longleftrightarrow> (\<exists>x. m = Ok x \<and> f x = Ok y)"
  by (cases m) auto

lemma rbind_Err_iff [outcome_simps]:
  "rbind m f = Err e \<longleftrightarrow> m = Err e \<or> (\<exists>x. m = Ok x \<and> f x = Err e)"
  by (cases m) auto

lemma rbind_Panic_iff [outcome_simps]:
  "rbind m f = Panic \<longleftrightarrow> m = Panic \<or> (\<exists>x. m = Ok x \<and> f x = Panic)"
  by (cases m) auto

lemma rbind_assoc: "rbind (rbind m f) g = rbind m (\<lambda>x. rbind (f x) g)"
  by (cases m) auto

lemma rbind_cong [fundef_cong]:
  assumes "m = m'" and "\<And>x. m' = Ok x \<Longrightarrow> f x = f' x"
  shows "rbind m f = rbind m' f'"
  using assms by (cases m') auto

lemma ok_or_iff [outcome_simps]:
  "ok_or x e = Ok v \<longleftrightarrow> x = Some v" "ok_or x e = Err e' \<longleftrightarrow> x = None \<and> e' = e"
  "ok_or x e \<noteq> Panic"
  by (auto simp: ok_or_def split: option.splits)

lemma expect_iff [outcome_simps]:
  "expect x = Ok v \<longleftrightarrow> x = Some v" "expect x = Panic \<longleftrightarrow> x = None" "expect x \<noteq> Err e"
  by (auto simp: expect_def split: option.splits)

lemma assert_that_iff [outcome_simps]:
  "assert_that b = Ok u \<longleftrightarrow> b" "assert_that b = Panic \<longleftrightarrow> \<not> b" "assert_that b \<noteq> Err e"
  by (auto simp: assert_that_def)

lemma fail_if_iff [outcome_simps]:
  "fail_if b e = Ok u \<longleftrightarrow> \<not> b" "fail_if b e = Err e' \<longleftrightarrow> b \<and> e' = e" "fail_if b e \<noteq> Panic"
  by (auto simp: fail_if_def)

lemma checks_simps [simp]:
  "ok_or (Some v) e = Ok v" "ok_or None e = Err e"
  "expect (Some v) = Ok v" "expect None = Panic"
  "assert_that True = Ok ()" "assert_that False = Panic"
  "fail_if True e = Err e" "fail_if False e = Ok ()"
  by (simp_all add: ok_or_def expect_def assert_that_def fail_if_def)

text \<open>A loop that stops at the first error (\<^verbatim>\<open>for x in xs { f(x)?; }\<close> over a state).\<close>

fun rfold :: "('x \<Rightarrow> 's \<Rightarrow> ('s, 'e) outcome) \<Rightarrow> 'x list \<Rightarrow> 's \<Rightarrow> ('s, 'e) outcome" where
  "rfold f [] s = Ok s"
| "rfold f (x # xs) s = rbind (f x s) (rfold f xs)"

lemma rfold_append: "rfold f (xs @ ys) s = rbind (rfold f xs s) (rfold f ys)"
proof (induction xs arbitrary: s)
  case (Cons x xs)
  then show ?case by (cases "f x s") auto
qed simp

lemma rfold_invariant:
  assumes "rfold f xs s = Ok t" and "P s"
    and "\<And>x u v. x \<in> set xs \<Longrightarrow> P u \<Longrightarrow> f x u = Ok v \<Longrightarrow> P v"
  shows "P t"
  using assms by (induction xs arbitrary: s) (auto simp: outcome_simps)

lemma rfold_map: "rfold f (map g xs) s = rfold (f \<circ> g) xs s"
proof (induction xs arbitrary: s)
  case (Cons x xs)
  then show ?case by (cases "f (g x) s") auto
qed simp

text \<open>\<^verbatim>\<open>map(..).collect::<Result<Vec<_>, _>>()\<close>: the results in order, or the first failure.\<close>

fun rmap :: "('x \<Rightarrow> ('y, 'e) outcome) \<Rightarrow> 'x list \<Rightarrow> ('y list, 'e) outcome" where
  "rmap f [] = Ok []"
| "rmap f (x # xs) = rbind (f x) (\<lambda>y. rbind (rmap f xs) (\<lambda>ys. Ok (y # ys)))"

lemma rmap_length: "rmap f xs = Ok ys \<Longrightarrow> length ys = length xs"
  by (induction xs arbitrary: ys) (auto simp: outcome_simps)

lemma rmap_no_panic: "(\<And>x. x \<in> set xs \<Longrightarrow> f x \<noteq> Panic) \<Longrightarrow> rmap f xs \<noteq> Panic"
  by (induction xs) (auto simp: outcome_simps)

text \<open>
  Two runs that agree: both return related values, or both return the same error; a panic is
  related to nothing, so a run related to itself does not panic.
\<close>

fun rel_out :: "('a \<Rightarrow> 'b \<Rightarrow> bool) \<Rightarrow> ('a, 'e) outcome \<Rightarrow> ('b, 'e) outcome \<Rightarrow> bool" where
  "rel_out R (Ok x) (Ok y) = R x y"
| "rel_out R (Err e) (Err e') = (e = e')"
| "rel_out R _ _ = False"

lemma rel_out_bind:
  assumes "rel_out R m n" and "\<And>x y. R x y \<Longrightarrow> rel_out S (f x) (g y)"
  shows "rel_out S (rbind m f) (rbind n g)"
  using assms by (cases m; cases n) auto

lemma rel_out_refl: "rel_out (=) m m \<longleftrightarrow> m \<noteq> Panic"
  by (cases m) auto

lemma rel_out_same:
  assumes "m \<noteq> Panic" and "\<And>x. m = Ok x \<Longrightarrow> rel_out S (f x) (g x)"
  shows "rel_out S (rbind m f) (rbind m g)"
  using assms by (cases m) auto

lemma rel_out_fold:
  assumes "R s t" and "\<And>x u v. x \<in> set xs \<Longrightarrow> R u v \<Longrightarrow> rel_out R (f x u) (g x v)"
  shows "rel_out R (rfold f xs s) (rfold g xs t)"
  using assms
proof (induction xs arbitrary: s t)
  case (Cons x xs)
  show ?case
    unfolding rfold.simps
    by (rule rel_out_bind [where R = R]) (use Cons in \<open>auto intro: Cons.IH\<close>)
qed simp

section \<open>Vectors and slices\<close>

text \<open>
  Rust checks every access to a vector or a slice: \<^verbatim>\<open>v[i]\<close>, \<^verbatim>\<open>v[a..b]\<close>, \<^verbatim>\<open>split_off\<close>,
  \<^verbatim>\<open>remove\<close>, \<^verbatim>\<open>insert\<close> and \<^verbatim>\<open>drain\<close> panic out of range, a subtraction of lengths
  panics below zero, and the conversion of a vector into an array panics (through its
  \<^verbatim>\<open>expect\<close>) when the lengths differ.
\<close>

definition usize_sub :: "nat \<Rightarrow> nat \<Rightarrow> (nat, 'e) outcome" where
  "usize_sub a b = (if b \<le> a then Ok (a - b) else Panic)"

definition index_at :: "'a list \<Rightarrow> nat \<Rightarrow> ('a, 'e) outcome" where
  "index_at v i = (if i < length v then Ok (v ! i) else Panic)"

definition slice_at :: "'a list \<Rightarrow> nat \<Rightarrow> nat \<Rightarrow> ('a list, 'e) outcome" where
  "slice_at v a b = (if a \<le> b \<and> b \<le> length v then Ok (take (b - a) (drop a v)) else Panic)"

definition to_array :: "nat \<Rightarrow> 'a list \<Rightarrow> ('a list, 'e) outcome" where
  "to_array n v = (if length v = n then Ok v else Panic)"

text \<open>\<^verbatim>\<open>last()\<close>, and \<^verbatim>\<open>as usize\<close> of a signed number, which wraps at 64 bits.\<close>

definition slice_last :: "'a list \<Rightarrow> 'a option" where
  "slice_last v = (if v = [] then None else Some (last v))"

definition as_usize :: "int \<Rightarrow> nat" where
  "as_usize n = nat (n mod 2 ^ 64)"

text \<open>The operations that change the vector return what they take out and what is left.\<close>

definition split_off :: "'a list \<Rightarrow> nat \<Rightarrow> ('a list \<times> 'a list, 'e) outcome" where
  "split_off v i = (if i \<le> length v then Ok (drop i v, take i v) else Panic)"

definition vec_remove :: "'a list \<Rightarrow> nat \<Rightarrow> ('a \<times> 'a list, 'e) outcome" where
  "vec_remove v i = (if i < length v then Ok (v ! i, take i v @ drop (Suc i) v) else Panic)"

definition vec_insert :: "'a list \<Rightarrow> nat \<Rightarrow> 'a \<Rightarrow> ('a list, 'e) outcome" where
  "vec_insert v i x = (if i \<le> length v then Ok (take i v @ x # drop i v) else Panic)"

definition vec_drain :: "'a list \<Rightarrow> nat \<Rightarrow> nat \<Rightarrow> ('a list \<times> 'a list, 'e) outcome" where
  "vec_drain v a b =
     (if a \<le> b \<and> b \<le> length v then Ok (take (b - a) (drop a v), take a v @ drop b v) else Panic)"

lemma vec_ops_in_range [simp]:
  "b \<le> a \<Longrightarrow> usize_sub a b = Ok (a - b)"
  "i < length v \<Longrightarrow> index_at v i = Ok (v ! i)"
  "a \<le> b \<Longrightarrow> b \<le> length v \<Longrightarrow> slice_at v a b = Ok (take (b - a) (drop a v))"
  "length v = n \<Longrightarrow> to_array n v = Ok v"
  "i \<le> length v \<Longrightarrow> split_off v i = Ok (drop i v, take i v)"
  "i < length v \<Longrightarrow> vec_remove v i = Ok (v ! i, take i v @ drop (Suc i) v)"
  "i \<le> length v \<Longrightarrow> vec_insert v i x = Ok (take i v @ x # drop i v)"
  "a \<le> b \<Longrightarrow> b \<le> length v \<Longrightarrow> vec_drain v a b = Ok (take (b - a) (drop a v), take a v @ drop b v)"
  by (simp_all add: usize_sub_def index_at_def slice_at_def to_array_def split_off_def
      vec_remove_def vec_insert_def vec_drain_def)

text \<open>Out of range they do panic, so a missing guard shows.\<close>

lemma vec_ops_Panic_iff [outcome_simps]:
  "usize_sub a b = Panic \<longleftrightarrow> a < b"
  "index_at v i = Panic \<longleftrightarrow> length v \<le> i"
  "slice_at v a b = Panic \<longleftrightarrow> b < a \<or> length v < b"
  "to_array n v = Panic \<longleftrightarrow> length v \<noteq> n"
  "split_off v i = Panic \<longleftrightarrow> length v < i"
  "vec_remove v i = Panic \<longleftrightarrow> length v \<le> i"
  "vec_insert v i x = Panic \<longleftrightarrow> length v < i"
  "vec_drain v a b = Panic \<longleftrightarrow> b < a \<or> length v < b"
  by (auto simp: usize_sub_def index_at_def slice_at_def to_array_def split_off_def
      vec_remove_def vec_insert_def vec_drain_def)

lemma slice_last_Some [simp]: "v \<noteq> [] \<Longrightarrow> slice_last v = Some (last v)"
  by (simp add: slice_last_def)

lemma as_usize_nat: "0 \<le> n \<Longrightarrow> n < 2 ^ 64 \<Longrightarrow> as_usize n = nat n"
  by (simp add: as_usize_def)

lemma rmap_to_array:
  assumes "length xs = n"
  shows "rbind (rmap f xs) (\<lambda>ys. rbind (to_array n ys) g) = rbind (rmap f xs) g"
    and "rbind (rmap f xs) (to_array n) = rmap f xs"
  using assms by (cases "rmap f xs"; auto dest: rmap_length)+

text \<open>The last element and the rest of a vector that is not empty.\<close>

lemma last_in_range [simp]:
  assumes "v \<noteq> []"
  shows "rbind (usize_sub (length v) 1) (index_at v) = Ok (v ! (length v - 1))"
    and "rbind (usize_sub (length v) 1) (slice_at v 0) = Ok (take (length v - 1) v)"
  using assms by (cases v; simp)+

section \<open>Checked arithmetic\<close>

definition checked_add :: "'a::len word \<Rightarrow> 'a word \<Rightarrow> 'a word option" where
  "checked_add a b = (if unat a + unat b < 2 ^ LENGTH('a) then Some (a + b) else None)"

definition checked_mul :: "'a::len word \<Rightarrow> 'a word \<Rightarrow> 'a word option" where
  "checked_mul a b = (if unat a * unat b < 2 ^ LENGTH('a) then Some (a * b) else None)"

definition checked_sub :: "'a::len word \<Rightarrow> 'a word \<Rightarrow> 'a word option" where
  "checked_sub a b = (if b \<le> a then Some (a - b) else None)"

definition checked_div :: "'a::len word \<Rightarrow> 'a word \<Rightarrow> 'a word option" where
  "checked_div a b = (if b = 0 then None else Some (a div b))"

definition saturating_add :: "'a::len word \<Rightarrow> 'a word \<Rightarrow> 'a word" where
  "saturating_add a b = (case checked_add a b of Some c \<Rightarrow> c | None \<Rightarrow> - 1)"

definition saturating_sub :: "'a::len word \<Rightarrow> 'a word \<Rightarrow> 'a word" where
  "saturating_sub a b = (if b \<le> a then a - b else 0)"

definition saturating_mul :: "'a::len word \<Rightarrow> 'a word \<Rightarrow> 'a word" where
  "saturating_mul a b = (case checked_mul a b of Some c \<Rightarrow> c | None \<Rightarrow> - 1)"

text \<open>The plain operators panic where the checked ones give \<open>None\<close>.\<close>

abbreviation add_w :: "'a::len word \<Rightarrow> 'a word \<Rightarrow> ('a word, 'e) outcome" where
  "add_w a b \<equiv> expect (checked_add a b)"

abbreviation mul_w :: "'a::len word \<Rightarrow> 'a word \<Rightarrow> ('a word, 'e) outcome" where
  "mul_w a b \<equiv> expect (checked_mul a b)"

abbreviation sub_w :: "'a::len word \<Rightarrow> 'a word \<Rightarrow> ('a word, 'e) outcome" where
  "sub_w a b \<equiv> expect (checked_sub a b)"

abbreviation div_w :: "'a::len word \<Rightarrow> 'a word \<Rightarrow> ('a word, 'e) outcome" where
  "div_w a b \<equiv> expect (checked_div a b)"

lemma unat_bound: "unat (a :: 'a::len word) < 2 ^ LENGTH('a)"
  by (rule unsigned_less)

lemma word_of_nat_inj_iff:
  assumes "i < 2 ^ LENGTH('a::len)" and "j < 2 ^ LENGTH('a)"
  shows "(of_nat i :: 'a word) = of_nat j \<longleftrightarrow> i = j"
  using assms by (simp add: word_of_nat_eq_iff take_bit_nat_eq_self)

lemma checked_add_Some_iff:
  "checked_add a b = Some c \<longleftrightarrow> unat c = unat a + unat b"
  for a b c :: "'a::len word"
proof (cases "unat a + unat b < 2 ^ LENGTH('a)")
  case True
  then have "unat (a + b) = unat a + unat b" by (simp add: unat_word_ariths)
  with True show ?thesis by (auto simp: checked_add_def word_unat_eq_iff)
next
  case False
  then have "unat c \<noteq> unat a + unat b" using unat_bound [of c] by linarith
  with False show ?thesis by (simp add: checked_add_def)
qed

lemma checked_mul_Some_iff:
  "checked_mul a b = Some c \<longleftrightarrow> unat c = unat a * unat b"
  for a b c :: "'a::len word"
proof (cases "unat a * unat b < 2 ^ LENGTH('a)")
  case True
  then have "unat (a * b) = unat a * unat b" by (simp add: unat_word_ariths)
  with True show ?thesis by (auto simp: checked_mul_def word_unat_eq_iff)
next
  case False
  then have "unat c \<noteq> unat a * unat b" using unat_bound [of c] by linarith
  with False show ?thesis by (simp add: checked_mul_def)
qed

lemma checked_sub_Some_iff:
  "checked_sub a b = Some c \<longleftrightarrow> unat a = unat c + unat b"
  for a b c :: "'a::len word"
proof -
  have "unat (a - b) = unat a - unat b" if "unat b \<le> unat a"
    using that by (simp add: unat_sub word_le_nat_alt)
  then show ?thesis
    by (auto simp: checked_sub_def word_le_nat_alt word_unat_eq_iff)
qed

lemma checked_None_iff:
  fixes a b :: "'a::len word"
  shows "checked_add a b = None \<longleftrightarrow> 2 ^ LENGTH('a) \<le> unat a + unat b"
    and "checked_mul a b = None \<longleftrightarrow> 2 ^ LENGTH('a) \<le> unat a * unat b"
    and "checked_sub a b = None \<longleftrightarrow> unat a < unat b"
    and "checked_div a b = None \<longleftrightarrow> b = 0"
  by (auto simp: checked_add_def checked_mul_def checked_sub_def checked_div_def
      word_le_nat_alt)

lemma unat_saturating_sub: "unat (saturating_sub a b) = unat a - unat b"
  by (auto simp: saturating_sub_def unat_sub word_le_nat_alt)

lemma unat_minus_one: "unat (- 1 :: 'a::len word) = 2 ^ LENGTH('a) - 1"
  by (simp add: unsigned_minus_1_eq_mask mask_eq_exp_minus_1)

lemma unat_saturating_add:
  "unat (saturating_add a b) = min (unat a + unat b) (2 ^ LENGTH('a) - 1)"
  for a b :: "'a::len word"
proof (cases "checked_add a b")
  case None
  then have "2 ^ LENGTH('a) \<le> unat a + unat b" by (simp add: checked_None_iff)
  with None show ?thesis by (simp add: saturating_add_def unat_minus_one)
next
  case (Some c)
  then have "unat c = unat a + unat b" by (simp add: checked_add_Some_iff)
  with Some show ?thesis
    using unat_bound [of c] by (simp add: saturating_add_def)
qed

lemma unat_saturating_mul:
  "unat (saturating_mul a b) = min (unat a * unat b) (2 ^ LENGTH('a) - 1)"
  for a b :: "'a::len word"
proof (cases "checked_mul a b")
  case None
  then have "2 ^ LENGTH('a) \<le> unat a * unat b" by (simp add: checked_None_iff)
  with None show ?thesis by (simp add: saturating_mul_def unat_minus_one)
next
  case (Some c)
  then have "unat c = unat a * unat b" by (simp add: checked_mul_Some_iff)
  with Some show ?thesis
    using unat_bound [of c] by (simp add: saturating_mul_def)
qed

section \<open>Hash maps\<close>

type_synonym ('k, 'v) hmap = "('k \<times> 'v) list"

abbreviation hm_get :: "('k, 'v) hmap \<Rightarrow> 'k \<Rightarrow> 'v option" where
  "hm_get \<equiv> map_of"

abbreviation hm_insert :: "'k \<Rightarrow> 'v \<Rightarrow> ('k, 'v) hmap \<Rightarrow> ('k, 'v) hmap" where
  "hm_insert \<equiv> AList.update"

abbreviation hm_remove :: "'k \<Rightarrow> ('k, 'v) hmap \<Rightarrow> ('k, 'v) hmap" where
  "hm_remove \<equiv> AList.delete"

definition hm_contains :: "('k, 'v) hmap \<Rightarrow> 'k \<Rightarrow> bool" where
  "hm_contains m k = (hm_get m k \<noteq> None)"

definition hm_wf :: "('k, 'v) hmap \<Rightarrow> bool" where
  "hm_wf m = distinct (map fst m)"

lemma hm_wf_Nil [simp]: "hm_wf []"
  by (simp add: hm_wf_def)

lemma hm_wf_Cons: "hm_wf ((k, v) # m) \<longleftrightarrow> hm_get m k = None \<and> hm_wf m"
  by (auto simp: hm_wf_def map_of_eq_None_iff)

lemma hm_wf_insert [simp]: "hm_wf m \<Longrightarrow> hm_wf (hm_insert k v m)"
  by (simp add: hm_wf_def distinct_update)

lemma hm_wf_remove [simp]: "hm_wf m \<Longrightarrow> hm_wf (hm_remove k m)"
  by (simp add: hm_wf_def distinct_delete)

lemma hm_get_insert [hmap_simps]: "hm_get (hm_insert k v m) = (hm_get m)(k \<mapsto> v)"
  by (simp add: update_conv')

lemma hm_get_remove [hmap_simps]: "hm_get (hm_remove k m) = (hm_get m)(k := None)"
  by (simp add: delete_conv')

lemma hm_get_mem: "hm_wf m \<Longrightarrow> (k, v) \<in> set m \<longleftrightarrow> hm_get m k = Some v"
  by (simp add: hm_wf_def)

text \<open>
  The contract a hash map gives its clients, in the shape the maps of the library state
  theirs: what a lookup returns after each update, and that every operation keeps the
  keys distinct.
\<close>

locale hash_map =
  fixes get :: "'m \<Rightarrow> 'k \<Rightarrow> 'v option"
    and insert_kv :: "'k \<Rightarrow> 'v \<Rightarrow> 'm \<Rightarrow> 'm"
    and remove_k :: "'k \<Rightarrow> 'm \<Rightarrow> 'm"
    and wf :: "'m \<Rightarrow> bool"
  assumes get_insert: "wf m \<Longrightarrow> get (insert_kv k v m) = (get m)(k \<mapsto> v)"
    and get_remove: "wf m \<Longrightarrow> get (remove_k k m) = (get m)(k := None)"
    and wf_insert: "wf m \<Longrightarrow> wf (insert_kv k v m)"
    and wf_remove: "wf m \<Longrightarrow> wf (remove_k k m)"
begin

text \<open>A loop that inserts the entries of another map which pass a test.\<close>

lemma insert_loop:
  assumes "hm_wf kvs" and "wf m"
  shows "wf (fold (\<lambda>(k, v) m. if P k v then insert_kv k v m else m) kvs m) \<and>
    get (fold (\<lambda>(k, v) m. if P k v then insert_kv k v m else m) kvs m) k =
      (case hm_get kvs k of
         Some v \<Rightarrow> if P k v then Some v else get m k
       | None \<Rightarrow> get m k)"
  using assms
proof (induction kvs arbitrary: m)
  case Nil
  then show ?case by simp
next
  case (Cons kv kvs)
  obtain k' v' where kv: "kv = (k', v')" by (cases kv)
  let ?m = "if P k' v' then insert_kv k' v' m else m"
  have "wf ?m" using Cons.prems by (simp add: wf_insert)
  moreover have "hm_wf kvs" "hm_get kvs k' = None" using Cons.prems kv by (simp_all add: hm_wf_Cons)
  ultimately show ?case
    using Cons.IH [of ?m] Cons.prems kv
    by (auto simp: get_insert split: option.splits if_splits)
qed

lemma remove_loop:
  assumes "wf m"
  shows "wf (fold remove_k ks m) \<and>
    get (fold remove_k ks m) k = (if k \<in> set ks then None else get m k)"
  using assms by (induction ks arbitrary: m) (auto simp: get_remove wf_remove)

end

interpretation hm: hash_map hm_get hm_insert hm_remove hm_wf
  by unfold_locales (simp_all add: hmap_simps)

end
