(* ===== verification/Tx_Model.thy ===== *)
theory Tx_Model
  imports Qaspa_Prelude
begin

text \<open>
  The transaction types of \<^verbatim>\<open>consensus/core/src/tx.rs\<close>, with the script public key of
  \<^verbatim>\<open>tx/script_public_key.rs\<close>, the subnetwork identifiers of \<^verbatim>\<open>subnets.rs\<close> and the
  constants of \<^verbatim>\<open>constants.rs\<close>. A 32-byte \<^verbatim>\<open>Hash\<close> is the 256-bit word its bytes spell
  in big-endian order, so that the derived byte order is the numeric one. The transaction
  identifier is the cached field \<^verbatim>\<open>id\<close>, as in the source.
\<close>

section \<open>Subnetworks\<close>

type_synonym subnetwork_id = "u8 list"

definition SUBNETWORK_ID_SIZE :: nat where
  "SUBNETWORK_ID_SIZE = 20"

definition from_byte :: "u8 \<Rightarrow> subnetwork_id" where
  "from_byte b = (replicate SUBNETWORK_ID_SIZE 0)[0 := b]"

definition SUBNETWORK_ID_NATIVE :: subnetwork_id where
  "SUBNETWORK_ID_NATIVE = from_byte 0"

definition SUBNETWORK_ID_COINBASE :: subnetwork_id where
  "SUBNETWORK_ID_COINBASE = from_byte 1"

definition SUBNETWORK_ID_REGISTRY :: subnetwork_id where
  "SUBNETWORK_ID_REGISTRY = from_byte 2"

definition is_native :: "subnetwork_id \<Rightarrow> bool" where
  "is_native s = (s = SUBNETWORK_ID_NATIVE)"

definition is_builtin :: "subnetwork_id \<Rightarrow> bool" where
  "is_builtin s = (s = SUBNETWORK_ID_COINBASE \<or> s = SUBNETWORK_ID_REGISTRY)"

definition is_builtin_or_native :: "subnetwork_id \<Rightarrow> bool" where
  "is_builtin_or_native s = (is_native s \<or> is_builtin s)"

section \<open>Constants\<close>

definition TX_VERSION :: u16 where
  "TX_VERSION = 0"

definition LOCK_TIME_THRESHOLD :: u64 where
  "LOCK_TIME_THRESHOLD = 500000000000"

definition SOMPI_PER_KASPA :: u64 where
  "SOMPI_PER_KASPA = 100000000"

definition STORAGE_MASS_PARAMETER :: u64 where
  "STORAGE_MASS_PARAMETER = SOMPI_PER_KASPA * 10000"

definition TRANSIENT_BYTE_TO_MASS_FACTOR :: u64 where
  "TRANSIENT_BYTE_TO_MASS_FACTOR = 4"

definition MAX_SOMPI :: u64 where
  "MAX_SOMPI = 29000000000 * SOMPI_PER_KASPA"

definition MAX_TX_IN_SEQUENCE_NUM :: u64 where
  "MAX_TX_IN_SEQUENCE_NUM = - 1"

definition SEQUENCE_LOCK_TIME_MASK :: u64 where
  "SEQUENCE_LOCK_TIME_MASK = 0x00000000ffffffff"

definition SEQUENCE_LOCK_TIME_DISABLED :: u64 where
  "SEQUENCE_LOCK_TIME_DISABLED = push_bit 63 1"

section \<open>Transactions\<close>

record script_public_key =
  spk_version :: u16
  script :: "u8 list"

record utxo_entry =
  amount :: u64
  entry_spk :: script_public_key
  block_daa_score :: u64
  entry_is_coinbase :: bool

record transaction_outpoint =
  transaction_id :: hash
  index :: u32

record transaction_input =
  previous_outpoint :: transaction_outpoint
  signature_script :: "u8 list"
  sequence_no :: u64
  sig_op_count :: u8

record transaction_output =
  output_value :: u64
  output_spk :: script_public_key

record transaction =
  version :: u16
  inputs :: "transaction_input list"
  outputs :: "transaction_output list"
  lock_time :: u64
  subnetwork_id :: subnetwork_id
  gas :: u64
  payload :: "u8 list"
  mass :: u64
  tx_id :: hash

definition new_outpoint :: "hash \<Rightarrow> u32 \<Rightarrow> transaction_outpoint" where
  "new_outpoint i n = \<lparr>transaction_id = i, index = n\<rparr>"

definition new_entry :: "u64 \<Rightarrow> script_public_key \<Rightarrow> u64 \<Rightarrow> bool \<Rightarrow> utxo_entry" where
  "new_entry a s d c = \<lparr>amount = a, entry_spk = s, block_daa_score = d, entry_is_coinbase = c\<rparr>"

definition is_coinbase :: "transaction \<Rightarrow> bool" where
  "is_coinbase tx = (subnetwork_id tx = SUBNETWORK_ID_COINBASE)"

text \<open>
  \<^verbatim>\<open>PopulatedTransaction\<close>: a transaction with one entry per input. Its constructor asserts
  that the lengths agree, and \<^verbatim>\<open>populated_input\<close> indexes both vectors.
\<close>

record populated_tx =
  ptx :: transaction
  entries :: "utxo_entry list"

definition new_populated :: "transaction \<Rightarrow> utxo_entry list \<Rightarrow> (populated_tx, 'e) outcome" where
  "new_populated tx es =
     rbind (assert_that (length (inputs tx) = length es)) (\<lambda>_. Ok \<lparr>ptx = tx, entries = es\<rparr>)"

definition populated_input ::
    "populated_tx \<Rightarrow> nat \<Rightarrow> (transaction_input \<times> utxo_entry, 'e) outcome" where
  "populated_input p i =
     (if i < length (inputs (ptx p)) \<and> i < length (entries p)
      then Ok (inputs (ptx p) ! i, entries p ! i) else Panic)"

text \<open>The iterator over \<^verbatim>\<open>0..inputs().len()\<close>; it panics where an entry is missing.\<close>

definition populated_inputs ::
    "populated_tx \<Rightarrow> ((transaction_input \<times> utxo_entry) list, 'e) outcome" where
  "populated_inputs p =
     rfold (\<lambda>i acc. rbind (populated_input p i) (\<lambda>x. Ok (acc @ [x])))
       [0..<length (inputs (ptx p))] []"

definition utxo :: "populated_tx \<Rightarrow> nat \<Rightarrow> utxo_entry option" where
  "utxo p i = (if i < length (entries p) then Some (entries p ! i) else None)"

section \<open>Mutable transactions\<close>

text \<open>
  \<^verbatim>\<open>MutableTransaction\<close>: entries may be missing; it is verifiable once all are present. The
  fee and the non-contextual masses (compute, transient) are optional.
\<close>

record mutable_tx =
  mtx :: transaction
  mentries :: "utxo_entry option list"
  calculated_fee :: "u64 option"
  calculated_non_contextual_masses :: "(u64 \<times> u64) option"

definition new_mutable :: "transaction \<Rightarrow> mutable_tx" where
  "new_mutable tx = \<lparr>mtx = tx, mentries = replicate (length (inputs tx)) None,
     calculated_fee = None, calculated_non_contextual_masses = None\<rparr>"

definition with_entries :: "transaction \<Rightarrow> utxo_entry list \<Rightarrow> (mutable_tx, 'e) outcome" where
  "with_entries tx es =
     rbind (assert_that (length (inputs tx) = length es)) (\<lambda>_.
       Ok \<lparr>mtx = tx, mentries = map Some es,
           calculated_fee = None, calculated_non_contextual_masses = None\<rparr>)"

definition is_verifiable :: "mutable_tx \<Rightarrow> (bool, 'e) outcome" where
  "is_verifiable m =
     rbind (assert_that (length (mentries m) = length (inputs (mtx m)))) (\<lambda>_.
       Ok (list_all (\<lambda>e. e \<noteq> None) (mentries m)))"

definition is_fully_populated :: "mutable_tx \<Rightarrow> (bool, 'e) outcome" where
  "is_fully_populated m =
     rbind (is_verifiable m) (\<lambda>b.
       Ok (b \<and> calculated_fee m \<noteq> None \<and> calculated_non_contextual_masses m \<noteq> None))"

definition missing_outpoints :: "mutable_tx \<Rightarrow> (transaction_outpoint list, 'e) outcome" where
  "missing_outpoints m =
     rbind (assert_that (length (mentries m) = length (inputs (mtx m)))) (\<lambda>_.
       Ok (map (\<lambda>(inp, e). previous_outpoint inp)
             (filter (\<lambda>(inp, e). e = None) (zip (inputs (mtx m)) (mentries m)))))"

definition clear_entries :: "mutable_tx \<Rightarrow> mutable_tx" where
  "clear_entries m = m\<lparr>mentries := map (\<lambda>_. None) (mentries m)\<rparr>"

definition has_parent :: "mutable_tx \<Rightarrow> hash \<Rightarrow> bool" where
  "has_parent m p =
     list_ex (\<lambda>i. transaction_id (previous_outpoint i) = p) (inputs (mtx m))"

definition has_parent_in_set :: "mutable_tx \<Rightarrow> hash list \<Rightarrow> bool" where
  "has_parent_in_set m ps =
     list_ex (\<lambda>i. transaction_id (previous_outpoint i) \<in> set ps) (inputs (mtx m))"

definition as_verifiable :: "mutable_tx \<Rightarrow> (populated_tx, 'e) outcome" where
  "as_verifiable m =
     rbind (is_verifiable m) (\<lambda>b. rbind (assert_that b) (\<lambda>_.
       Ok \<lparr>ptx = mtx m, entries = map the (mentries m)\<rparr>))"

section \<open>Lemmas\<close>

lemma from_byte_inj: "from_byte a = from_byte b \<longleftrightarrow> a = b"
proof -
  have "from_byte a ! 0 = a" for a
    by (simp add: from_byte_def SUBNETWORK_ID_SIZE_def)
  then show ?thesis by metis
qed

lemma subnetwork_ids_distinct [simp]:
  "SUBNETWORK_ID_NATIVE \<noteq> SUBNETWORK_ID_COINBASE" "SUBNETWORK_ID_COINBASE \<noteq> SUBNETWORK_ID_NATIVE"
  "SUBNETWORK_ID_NATIVE \<noteq> SUBNETWORK_ID_REGISTRY" "SUBNETWORK_ID_COINBASE \<noteq> SUBNETWORK_ID_REGISTRY"
  by (simp_all add: SUBNETWORK_ID_NATIVE_def SUBNETWORK_ID_COINBASE_def SUBNETWORK_ID_REGISTRY_def
      from_byte_inj)

text \<open>The populated inputs are the inputs zipped with the entries, when there are enough.\<close>

lemma populated_inputs_loop:
  assumes "n \<le> length (inputs (ptx p))" and "n \<le> length (entries p)"
  shows "rfold (\<lambda>i acc. rbind (populated_input p i) (\<lambda>x. Ok (acc @ [x]))) [0..<n] [] =
    Ok (zip (take n (inputs (ptx p))) (take n (entries p)))"
  using assms
proof (induction n)
  case (Suc n)
  then show ?case
    by (simp add: rfold_append populated_input_def take_Suc_conv_app_nth)
qed simp

lemma populated_inputs_eq:
  assumes "length (entries p) = length (inputs (ptx p))"
  shows "populated_inputs p = Ok (zip (inputs (ptx p)) (entries p))"
  using populated_inputs_loop [of "length (inputs (ptx p))" p] assms
  by (simp add: populated_inputs_def)

lemma new_populated_inputs:
  assumes "new_populated tx es = Ok p"
  shows "ptx p = tx \<and> entries p = es \<and> populated_inputs p = Ok (zip (inputs tx) es)"
  using assms populated_inputs_eq [of p] by (auto simp: new_populated_def outcome_simps)

text \<open>Once no outpoint is missing, the mutable transaction can be verified.\<close>

lemma missing_outpoints_Nil:
  assumes "missing_outpoints m = Ok []"
  shows "\<exists>p. as_verifiable m = Ok p \<and> length (entries p) = length (inputs (ptx p)) \<and>
    map Some (entries p) = mentries m"
proof -
  from assms have len: "length (mentries m) = length (inputs (mtx m))"
    and none: "filter (\<lambda>(inp, e). e = None) (zip (inputs (mtx m)) (mentries m)) = []"
    by (auto simp: missing_outpoints_def outcome_simps)
  have "mentries m = map snd (zip (inputs (mtx m)) (mentries m))"
    using len by simp
  then have "set (mentries m) = snd ` set (zip (inputs (mtx m)) (mentries m))"
    by (metis set_map)
  then have "list_all (\<lambda>e. e \<noteq> None) (mentries m)"
    using none by (auto simp: filter_empty_conv list_all_iff)
  then show ?thesis
    using len by (auto simp: as_verifiable_def is_verifiable_def list_all_iff map_idI)
qed

end
