(* ===== verification/Utxo_Algebra.thy ===== *)
theory Utxo_Algebra
  imports Tx_Model
begin

text \<open>
  The UTXO diff algebra of \<^verbatim>\<open>consensus/core/src/utxo\<close>: collections of entries keyed by
  outpoint (\<^verbatim>\<open>utxo_collection.rs\<close>), diffs with their composition and difference
  (\<^verbatim>\<open>utxo_diff.rs\<close>), and views composed from a base and a diff (\<^verbatim>\<open>utxo_view.rs\<close>).

  A diff \<open>d\<close> is read as an update of a UTXO set. The specification says when a diff is
  valid over a set (it removes what is there, and adds what is not, or what it removes
  with another DAA score) and that composing diffs is composing updates. The algebra
  compares entries by outpoint and DAA score only, so the specification also asks that
  these two determine the entry (the comment of \<^verbatim>\<open>diff_from\<close>: \<open>If an outpoint exists in
  both diffs, its underlying values would be the same\<close>); \<open>can\<close> below is the function that
  gives it.
\<close>

section \<open>Collections\<close>

type_synonym utxo_collection = "(transaction_outpoint, utxo_entry) hmap"
type_synonym utxo_view = "transaction_outpoint \<Rightarrow> utxo_entry option"

definition contains_with_daa_score ::
    "utxo_collection \<Rightarrow> transaction_outpoint \<Rightarrow> u64 \<Rightarrow> bool" where
  "contains_with_daa_score c p d =
     (case hm_get c p of Some entry \<Rightarrow> block_daa_score entry = d | None \<Rightarrow> False)"

definition add_collection :: "utxo_collection \<Rightarrow> utxo_collection \<Rightarrow> utxo_collection" where
  "add_collection this other = fold (\<lambda>(k, v) m. hm_insert k v m) other this"

definition remove_collection :: "utxo_collection \<Rightarrow> utxo_collection \<Rightarrow> utxo_collection" where
  "remove_collection this other = fold hm_remove (map fst other) this"

definition intersects :: "utxo_collection \<Rightarrow> utxo_collection \<Rightarrow> bool" where
  "intersects this other =
     (let (ks, oth) = (if length this \<le> length other then (map fst this, other)
                       else (map fst other, this))
      in list_ex (hm_contains oth) ks)"

definition intersects_with_rule ::
    "utxo_collection \<Rightarrow> utxo_collection \<Rightarrow>
     (transaction_outpoint \<Rightarrow> utxo_entry \<Rightarrow> utxo_entry \<Rightarrow> bool) \<Rightarrow>
     transaction_outpoint option" where
  "intersects_with_rule this other rule =
     (if length this \<le> length other then
        map_option fst (find (\<lambda>(k, v1).
          case hm_get other k of Some v2 \<Rightarrow> rule k v1 v2 | None \<Rightarrow> False) this)
      else
        map_option fst (find (\<lambda>(k, v2).
          case hm_get this k of Some v1 \<Rightarrow> rule k v1 v2 | None \<Rightarrow> False) other))"

definition intersection_with_remainder_having_daa_score_in_place ::
    "utxo_collection \<Rightarrow> utxo_collection \<Rightarrow> utxo_collection \<Rightarrow> utxo_collection \<Rightarrow>
     utxo_collection \<times> utxo_collection" where
  "intersection_with_remainder_having_daa_score_in_place this other result remainder =
     fold (\<lambda>(p, e) (result, remainder).
        if contains_with_daa_score other p (block_daa_score e)
        then (hm_insert p e result, remainder)
        else (result, hm_insert p e remainder)) this (result, remainder)"

definition subtraction_having_daa_score_in_place ::
    "utxo_collection \<Rightarrow> utxo_collection \<Rightarrow> utxo_collection \<Rightarrow> utxo_collection" where
  "subtraction_having_daa_score_in_place this other result =
     fold (\<lambda>(p, e) result.
        if \<not> contains_with_daa_score other p (block_daa_score e)
        then hm_insert p e result else result) this result"

definition subtraction_with_remainder_having_daa_score_in_place ::
    "utxo_collection \<Rightarrow> utxo_collection \<Rightarrow> utxo_collection \<Rightarrow> utxo_collection \<Rightarrow>
     utxo_collection \<times> utxo_collection" where
  "subtraction_with_remainder_having_daa_score_in_place this other result remainder =
     fold (\<lambda>(p, e) (result, remainder).
        if \<not> contains_with_daa_score other p (block_daa_score e)
        then (hm_insert p e result, remainder)
        else (result, hm_insert p e remainder)) this (result, remainder)"

section \<open>Diffs\<close>

datatype utxo_algebra_error =
    DuplicateRemovePoint transaction_outpoint
  | DuplicateAddPoint transaction_outpoint
  | DoubleRemoveCall transaction_outpoint
  | DoubleAddCall transaction_outpoint
  | DiffIntersectionPoint transaction_outpoint string
  | General string

text \<open>The hand-written equality ignores the description strings.\<close>

fun utxo_algebra_error_eq :: "utxo_algebra_error \<Rightarrow> utxo_algebra_error \<Rightarrow> bool" where
  "utxo_algebra_error_eq (DuplicateRemovePoint l0) (DuplicateRemovePoint r0) = (l0 = r0)"
| "utxo_algebra_error_eq (DuplicateAddPoint l0) (DuplicateAddPoint r0) = (l0 = r0)"
| "utxo_algebra_error_eq (DoubleRemoveCall l0) (DoubleRemoveCall r0) = (l0 = r0)"
| "utxo_algebra_error_eq (DoubleAddCall l0) (DoubleAddCall r0) = (l0 = r0)"
| "utxo_algebra_error_eq (DiffIntersectionPoint l0 _) (DiffIntersectionPoint r0 _) = (l0 = r0)"
| "utxo_algebra_error_eq (General _) (General _) = True"
| "utxo_algebra_error_eq _ _ = False"

record utxo_diff =
  add :: utxo_collection
  remove :: utxo_collection

text \<open>
  The trait \<^verbatim>\<open>ImmutableUtxoDiff\<close> as the record of its two methods, with its
  implementations: a diff as it stands, and reversed.
\<close>

record immutable_utxo_diff =
  added :: utxo_collection
  removed :: utxo_collection

definition as_immutable :: "utxo_diff \<Rightarrow> immutable_utxo_diff" where
  "as_immutable d = \<lparr>added = add d, removed = remove d\<rparr>"

definition as_reversed :: "utxo_diff \<Rightarrow> immutable_utxo_diff" where
  "as_reversed d = \<lparr>added = remove d, removed = add d\<rparr>"

definition to_reversed :: "utxo_diff \<Rightarrow> utxo_diff" where
  "to_reversed d = \<lparr>add = remove d, remove = add d\<rparr>"

definition default_diff :: utxo_diff where
  "default_diff = \<lparr>add = [], remove = []\<rparr>"

definition with_diff_in_place ::
    "utxo_diff \<Rightarrow> immutable_utxo_diff \<Rightarrow> (utxo_diff, utxo_algebra_error) outcome" where
  "with_diff_in_place self other =
     (case intersects_with_rule (removed other) (remove self)
        (\<lambda>p entry_to_add existing_entry.
           \<not> contains_with_daa_score (add self) p (block_daa_score entry_to_add)) of
        Some offending_outpoint \<Rightarrow> Err (DuplicateRemovePoint offending_outpoint)
      | None \<Rightarrow>
     (case intersects_with_rule (added other) (add self)
        (\<lambda>p entry_to_add existing_entry.
           \<not> contains_with_daa_score (removed other) p (block_daa_score existing_entry)) of
        Some offending_outpoint \<Rightarrow> Err (DuplicateAddPoint offending_outpoint)
      | None \<Rightarrow>
     (let (intersection, remove1) =
            intersection_with_remainder_having_daa_score_in_place
              (removed other) (add self) [] (remove self);
          add1 = remove_collection (add self) intersection;
          (intersection, add2) =
            intersection_with_remainder_having_daa_score_in_place
              (added other) remove1 [] add1;
          remove2 = remove_collection remove1 intersection
      in Ok \<lparr>add = add2, remove = remove2\<rparr>)))"

definition with_diff ::
    "utxo_diff \<Rightarrow> immutable_utxo_diff \<Rightarrow> (utxo_diff, utxo_algebra_error) outcome" where
  "with_diff self other = rbind (with_diff_in_place self other) (\<lambda>clone. Ok clone)"

definition diff_from ::
    "utxo_diff \<Rightarrow> immutable_utxo_diff \<Rightarrow> (utxo_diff, utxo_algebra_error) outcome" where
  "diff_from self other =
     (case intersects_with_rule (remove self) (added other)
        (\<lambda>p this_entry other_entry.
           \<not> (block_daa_score other_entry \<noteq> block_daa_score this_entry \<and>
              (contains_with_daa_score (add self) p (block_daa_score other_entry) \<or>
               contains_with_daa_score (removed other) p (block_daa_score this_entry)))) of
        Some p \<Rightarrow> Err (DiffIntersectionPoint p ''both in self.add and in other.remove'')
      | None \<Rightarrow>
     (case intersects_with_rule (add self) (removed other)
        (\<lambda>p this_entry other_entry.
           \<not> (block_daa_score other_entry \<noteq> block_daa_score this_entry \<and>
              (contains_with_daa_score (remove self) p (block_daa_score other_entry) \<or>
               contains_with_daa_score (added other) p (block_daa_score this_entry)))) of
        Some p \<Rightarrow> Err (DiffIntersectionPoint p ''both in self.remove and in other.add'')
      | None \<Rightarrow>
     (case intersects_with_rule (remove self) (removed other)
        (\<lambda>_ this_entry other_entry. block_daa_score other_entry \<noteq> block_daa_score this_entry) of
        Some p \<Rightarrow> Err (DiffIntersectionPoint p ''both in self.remove and other.remove with different DAA scores, with no corresponding entry in self.add'')
      | None \<Rightarrow>
     (let (result_remove, in_both_to_add) =
            subtraction_with_remainder_having_daa_score_in_place (add self) (added other) [] []
      in if intersects in_both_to_add (remove self) \<noteq> intersects in_both_to_add (removed other)
         then Err (General ''diff_from: outpoint both in self.add, other.add, and only one of self.remove and other.remove'')
         else
           let result_remove = subtraction_having_daa_score_in_place
                 (removed other) (remove self) result_remove;
               result_add = subtraction_having_daa_score_in_place
                 (remove self) (removed other) [];
               result_add = subtraction_having_daa_score_in_place
                 (added other) (add self) result_add
           in Ok \<lparr>add = result_add, remove = result_remove\<rparr>))))"

definition remove_entry ::
    "transaction_outpoint \<Rightarrow> utxo_entry \<Rightarrow> utxo_diff \<Rightarrow> (utxo_diff, utxo_algebra_error) outcome" where
  "remove_entry p entry d =
     (if contains_with_daa_score (add d) p (block_daa_score entry)
      then Ok (d\<lparr>add := hm_remove p (add d)\<rparr>)
      else if \<not> hm_contains (remove d) p
      then Ok (d\<lparr>remove := hm_insert p entry (remove d)\<rparr>)
      else Err (DoubleRemoveCall p))"

definition add_entry ::
    "transaction_outpoint \<Rightarrow> utxo_entry \<Rightarrow> utxo_diff \<Rightarrow> (utxo_diff, utxo_algebra_error) outcome" where
  "add_entry p entry d =
     (if contains_with_daa_score (remove d) p (block_daa_score entry)
      then Ok (d\<lparr>remove := hm_remove p (remove d)\<rparr>)
      else if \<not> hm_contains (add d) p
      then Ok (d\<lparr>add := hm_insert p entry (add d)\<rparr>)
      else Err (DoubleAddCall p))"

definition add_transaction ::
    "populated_tx \<Rightarrow> u64 \<Rightarrow> utxo_diff \<Rightarrow> (utxo_diff, utxo_algebra_error) outcome" where
  "add_transaction transaction daa d =
     rbind (populated_inputs transaction) (\<lambda>pins.
     rbind (rfold (\<lambda>(inp, entry). remove_entry (previous_outpoint inp) entry) pins d) (\<lambda>d.
     rfold (\<lambda>(i, out).
        add_entry (new_outpoint (tx_id (ptx transaction)) (of_nat i))
          (new_entry (output_value out) (output_spk out) daa (is_coinbase (ptx transaction))))
       (enumerate 0 (outputs (ptx transaction))) d))"

section \<open>Views\<close>

text \<open>\<^verbatim>\<open>ComposedUtxoView::get\<close>: added entries first, then removed ones, then the base.\<close>

definition composed_get :: "utxo_view \<Rightarrow> immutable_utxo_diff \<Rightarrow> utxo_view" where
  "composed_get base diff p =
     (case hm_get (added diff) p of
        Some entry \<Rightarrow> Some entry
      | None \<Rightarrow> if hm_contains (removed diff) p then None else base p)"

section \<open>Lemmas on collections\<close>

named_theorems utxo_lookup \<open>lookups in the collections the algebra builds\<close>

lemma hm_contains_iff: "hm_contains m k \<longleftrightarrow> (\<exists>v. hm_get m k = Some v)"
  by (simp add: hm_contains_def)

lemma hm_key_iff: "k \<in> fst ` set m \<longleftrightarrow> (\<exists>v. hm_get m k = Some v)"
  by (metis map_of_eq_None_iff not_None_eq)

lemma contains_with_daa_score_iff:
  "contains_with_daa_score c p d \<longleftrightarrow> (\<exists>e. hm_get c p = Some e \<and> block_daa_score e = d)"
  by (auto simp: contains_with_daa_score_def split: option.splits)

lemma find_Some_mem: "find P xs = Some x \<Longrightarrow> P x \<and> x \<in> set xs"
  by (auto simp: find_Some_iff)

text \<open>Both directions of the iteration decide the same question.\<close>

lemma intersects_with_rule_None:
  assumes "hm_wf this" and "hm_wf other"
  shows "intersects_with_rule this other rule = None \<longleftrightarrow>
    (\<forall>p v1 v2. hm_get this p = Some v1 \<longrightarrow> hm_get other p = Some v2 \<longrightarrow> \<not> rule p v1 v2)"
  using assms
  by (auto simp: intersects_with_rule_def find_None_iff hm_get_mem split: option.splits)

lemma intersects_with_rule_Some:
  assumes "hm_wf this" and "hm_wf other" and "intersects_with_rule this other rule = Some p"
  shows "\<exists>v1 v2. hm_get this p = Some v1 \<and> hm_get other p = Some v2 \<and> rule p v1 v2"
  using assms
  by (auto simp: intersects_with_rule_def hm_get_mem
      split: if_splits option.splits dest!: find_Some_mem)

lemma intersects_iff: "intersects a b \<longleftrightarrow> (\<exists>p e f. hm_get a p = Some e \<and> hm_get b p = Some f)"
  by (auto simp: intersects_def list_ex_iff hm_contains_iff hm_key_iff [symmetric])
    (metis hm_key_iff image_eqI fst_conv)+

lemma remove_collection_lookup [utxo_lookup]:
  assumes "hm_wf this"
  shows "hm_get (remove_collection this other) p =
    (if hm_contains other p then None else hm_get this p)"
  using hm.remove_loop [OF assms, of "map fst other" p]
  by (auto simp: remove_collection_def hm_contains_iff hm_key_iff)

lemma remove_collection_wf [simp]: "hm_wf this \<Longrightarrow> hm_wf (remove_collection this other)"
  using hm.remove_loop [of this "map fst other"] by (simp add: remove_collection_def)

lemma fold_split_pair:
  "fold (\<lambda>(k, v) (r, m). if P k v then (f k v r, m) else (r, f k v m)) xs (r, m) =
    (fold (\<lambda>(k, v) r. if P k v then f k v r else r) xs r,
     fold (\<lambda>(k, v) m. if \<not> P k v then f k v m else m) xs m)"
  by (induction xs arbitrary: r m) auto

lemma intersection_with_remainder_lookup:
  assumes "hm_wf this" and "hm_wf r" and "hm_wf m"
    and "intersection_with_remainder_having_daa_score_in_place this other r m = (r', m')"
  shows "hm_wf r' \<and> hm_wf m' \<and>
    hm_get r' p = (case hm_get this p of
        Some e \<Rightarrow> if contains_with_daa_score other p (block_daa_score e) then Some e else hm_get r p
      | None \<Rightarrow> hm_get r p) \<and>
    hm_get m' p = (case hm_get this p of
        Some e \<Rightarrow> if contains_with_daa_score other p (block_daa_score e) then hm_get m p else Some e
      | None \<Rightarrow> hm_get m p)"
proof -
  let ?P = "\<lambda>p e. contains_with_daa_score other p (block_daa_score e)"
  have r': "r' = fold (\<lambda>(k, v) r. if ?P k v then hm_insert k v r else r) this r"
    and m': "m' = fold (\<lambda>(k, v) r. if \<not> ?P k v then hm_insert k v r else r) this m"
    using assms(4)
    unfolding intersection_with_remainder_having_daa_score_in_place_def
    by (simp_all add: fold_split_pair)
  show ?thesis
    using hm.insert_loop [OF assms(1,2), of ?P p] hm.insert_loop [OF assms(1,3), of "\<lambda>k v. \<not> ?P k v" p]
    unfolding r' m' by (auto split: option.splits)
qed

lemma subtraction_lookup [utxo_lookup]:
  assumes "hm_wf this" and "hm_wf r"
  shows "hm_get (subtraction_having_daa_score_in_place this other r) p =
    (case hm_get this p of
        Some e \<Rightarrow> if contains_with_daa_score other p (block_daa_score e) then hm_get r p else Some e
      | None \<Rightarrow> hm_get r p)"
    and "hm_wf (subtraction_having_daa_score_in_place this other r)"
  using hm.insert_loop [OF assms, of "\<lambda>p e. \<not> contains_with_daa_score other p (block_daa_score e)" p]
  by (auto simp: subtraction_having_daa_score_in_place_def split: option.splits)

lemma subtraction_with_remainder_eq:
  "subtraction_with_remainder_having_daa_score_in_place this other r m =
     prod.swap (intersection_with_remainder_having_daa_score_in_place this other m r)"
proof -
  have "fold (\<lambda>(k, v) (r, m). if \<not> P k v then (f k v r, m) else (r, f k v m)) xs (r, m) =
      prod.swap (fold (\<lambda>(k, v) (m, r). if P k v then (f k v m, r) else (m, f k v r)) xs (m, r))"
    for P and f :: "'k \<Rightarrow> 'v \<Rightarrow> 'm \<Rightarrow> 'm" and xs r m
    by (induction xs arbitrary: r m) auto
  then show ?thesis
    by (simp add: subtraction_with_remainder_having_daa_score_in_place_def
        intersection_with_remainder_having_daa_score_in_place_def)
qed

section \<open>The specification of a diff\<close>

definition canonical :: "(transaction_outpoint \<Rightarrow> u64 \<Rightarrow> utxo_entry) \<Rightarrow> utxo_collection \<Rightarrow> bool" where
  "canonical can c \<longleftrightarrow> (\<forall>p e. hm_get c p = Some e \<longrightarrow> e = can p (block_daa_score e))"

definition valid_over ::
    "(transaction_outpoint \<Rightarrow> u64 \<Rightarrow> utxo_entry) \<Rightarrow> utxo_view \<Rightarrow> immutable_utxo_diff \<Rightarrow> bool" where
  "valid_over can base d \<longleftrightarrow>
     hm_wf (added d) \<and> hm_wf (removed d) \<and> canonical can (added d) \<and> canonical can (removed d) \<and>
     (\<forall>p e. hm_get (removed d) p = Some e \<longrightarrow> base p = Some e) \<and>
     (\<forall>p e. hm_get (added d) p = Some e \<longrightarrow>
        base p = None \<or>
        (\<exists>e'. hm_get (removed d) p = Some e' \<and> block_daa_score e' \<noteq> block_daa_score e))"

lemma valid_overD:
  assumes "valid_over can base d"
  shows "hm_wf (added d)" "hm_wf (removed d)"
    and "\<And>p e. hm_get (added d) p = Some e \<Longrightarrow> e = can p (block_daa_score e)"
    and "\<And>p e. hm_get (removed d) p = Some e \<Longrightarrow> base p = Some e"
    and "\<And>p e. hm_get (added d) p = Some e \<Longrightarrow> base p = None \<or>
        (\<exists>e'. hm_get (removed d) p = Some e' \<and> block_daa_score e' \<noteq> block_daa_score e)"
    and "\<And>p e. hm_get (removed d) p = Some e \<Longrightarrow> e = can p (block_daa_score e)"
  using assms by (auto simp: valid_over_def canonical_def)

lemma composed_get_as_immutable:
  "composed_get base (as_immutable d) p =
     (case hm_get (add d) p of Some e \<Rightarrow> Some e
      | None \<Rightarrow> if hm_get (remove d) p = None then base p else None)"
  by (auto simp: composed_get_def as_immutable_def hm_contains_def split: option.split)

section \<open>Composition\<close>

lemma as_immutable_sel [simp]: "added (as_immutable d) = add d" "removed (as_immutable d) = remove d"
  by (simp_all add: as_immutable_def)

text \<open>What the two passes of \<^verbatim>\<open>with_diff_in_place\<close> leave at one outpoint.\<close>

lemma with_diff_in_place_lookup:
  assumes wf: "hm_wf (add s)" "hm_wf (remove s)" "hm_wf (added other)" "hm_wf (removed other)"
    and r: "with_diff_in_place s other = Ok r"
  shows "hm_wf (add r) \<and> hm_wf (remove r) \<and>
    (let rem1 = (case hm_get (removed other) p of
           Some e \<Rightarrow> if contains_with_daa_score (add s) p (block_daa_score e)
                     then hm_get (remove s) p else Some e
         | None \<Rightarrow> hm_get (remove s) p);
         add1 = (case hm_get (removed other) p of
           Some e \<Rightarrow> if contains_with_daa_score (add s) p (block_daa_score e)
                     then None else hm_get (add s) p
         | None \<Rightarrow> hm_get (add s) p);
         again = (\<exists>e f. hm_get (added other) p = Some e \<and> rem1 = Some f \<and>
                    block_daa_score f = block_daa_score e)
     in hm_get (add r) p = (if again \<or> hm_get (added other) p = None then add1
                            else hm_get (added other) p) \<and>
        hm_get (remove r) p = (if again then None else rem1))"
proof -
  obtain i1 rem1 where p1: "intersection_with_remainder_having_daa_score_in_place
      (removed other) (add s) [] (remove s) = (i1, rem1)" by fastforce
  obtain i2 add2 where p2: "intersection_with_remainder_having_daa_score_in_place
      (added other) rem1 [] (remove_collection (add s) i1) = (i2, add2)" by fastforce
  have req: "add r = add2" "remove r = remove_collection rem1 i2"
    using r by (auto simp: with_diff_in_place_def p1 p2 split: option.splits)
  note l1 = intersection_with_remainder_lookup [OF wf(4) hm_wf_Nil wf(2) p1]
  have w1: "hm_wf rem1" using l1 by blast
  note l2 = intersection_with_remainder_lookup [OF wf(3) hm_wf_Nil _ p2, of p]
  have w2: "hm_wf (remove_collection (add s) i1)" using wf(1) by simp
  have i2: "hm_contains i2 p = (\<exists>e f. hm_get (added other) p = Some e \<and> hm_get rem1 p = Some f \<and>
      block_daa_score f = block_daa_score e)"
    using l2 [OF w2] by (auto simp: hm_contains_iff contains_with_daa_score_iff split: option.splits)
  have i1: "hm_contains i1 p = (\<exists>e. hm_get (removed other) p = Some e \<and>
      contains_with_daa_score (add s) p (block_daa_score e))"
    using l1 [of p] by (auto simp: hm_contains_iff split: option.splits)
  have a1: "hm_get (remove_collection (add s) i1) p = (case hm_get (removed other) p of
      Some e \<Rightarrow> if contains_with_daa_score (add s) p (block_daa_score e)
                then None else hm_get (add s) p
    | None \<Rightarrow> hm_get (add s) p)"
    using wf(1) by (simp add: remove_collection_lookup i1 split: option.splits)
  have m1: "hm_get rem1 p = (case hm_get (removed other) p of
      Some e \<Rightarrow> if contains_with_daa_score (add s) p (block_daa_score e)
                then hm_get (remove s) p else Some e
    | None \<Rightarrow> hm_get (remove s) p)"
    using l1 [of p] by blast
  have "hm_get (add r) p = (if hm_contains i2 p \<or> hm_get (added other) p = None
      then hm_get (remove_collection (add s) i1) p else hm_get (added other) p)"
    using l2 [OF w2]
    by (auto simp: req i2 contains_with_daa_score_iff split: option.splits)
  moreover have "hm_get (remove r) p = (if hm_contains i2 p then None else hm_get rem1 p)"
    using w1 by (simp add: req remove_collection_lookup)
  moreover have "hm_wf (add r)" "hm_wf (remove r)"
    using l2 [OF w2] w1 by (auto simp: req)
  ultimately show ?thesis
    unfolding Let_def a1 [symmetric] m1 [symmetric] i2 [symmetric] by blast
qed

lemma with_diff_in_place_checks:
  assumes "valid_over can base (as_immutable s)"
    and "valid_over can (composed_get base (as_immutable s)) other"
  shows "\<exists>r. with_diff_in_place s other = Ok r"
proof -
  note v = valid_overD [OF assms(1)] and w = valid_overD [OF assms(2)]
  have "intersects_with_rule (removed other) (remove s) (\<lambda>p entry_to_add existing_entry.
      \<not> contains_with_daa_score (add s) p (block_daa_score entry_to_add)) = None"
    unfolding intersects_with_rule_None [OF w(2) v(2) [simplified]] not_not
    by (auto simp: composed_get_as_immutable contains_with_daa_score_iff
        split: option.splits if_splits dest!: w(4))
  moreover have "intersects_with_rule (added other) (add s) (\<lambda>p entry_to_add existing_entry.
      \<not> contains_with_daa_score (removed other) p (block_daa_score existing_entry)) = None"
    unfolding intersects_with_rule_None [OF w(1) v(1) [simplified]] not_not
  proof (intro allI impI)
    fix p e1 e2
    assume "hm_get (added other) p = Some e1" and e2: "hm_get (add s) p = Some e2"
    then obtain e' where e': "hm_get (removed other) p = Some e'"
      using w(5) [of p e1] by (auto simp: composed_get_as_immutable)
    then show "contains_with_daa_score (removed other) p (block_daa_score e2)"
      using e2 w(4) [OF e'] by (simp add: composed_get_as_immutable contains_with_daa_score_iff)
  qed
  ultimately show ?thesis
    by (auto simp: with_diff_in_place_def split: prod.splits)
qed

lemma with_diff_in_place_step:
  assumes "valid_over can base (as_immutable s)"
    and "valid_over can (composed_get base (as_immutable s)) other"
    and r: "with_diff_in_place s other = Ok r"
  shows "valid_over can base (as_immutable r) \<and>
    composed_get base (as_immutable r) = composed_get (composed_get base (as_immutable s)) other"
proof -
  note v = valid_overD [OF assms(1), simplified] and w = valid_overD [OF assms(2)]
  note l = with_diff_in_place_lookup [OF v(1,2) w(1,2) r, unfolded Let_def]
  have pointwise:
    "(\<forall>e. hm_get (remove r) p = Some e \<longrightarrow> base p = Some e \<and> e = can p (block_daa_score e)) \<and>
     (\<forall>e. hm_get (add r) p = Some e \<longrightarrow> e = can p (block_daa_score e) \<and>
        (base p = None \<or>
         (\<exists>e'. hm_get (remove r) p = Some e' \<and> block_daa_score e' \<noteq> block_daa_score e))) \<and>
     composed_get base (as_immutable r) p =
       composed_get (composed_get base (as_immutable s)) other p" for p
  proof -
    note ss = composed_get_as_immutable composed_get_def hm_contains_def contains_with_daa_score_iff
    show ?thesis
    proof (cases "hm_get (removed other) p")
      case None
      then show ?thesis
        using l [of p] v(3-6) [of p] w(3) [of p] w(5) [of p]
        by (cases "hm_get (added other) p"; cases "hm_get (remove s) p"; cases "hm_get (add s) p")
          (auto simp: ss split: if_splits)
    next
      case (Some e)
      then show ?thesis
        using l [of p] v(3-6) [of p] w(3,5) [of p] w(4,6) [OF Some]
        by (cases "hm_get (added other) p"; cases "hm_get (remove s) p"; cases "hm_get (add s) p")
          (auto simp: ss split: if_splits)
    qed
  qed
  then show ?thesis
    using l by (auto simp: valid_over_def canonical_def)
qed

section \<open>Reversal\<close>

lemma reversed_valid:
  assumes "valid_over can base (as_immutable d)"
  shows "valid_over can (composed_get base (as_immutable d)) (as_reversed d) \<and>
    composed_get (composed_get base (as_immutable d)) (as_reversed d) = base"
proof -
  note v = valid_overD [OF assms, simplified]
  have "composed_get (composed_get base (as_immutable d)) (as_reversed d) p = base p" for p
    using v(4,5) [of p]
    by (auto simp: composed_get_def as_reversed_def as_immutable_def hm_contains_def split: option.splits)
  moreover have "valid_over can (composed_get base (as_immutable d)) (as_reversed d)"
  proof -
    have "(\<forall>e. hm_get (remove d) p = Some e \<longrightarrow> composed_get base (as_immutable d) p = None \<or>
        (\<exists>e'. hm_get (add d) p = Some e' \<and> block_daa_score e' \<noteq> block_daa_score e)) \<and>
      (\<forall>e. hm_get (add d) p = Some e \<longrightarrow> composed_get base (as_immutable d) p = Some e)" for p
      using v(4,5) [of p]
      by (cases "hm_get (add d) p"; cases "hm_get (remove d) p") (auto simp: composed_get_as_immutable)
    then show ?thesis
      using v(1,2,3,6) by (auto simp: valid_over_def canonical_def as_reversed_def)
  qed
  ultimately show ?thesis by blast
qed

section \<open>Chains of diffs\<close>

text \<open>
  The interface of an accumulated diff, as the virtual processor uses it: an accumulator
  acts on a UTXO set, so does one more diff, and a partial operation folds the diff into
  the accumulator. The accumulator of a whole chain of diffs then acts as the chain.
\<close>

fun chain_valid :: "('s \<Rightarrow> 'd \<Rightarrow> 's) \<Rightarrow> ('s \<Rightarrow> 'd \<Rightarrow> bool) \<Rightarrow> 's \<Rightarrow> 'd list \<Rightarrow> bool" where
  "chain_valid act valid s [] = True"
| "chain_valid act valid s (d # ds) = (valid s d \<and> chain_valid act valid (act s d) ds)"

locale diff_accumulator =
  fixes act_acc :: "'s \<Rightarrow> 'a \<Rightarrow> 's"
    and act :: "'s \<Rightarrow> 'd \<Rightarrow> 's"
    and accumulate :: "'a \<Rightarrow> 'd \<Rightarrow> ('a, 'e) outcome"
    and valid_acc :: "'s \<Rightarrow> 'a \<Rightarrow> bool"
    and valid :: "'s \<Rightarrow> 'd \<Rightarrow> bool"
  assumes accumulate_total:
      "valid_acc s a \<Longrightarrow> valid (act_acc s a) d \<Longrightarrow> \<exists>b. accumulate a d = Ok b"
    and accumulate_acts:
      "valid_acc s a \<Longrightarrow> valid (act_acc s a) d \<Longrightarrow> accumulate a d = Ok b \<Longrightarrow>
        valid_acc s b \<and> act_acc s b = act (act_acc s a) d"
begin

lemma accumulate_chain:
  assumes "valid_acc s a" and "chain_valid act valid (act_acc s a) ds"
  shows "\<exists>b. rfold (\<lambda>d a. accumulate a d) ds a = Ok b \<and> valid_acc s b \<and>
    act_acc s b = foldl act (act_acc s a) ds"
  using assms
proof (induction ds arbitrary: a)
  case Nil
  then show ?case by simp
next
  case (Cons d ds)
  then obtain b where b: "accumulate a d = Ok b" and "valid_acc s b"
    and act: "act_acc s b = act (act_acc s a) d"
    using accumulate_total accumulate_acts by (metis chain_valid.simps(2))
  then show ?case using Cons.IH [of b] Cons.prems by simp
qed

end

interpretation ud: diff_accumulator
  "\<lambda>base a. composed_get base (as_immutable a)" composed_get with_diff_in_place
  "\<lambda>base a. valid_over can base (as_immutable a)" "valid_over can"
  for can
  using with_diff_in_place_checks with_diff_in_place_step by unfold_locales blast+

section \<open>Difference\<close>

lemma diff_from_lookup:
  assumes wf: "hm_wf (add s)" "hm_wf (remove s)" "hm_wf (added other)" "hm_wf (removed other)"
    and r: "diff_from s other = Ok r"
  shows "hm_wf (add r) \<and> hm_wf (remove r) \<and>
    hm_get (add r) p =
      (case hm_get (added other) p of
         Some e \<Rightarrow> if contains_with_daa_score (add s) p (block_daa_score e)
           then (case hm_get (remove s) p of
                   Some f \<Rightarrow> if contains_with_daa_score (removed other) p (block_daa_score f)
                             then None else Some f
                 | None \<Rightarrow> None)
           else Some e
       | None \<Rightarrow> (case hm_get (remove s) p of
           Some f \<Rightarrow> if contains_with_daa_score (removed other) p (block_daa_score f)
                     then None else Some f
         | None \<Rightarrow> None)) \<and>
    hm_get (remove r) p =
      (case hm_get (removed other) p of
         Some e \<Rightarrow> if contains_with_daa_score (remove s) p (block_daa_score e)
           then (case hm_get (add s) p of
                   Some f \<Rightarrow> if contains_with_daa_score (added other) p (block_daa_score f)
                             then None else Some f
                 | None \<Rightarrow> None)
           else Some e
       | None \<Rightarrow> (case hm_get (add s) p of
           Some f \<Rightarrow> if contains_with_daa_score (added other) p (block_daa_score f)
                     then None else Some f
         | None \<Rightarrow> None))"
proof -
  obtain i m where im: "intersection_with_remainder_having_daa_score_in_place
      (add s) (added other) [] [] = (i, m)" by fastforce
  note l = intersection_with_remainder_lookup [OF wf(1) hm_wf_Nil hm_wf_Nil im, of p]
  have req: "remove r = subtraction_having_daa_score_in_place (removed other) (remove s) m"
    "add r = subtraction_having_daa_score_in_place (added other) (add s)
       (subtraction_having_daa_score_in_place (remove s) (removed other) [])"
    using r by (auto simp: diff_from_def subtraction_with_remainder_eq im split: option.splits if_splits)
  have wm: "hm_wf m" using l by blast
  have m: "hm_get m p = (case hm_get (add s) p of
      Some f \<Rightarrow> if contains_with_daa_score (added other) p (block_daa_score f) then None else Some f
    | None \<Rightarrow> None)"
    using l by (simp split: option.splits)
  have q: "hm_get (subtraction_having_daa_score_in_place (remove s) (removed other) []) p =
    (case hm_get (remove s) p of
      Some f \<Rightarrow> if contains_with_daa_score (removed other) p (block_daa_score f) then None else Some f
    | None \<Rightarrow> None)"
    using wf by (simp add: subtraction_lookup split: option.splits)
  show ?thesis
    unfolding m [symmetric] q [symmetric] using wf wm by (simp add: req subtraction_lookup)
qed

lemma diff_from_checks:
  assumes "valid_over can base (as_immutable s)" and "valid_over can base other"
  shows "\<exists>r. diff_from s other = Ok r"
proof -
  note v = valid_overD [OF assms(1), simplified] and w = valid_overD [OF assms(2)]
  obtain i m where im: "intersection_with_remainder_having_daa_score_in_place
      (add s) (added other) [] [] = (i, m)" by fastforce
  note l = intersection_with_remainder_lookup [OF v(1) hm_wf_Nil hm_wf_Nil im]
  have "intersects_with_rule (remove s) (added other) (\<lambda>p this_entry other_entry.
      \<not> (block_daa_score other_entry \<noteq> block_daa_score this_entry \<and>
         (contains_with_daa_score (add s) p (block_daa_score other_entry) \<or>
          contains_with_daa_score (removed other) p (block_daa_score this_entry)))) = None"
    unfolding intersects_with_rule_None [OF v(2) w(1)]
    using v(4) w(4,5) by (fastforce simp: contains_with_daa_score_iff)
  moreover have "intersects_with_rule (add s) (removed other) (\<lambda>p this_entry other_entry.
      \<not> (block_daa_score other_entry \<noteq> block_daa_score this_entry \<and>
         (contains_with_daa_score (remove s) p (block_daa_score other_entry) \<or>
          contains_with_daa_score (added other) p (block_daa_score this_entry)))) = None"
    unfolding intersects_with_rule_None [OF v(1) w(2)]
    using v(4,5) w(4) by (fastforce simp: contains_with_daa_score_iff)
  moreover have "intersects_with_rule (remove s) (removed other) (\<lambda>_ this_entry other_entry.
      block_daa_score other_entry \<noteq> block_daa_score this_entry) = None"
    unfolding intersects_with_rule_None [OF v(2) w(2)] using v(4) w(4) by fastforce
  moreover have "intersects i (remove s) = intersects i (removed other)"
  proof -
    have "(\<exists>f. hm_get (remove s) p = Some f) = (\<exists>f. hm_get (removed other) p = Some f)"
      if i: "hm_get i p = Some e" for p e
    proof -
      obtain f where "hm_get (add s) p = Some e" "hm_get (added other) p = Some f"
        using l [of p] i by (auto simp: contains_with_daa_score_iff split: option.splits if_splits)
      then show ?thesis using v(4,5) [of p] w(4,5) [of p] by fastforce
    qed
    then show ?thesis unfolding intersects_iff by blast
  qed
  ultimately show ?thesis
    by (simp add: diff_from_def subtraction_with_remainder_eq im Let_def)
qed

lemma diff_from_step:
  assumes "valid_over can base (as_immutable s)" and "valid_over can base other"
    and r: "diff_from s other = Ok r"
  shows "valid_over can (composed_get base (as_immutable s)) (as_immutable r) \<and>
    composed_get (composed_get base (as_immutable s)) (as_immutable r) = composed_get base other"
proof -
  note v = valid_overD [OF assms(1), simplified] and w = valid_overD [OF assms(2)]
  note l = diff_from_lookup [OF v(1,2) w(1,2) r]
  note ss = composed_get_as_immutable composed_get_def hm_contains_def contains_with_daa_score_iff
  have pointwise:
    "(\<forall>e. hm_get (remove r) p = Some e \<longrightarrow>
        composed_get base (as_immutable s) p = Some e \<and> e = can p (block_daa_score e)) \<and>
     (\<forall>e. hm_get (add r) p = Some e \<longrightarrow> e = can p (block_daa_score e) \<and>
        (composed_get base (as_immutable s) p = None \<or>
         (\<exists>e'. hm_get (remove r) p = Some e' \<and> block_daa_score e' \<noteq> block_daa_score e))) \<and>
     composed_get (composed_get base (as_immutable s)) (as_immutable r) p =
       composed_get base other p" for p
    using l [of p] v(3-6) [of p] w(3-6) [of p]
    by (cases "hm_get (removed other) p"; cases "hm_get (added other) p";
        cases "hm_get (remove s) p"; cases "hm_get (add s) p")
      (auto simp: ss split: if_splits)
  then show ?thesis
    using l by (auto simp: valid_over_def canonical_def)
qed

section \<open>Transactions\<close>

text \<open>What a transaction does to a UTXO set: its inputs go, its outputs come.\<close>

definition output_outpoints :: "transaction \<Rightarrow> transaction_outpoint list" where
  "output_outpoints tx = map (\<lambda>i. new_outpoint (tx_id tx) (of_nat i)) [0..<length (outputs tx)]"

definition output_entries :: "transaction \<Rightarrow> u64 \<Rightarrow> utxo_entry list" where
  "output_entries tx daa =
     map (\<lambda>out. new_entry (output_value out) (output_spk out) daa (is_coinbase tx)) (outputs tx)"

definition apply_tx :: "transaction \<Rightarrow> u64 \<Rightarrow> utxo_view \<Rightarrow> utxo_view" where
  "apply_tx tx daa view =
     (view |` (- previous_outpoint ` set (inputs tx)))
       (output_outpoints tx [\<mapsto>] output_entries tx daa)"

abbreviation diff_view :: "utxo_view \<Rightarrow> utxo_diff \<Rightarrow> utxo_view" where
  "diff_view base d \<equiv> composed_get base (as_immutable d)"

abbreviation diff_valid ::
    "(transaction_outpoint \<Rightarrow> u64 \<Rightarrow> utxo_entry) \<Rightarrow> utxo_view \<Rightarrow> utxo_diff \<Rightarrow> bool" where
  "diff_valid can base d \<equiv> valid_over can base (as_immutable d)"

lemma remove_entry_ok:
  assumes "diff_valid can base d" and "diff_view base d p = Some e" and "e = can p (block_daa_score e)"
  shows "\<exists>d'. remove_entry p e d = Ok d' \<and> diff_valid can base d' \<and>
    diff_view base d' = (diff_view base d)(p := None)"
proof -
  note v = valid_overD [OF assms(1), simplified]
  show ?thesis
  proof (cases "hm_get (add d) p")
    case None
    then have "base p = Some e" "hm_get (remove d) p = None"
      using assms(2) by (auto simp: composed_get_as_immutable split: if_splits)
    with None v assms(3) show ?thesis
      by (auto simp: remove_entry_def contains_with_daa_score_def hm_contains_def valid_over_def
          canonical_def composed_get_as_immutable hmap_simps fun_eq_iff)
  next
    case (Some f)
    then have "f = e" using assms(2) by (simp add: composed_get_as_immutable)
    moreover have "base p = None" if "hm_get (remove d) p = None"
      using v(5) [OF Some] that by simp
    ultimately show ?thesis
      using Some v
      by (auto simp: remove_entry_def contains_with_daa_score_def valid_over_def
          canonical_def composed_get_as_immutable hmap_simps fun_eq_iff)
  qed
qed

lemma add_entry_ok:
  assumes "diff_valid can base d" and "diff_view base d p = None" and "e = can p (block_daa_score e)"
  shows "\<exists>d'. add_entry p e d = Ok d' \<and> diff_valid can base d' \<and>
    diff_view base d' = (diff_view base d)(p \<mapsto> e)"
proof -
  note v = valid_overD [OF assms(1), simplified]
  have a: "hm_get (add d) p = None"
    using assms(2) by (auto simp: composed_get_as_immutable split: option.splits)
  show ?thesis
  proof (cases "hm_get (remove d) p")
    case None
    then have "base p = None" using a assms(2) by (simp add: composed_get_as_immutable)
    with None a v assms(3) show ?thesis
      by (auto simp: add_entry_def contains_with_daa_score_def hm_contains_def valid_over_def
          canonical_def composed_get_as_immutable hmap_simps fun_eq_iff)
  next
    case (Some f)
    then have f: "base p = Some f" "f = can p (block_daa_score f)" using v(4,6) by auto
    show ?thesis
    proof (cases "block_daa_score f = block_daa_score e")
      case True
      then have "f = e" using f assms(3) by simp
      with Some a v f show ?thesis
        by (auto simp: add_entry_def contains_with_daa_score_def valid_over_def
            canonical_def composed_get_as_immutable hmap_simps fun_eq_iff)
    next
      case False
      with Some a v f assms(3) show ?thesis
        by (auto simp: add_entry_def contains_with_daa_score_def hm_contains_def valid_over_def
            canonical_def composed_get_as_immutable hmap_simps fun_eq_iff)
    qed
  qed
qed

lemma remove_entries_ok:
  assumes "diff_valid can base d" and "distinct (map (previous_outpoint \<circ> fst) pins)"
    and "\<And>i e. (i, e) \<in> set pins \<Longrightarrow>
      diff_view base d (previous_outpoint i) = Some e \<and>
      e = can (previous_outpoint i) (block_daa_score e)"
  shows "\<exists>d'. rfold (\<lambda>(inp, entry). remove_entry (previous_outpoint inp) entry) pins d = Ok d' \<and>
    diff_valid can base d' \<and>
    diff_view base d' = diff_view base d |` (- (previous_outpoint \<circ> fst) ` set pins)"
  using assms
proof (induction pins arbitrary: d)
  case Nil
  then show ?case by (simp add: restrict_map_def)
next
  case (Cons ie pins)
  obtain i e where ie: "ie = (i, e)" by (cases ie)
  from Cons.prems ie obtain d' where d': "remove_entry (previous_outpoint i) e d = Ok d'"
      "diff_valid can base d'" "diff_view base d' = (diff_view base d)(previous_outpoint i := None)"
    using remove_entry_ok [of can base d "previous_outpoint i" e] by auto
  have "\<exists>d''. rfold (\<lambda>(inp, entry). remove_entry (previous_outpoint inp) entry) pins d' = Ok d'' \<and>
    diff_valid can base d'' \<and>
    diff_view base d'' = diff_view base d' |` (- (previous_outpoint \<circ> fst) ` set pins)"
  proof (rule Cons.IH)
    fix j f assume jf: "(j, f) \<in> set pins"
    then have "previous_outpoint j \<noteq> previous_outpoint i"
      using Cons.prems(2) ie by (force simp: image_iff)
    with jf Cons.prems(3) [of j f] d'(3)
    show "diff_view base d' (previous_outpoint j) = Some f \<and>
        f = can (previous_outpoint j) (block_daa_score f)" by simp
  qed (use d' Cons.prems(2) in simp_all)
  then show ?case
    using d' ie by (auto simp: restrict_map_def fun_eq_iff)
qed

lemma add_entries_ok:
  assumes "diff_valid can base d" and "distinct ps" and "length ps = length es"
    and "\<And>k. k < length ps \<Longrightarrow> diff_view base d (ps ! k) = None \<and>
      es ! k = can (ps ! k) (block_daa_score (es ! k))"
  shows "\<exists>d'. rfold (\<lambda>(p, e). add_entry p e) (zip ps es) d = Ok d' \<and>
    diff_valid can base d' \<and> diff_view base d' = (diff_view base d)(ps [\<mapsto>] es)"
  using assms(3,1,2,4)
proof (induction ps es arbitrary: d rule: list_induct2)
  case Nil
  then show ?case by simp
next
  case (Cons p ps e es)
  obtain d' where d': "add_entry p e d = Ok d'" "diff_valid can base d'"
      "diff_view base d' = (diff_view base d)(p \<mapsto> e)"
    using add_entry_ok [of can base d p e] Cons.prems(1) Cons.prems(3) [of 0] by auto
  have "\<exists>d''. rfold (\<lambda>(p, e). add_entry p e) (zip ps es) d' = Ok d'' \<and>
    diff_valid can base d'' \<and> diff_view base d'' = (diff_view base d')(ps [\<mapsto>] es)"
  proof (rule Cons.IH)
    fix k assume "k < length ps"
    then show "diff_view base d' (ps ! k) = None \<and> es ! k = can (ps ! k) (block_daa_score (es ! k))"
      using Cons.prems(2) Cons.prems(3) [of "Suc k"] d'(3) by auto
  qed (use d' Cons.prems(2) in simp_all)
  then show ?case using d' by simp
qed

lemma output_outpoints_distinct:
  "length (outputs tx) \<le> 2 ^ 32 \<Longrightarrow> distinct (output_outpoints tx)"
  by (auto simp: output_outpoints_def distinct_map inj_on_def new_outpoint_def
      word_of_nat_inj_iff)

lemma add_transaction_ok:
  assumes "diff_valid can base d"
    and len: "length (entries pt) = length (inputs (ptx pt))"
    and "distinct (map previous_outpoint (inputs (ptx pt)))"
    and "list_all2 (\<lambda>i e. diff_view base d (previous_outpoint i) = Some e \<and>
      e = can (previous_outpoint i) (block_daa_score e)) (inputs (ptx pt)) (entries pt)"
    and "length (outputs (ptx pt)) \<le> 2 ^ 32"
    and "list_all2 (\<lambda>p e. diff_view base d p = None \<and> e = can p (block_daa_score e))
      (output_outpoints (ptx pt)) (output_entries (ptx pt) daa)"
  shows "\<exists>d'. add_transaction pt daa d = Ok d' \<and> diff_valid can base d' \<and>
    diff_view base d' = apply_tx (ptx pt) daa (diff_view base d)"
proof -
  let ?tx = "ptx pt"
  let ?pins = "zip (inputs ?tx) (entries pt)"
  have keys: "map (previous_outpoint \<circ> fst) ?pins = map previous_outpoint (inputs ?tx)"
    using len by (simp flip: map_map)
  have "\<exists>d'. rfold (\<lambda>(inp, entry). remove_entry (previous_outpoint inp) entry) ?pins d = Ok d' \<and>
    diff_valid can base d' \<and>
    diff_view base d' = diff_view base d |` (- (previous_outpoint \<circ> fst) ` set ?pins)"
    using assms(1,3,4) keys by (intro remove_entries_ok) (auto simp: list_all2_iff)
  moreover have "(previous_outpoint \<circ> fst) ` set ?pins = previous_outpoint ` set (inputs ?tx)"
    using arg_cong [OF keys, of set] by simp
  ultimately obtain d1 where d1:
      "rfold (\<lambda>(inp, entry). remove_entry (previous_outpoint inp) entry) ?pins d = Ok d1"
      "diff_valid can base d1"
      "diff_view base d1 = diff_view base d |` (- previous_outpoint ` set (inputs ?tx))"
    by auto
  have "\<exists>d2. rfold (\<lambda>(p, e). add_entry p e)
      (zip (output_outpoints ?tx) (output_entries ?tx daa)) d1 = Ok d2 \<and>
    diff_valid can base d2 \<and>
    diff_view base d2 = (diff_view base d1)(output_outpoints ?tx [\<mapsto>] output_entries ?tx daa)"
    using d1 assms(5,6)
    by (intro add_entries_ok output_outpoints_distinct)
      (auto simp: list_all2_conv_all_nth restrict_map_def)
  moreover have "zip (output_outpoints ?tx) (output_entries ?tx daa) =
    map (\<lambda>(i, out). (new_outpoint (tx_id ?tx) (of_nat i),
        new_entry (output_value out) (output_spk out) daa (is_coinbase ?tx)))
      (enumerate 0 (outputs ?tx))"
    by (simp add: output_outpoints_def output_entries_def enumerate_eq_zip zip_map_map)
  ultimately show ?thesis
    using d1 len
    by (simp add: add_transaction_def populated_inputs_eq rfold_map apply_tx_def comp_def
        case_prod_unfold)
qed

section \<open>Properties\<close>

text \<open>
  C5. Composing diffs is composing updates: when the first diff is valid over a UTXO set and
  the second over the set the first one leads to, \<^verbatim>\<open>with_diff\<close> succeeds, its result is
  valid over the original set, and the view composed with it is the view composed with
  one diff after the other.
\<close>

theorem with_diff_composes:
  assumes "valid_over can base (as_immutable d)"
    and "valid_over can (composed_get base (as_immutable d)) other"
  shows "\<exists>r. with_diff d other = Ok r \<and> valid_over can base (as_immutable r) \<and>
    composed_get base (as_immutable r) = composed_get (composed_get base (as_immutable d)) other"
  using with_diff_in_place_checks [OF assms] with_diff_in_place_step [OF assms]
  by (auto simp: with_diff_def)

text \<open>
  A reorganisation accumulates a whole path of diffs, reversed on the way down and as
  they stand on the way up: folding any chain of diffs, each valid where the previous ones
  lead, never fails and gives one diff with the effect of the chain.
\<close>

theorem with_diff_in_place_chain:
  assumes "valid_over can base (as_immutable d)"
    and "chain_valid composed_get (valid_over can) (composed_get base (as_immutable d)) ds"
  shows "\<exists>r. rfold (\<lambda>other d. with_diff_in_place d other) ds d = Ok r \<and>
    valid_over can base (as_immutable r) \<and>
    composed_get base (as_immutable r) = foldl composed_get (composed_get base (as_immutable d)) ds"
  using assms by (rule ud.accumulate_chain)

text \<open>
  C6. \<^verbatim>\<open>diff_from\<close> computes the difference of two diffs of the same base: it succeeds, and
  applying its result after the first diff gives the view of the second.
\<close>

theorem diff_from_correct:
  assumes "valid_over can base (as_immutable d)" and "valid_over can base other"
  shows "\<exists>r. diff_from d other = Ok r \<and>
    valid_over can (composed_get base (as_immutable d)) (as_immutable r) \<and>
    composed_get (composed_get base (as_immutable d)) (as_immutable r) = composed_get base other"
  using diff_from_checks [OF assms] diff_from_step [OF assms] by blast

text \<open>
  C7. Applying a diff and then its reverse cancels: whatever well-formed collections the diff
  holds, the composition succeeds and is the empty diff.
\<close>

theorem with_diff_reversed_cancels:
  assumes "hm_wf (add d)" and "hm_wf (remove d)"
  shows "with_diff d (as_reversed d) = Ok default_diff"
proof -
  have wf: "hm_wf (added (as_reversed d))" "hm_wf (removed (as_reversed d))"
    using assms by (simp_all add: as_reversed_def)
  have "intersects_with_rule (removed (as_reversed d)) (remove d) (\<lambda>p entry_to_add existing_entry.
      \<not> contains_with_daa_score (add d) p (block_daa_score entry_to_add)) = None"
    unfolding intersects_with_rule_None [OF wf(2) assms(2)]
    by (auto simp: as_reversed_def contains_with_daa_score_iff)
  moreover have "intersects_with_rule (added (as_reversed d)) (add d) (\<lambda>p entry_to_add existing_entry.
      \<not> contains_with_daa_score (removed (as_reversed d)) p (block_daa_score existing_entry)) = None"
    unfolding intersects_with_rule_None [OF wf(1) assms(1)]
    by (auto simp: as_reversed_def contains_with_daa_score_iff)
  ultimately have "\<exists>r. with_diff_in_place d (as_reversed d) = Ok r"
    by (simp add: with_diff_in_place_def split: prod.splits)
  then obtain r where r: "with_diff_in_place d (as_reversed d) = Ok r" by blast
  have none: "hm_get (add r) p = None \<and> hm_get (remove r) p = None" for p
    using with_diff_in_place_lookup [OF assms wf r, of p]
    by (auto simp: Let_def as_reversed_def contains_with_daa_score_iff split: option.splits if_splits)
  have "m = []" if "\<And>p. hm_get m p = None" for m :: utxo_collection
  proof -
    have "hm_get m = Map.empty" using that by (rule ext)
    then show ?thesis by simp
  qed
  with none have "r = default_diff"
    by (cases r) (auto simp: default_diff_def)
  with r show ?thesis by (simp add: with_diff_def)
qed

text \<open>
  C8. \<^verbatim>\<open>add_transaction\<close> does to the diff what the transaction does to the UTXO set: if the
  populated entries are the ones of the current view, no outpoint is spent twice and the
  outputs are new, it succeeds, keeps the diff valid and moves the view by exactly the
  transaction's inputs and outputs.
\<close>

theorem add_transaction_correct:
  assumes "valid_over can base (as_immutable d)"
    and "length (entries pt) = length (inputs (ptx pt))"
    and "distinct (map previous_outpoint (inputs (ptx pt)))"
    and "list_all2 (\<lambda>i e. composed_get base (as_immutable d) (previous_outpoint i) = Some e \<and>
      e = can (previous_outpoint i) (block_daa_score e)) (inputs (ptx pt)) (entries pt)"
    and "length (outputs (ptx pt)) \<le> 2 ^ 32"
    and "list_all2 (\<lambda>p e. composed_get base (as_immutable d) p = None \<and> e = can p (block_daa_score e))
      (output_outpoints (ptx pt)) (output_entries (ptx pt) daa)"
  shows "\<exists>d'. add_transaction pt daa d = Ok d' \<and> valid_over can base (as_immutable d') \<and>
    composed_get base (as_immutable d') =
      apply_tx (ptx pt) daa (composed_get base (as_immutable d))"
  using assms by (rule add_transaction_ok)

text \<open>
  An outpoint of the base set is not spent twice: after an entry that the diff did not add
  has been removed, removing the outpoint again is \<^verbatim>\<open>DoubleRemoveCall\<close>, whatever entry is
  given.
\<close>

theorem double_remove_rejected:
  assumes "hm_get (add d) p = None" and "remove_entry p e d = Ok d'"
  shows "remove_entry p f d' = Err (DoubleRemoveCall p)"
  using assms
  by (auto simp: remove_entry_def contains_with_daa_score_def hm_contains_def hmap_simps
      split: if_splits)

text \<open>
  The search of \<^verbatim>\<open>intersects_with_rule\<close> iterates over the smaller collection, yet answers
  the question for both: it finds no outpoint exactly when no common outpoint satisfies
  the rule, and one it finds does, with the entries in the order of the arguments.
\<close>

theorem intersects_with_rule_correct:
  assumes "hm_wf this" and "hm_wf other"
  shows "case intersects_with_rule this other rule of
      None \<Rightarrow> (\<forall>p v1 v2. hm_get this p = Some v1 \<longrightarrow> hm_get other p = Some v2 \<longrightarrow> \<not> rule p v1 v2)
    | Some p \<Rightarrow> (\<exists>v1 v2. hm_get this p = Some v1 \<and> hm_get other p = Some v2 \<and> rule p v1 v2)"
  using intersects_with_rule_None [OF assms, of rule] intersects_with_rule_Some [OF assms, of rule]
  by (auto split: option.splits)

section \<open>Witnesses\<close>

text \<open>
  A set with one entry; a diff that spends it and pays a new outpoint; a second diff that
  spends that one and recreates the first with a later DAA score.
\<close>

definition wit_spk :: script_public_key where
  "wit_spk = \<lparr>spk_version = 0, script = [81]\<rparr>"

definition wit_p0 :: transaction_outpoint where
  "wit_p0 = new_outpoint 7 0"

definition wit_p1 :: transaction_outpoint where
  "wit_p1 = new_outpoint 8 0"

definition wit_can :: "transaction_outpoint \<Rightarrow> u64 \<Rightarrow> utxo_entry" where
  "wit_can p d = new_entry 100 wit_spk d False"

definition wit_base :: utxo_view where
  "wit_base = [wit_p0 \<mapsto> wit_can wit_p0 1]"

definition wit_d1 :: utxo_diff where
  "wit_d1 = \<lparr>add = [(wit_p1, wit_can wit_p1 5)], remove = [(wit_p0, wit_can wit_p0 1)]\<rparr>"

definition wit_d2 :: utxo_diff where
  "wit_d2 = \<lparr>add = [(wit_p0, wit_can wit_p0 9)], remove = [(wit_p1, wit_can wit_p1 5)]\<rparr>"

definition wit_tx :: populated_tx where
  "wit_tx = \<lparr>ptx = \<lparr>version = 0,
      inputs = [\<lparr>previous_outpoint = wit_p1, signature_script = [], sequence_no = 0, sig_op_count = 0\<rparr>],
      outputs = [\<lparr>output_value = 100, output_spk = wit_spk\<rparr>],
      lock_time = 0, subnetwork_id = SUBNETWORK_ID_NATIVE, gas = 0, payload = [], mass = 0, tx_id = 9\<rparr>,
    entries = [wit_can wit_p1 5]\<rparr>"

lemmas wit_defs = wit_base_def wit_d1_def wit_d2_def wit_can_def wit_p0_def wit_p1_def
  new_outpoint_def new_entry_def

lemma wit_valid:
  "valid_over wit_can wit_base (as_immutable wit_d1)"
  "valid_over wit_can (composed_get wit_base (as_immutable wit_d1)) (as_immutable wit_d2)"
  by (auto simp: valid_over_def canonical_def wit_defs hm_wf_def composed_get_as_immutable
      split: if_splits)

theorem with_diff_composes_witness:
  "\<exists>r. with_diff wit_d1 (as_immutable wit_d2) = Ok r \<and>
     valid_over wit_can wit_base (as_immutable r) \<and>
     composed_get wit_base (as_immutable r) =
       composed_get (composed_get wit_base (as_immutable wit_d1)) (as_immutable wit_d2)"
  using wit_valid by (rule with_diff_composes)

theorem with_diff_in_place_chain_witness:
  "\<exists>r. rfold (\<lambda>other d. with_diff_in_place d other)
       [as_immutable wit_d2, as_reversed wit_d2, as_reversed wit_d1] wit_d1 = Ok r \<and>
     valid_over wit_can wit_base (as_immutable r) \<and>
     composed_get wit_base (as_immutable r) = foldl composed_get
       (composed_get wit_base (as_immutable wit_d1))
       [as_immutable wit_d2, as_reversed wit_d2, as_reversed wit_d1]"
proof (rule with_diff_in_place_chain)
  note r2 = reversed_valid [OF wit_valid(2)] and r1 = reversed_valid [OF wit_valid(1)]
  show "chain_valid composed_get (valid_over wit_can)
      (composed_get wit_base (as_immutable wit_d1))
      [as_immutable wit_d2, as_reversed wit_d2, as_reversed wit_d1]"
    using wit_valid(2) r2 r1 by simp
qed (rule wit_valid)

theorem diff_from_correct_witness:
  "\<exists>r. diff_from wit_d1 (as_immutable default_diff) = Ok r \<and>
     valid_over wit_can (composed_get wit_base (as_immutable wit_d1)) (as_immutable r) \<and>
     composed_get (composed_get wit_base (as_immutable wit_d1)) (as_immutable r) =
       composed_get wit_base (as_immutable default_diff)"
proof (rule diff_from_correct)
  show "valid_over wit_can wit_base (as_immutable default_diff)"
    by (simp add: valid_over_def canonical_def default_diff_def)
qed (rule wit_valid)

theorem with_diff_reversed_cancels_witness:
  "with_diff wit_d1 (as_reversed wit_d1) = Ok default_diff"
  by (rule with_diff_reversed_cancels) (simp_all add: wit_defs hm_wf_def)

theorem add_transaction_correct_witness:
  "\<exists>d'. add_transaction wit_tx 20 wit_d1 = Ok d' \<and> valid_over wit_can wit_base (as_immutable d') \<and>
     composed_get wit_base (as_immutable d') =
       apply_tx (ptx wit_tx) 20 (composed_get wit_base (as_immutable wit_d1))"
proof (rule add_transaction_correct)
  show "valid_over wit_can wit_base (as_immutable wit_d1)" by (rule wit_valid)
qed (simp_all add: wit_tx_def wit_defs composed_get_as_immutable output_outpoints_def
    output_entries_def is_coinbase_def)

theorem double_remove_rejected_witness:
  "remove_entry wit_p0 (wit_can wit_p0 4) \<lparr>add = [], remove = [(wit_p0, wit_can wit_p0 1)]\<rparr> =
     Err (DoubleRemoveCall wit_p0)"
  by (rule double_remove_rejected [of default_diff wit_p0 "wit_can wit_p0 1"])
    (simp_all add: default_diff_def remove_entry_def contains_with_daa_score_def hm_contains_def)

theorem intersects_with_rule_correct_witness:
  "case intersects_with_rule (add wit_d2) (remove wit_d1)
       (\<lambda>_ e f. block_daa_score e \<noteq> block_daa_score f) of
     None \<Rightarrow> (\<forall>p v1 v2. hm_get (add wit_d2) p = Some v1 \<longrightarrow> hm_get (remove wit_d1) p = Some v2 \<longrightarrow>
       \<not> block_daa_score v1 \<noteq> block_daa_score v2)
   | Some p \<Rightarrow> (\<exists>v1 v2. hm_get (add wit_d2) p = Some v1 \<and> hm_get (remove wit_d1) p = Some v2 \<and>
       block_daa_score v1 \<noteq> block_daa_score v2)"
  by (rule intersects_with_rule_correct) (simp_all add: wit_defs hm_wf_def)

end
