(* ===== verification/Script_Data.thy ===== *)
theory Script_Data
  imports Tx_Model
begin

text \<open>
  The data layer of the script engine (\<^verbatim>\<open>crypto/txscript/src/data_stack.rs\<close>) with the
  errors of \<^verbatim>\<open>crypto/txscript/errors/src/lib.rs\<close>: the number and boolean encodings of
  stack elements and the stack primitives the opcodes are built from.

  A stack is a list in the order of the Rust vector, its top last. Every access to it is one of
  the checked operations of the prelude; the equations after the definitions show that the length
  tests of the code keep them in range. An \<^verbatim>\<open>i64\<close> is an integer
  with the range checks written out; the strings of error messages are left out of the
  error values.
\<close>

unbundle bit_operations_syntax

section \<open>Byte strings\<close>

text \<open>\<^verbatim>\<open>to_le_bytes\<close> of a number at a width, and the number a byte string denotes.\<close>

definition to_le_bytes :: "nat \<Rightarrow> nat \<Rightarrow> u8 list" where
  "to_le_bytes k n = map (\<lambda>i. of_nat (n div 256 ^ i mod 256)) [0..<k]"

fun le_value :: "u8 list \<Rightarrow> nat" where
  "le_value [] = 0"
| "le_value (b # bs) = unat b + 256 * le_value bs"

section \<open>Errors\<close>

datatype serialization_error = NumberTooLong int

datatype secp_error = SecpInvalidPublicKey | SecpInvalidSignature | SecpOther nat

datatype script_error =
    MalformedPushSize "u8 list"
  | MalformedPush nat nat
  | InvalidInputIndex int nat
  | StackSizeExceeded nat nat
  | InvalidOpcode
  | OpcodeReserved
  | OpcodeDisabled
  | EmptyStack
  | CleanStack nat
  | EvalFalse
  | EarlyReturn
  | VerifyError
  | InvalidState
  | InvalidSignature secp_error
  | SigcacheSignatureInvalid
  | TooManyOperations int
  | NotATransactionInput
  | ElementTooBig nat nat
  | NotMinimalData
  | InvalidSource
  | UnsatisfiedLockTime
  | NumberTooBig
  | NullFail
  | InvalidSignatureCount
  | InvalidPubKeyCount
  | InvalidSigHashType u8
  | PubKeyFormat
  | SigLength nat
  | InvalidPublicKeyLen nat
  | NoScripts
  | SignatureScriptNotPushOnly
  | ErrUnbalancedConditional
  | InvalidStackOperation nat nat
  | ScriptSize nat nat
  | InvalidOutputIndex int nat
  | Serialization serialization_error
  | ExceededSigOpLimit u8

section \<open>Signed machine integers\<close>

definition in_i64 :: "int \<Rightarrow> bool" where
  "in_i64 n = (- (2 ^ 63) \<le> n \<and> n < 2 ^ 63)"

definition in_i32 :: "int \<Rightarrow> bool" where
  "in_i32 n = (- (2 ^ 31) \<le> n \<and> n < 2 ^ 31)"

definition I64_MIN :: int where
  "I64_MIN = - (2 ^ 63)"

definition i64_checked :: "int \<Rightarrow> int option" where
  "i64_checked n = (if in_i64 n then Some n else None)"

text \<open>\<^verbatim>\<open><<\<close> drops the bits shifted out: the result is taken modulo \<open>2 ^ 64\<close>.\<close>

definition i64_shl :: "int \<Rightarrow> nat \<Rightarrow> int" where
  "i64_shl n k = (n * 2 ^ k + 2 ^ 63) mod 2 ^ 64 - 2 ^ 63"

section \<open>Encodings\<close>

definition check_minimal_data_encoding :: "u8 list \<Rightarrow> (unit, script_error) outcome" where
  "check_minimal_data_encoding v =
     (if v = [] then Ok ()
      else rbind (rbind (usize_sub (length v) 1) (index_at v)) (\<lambda>msb.
        if msb AND 0x7f = 0
        then if length v = 1 then Err NotMinimalData
             else rbind (rbind (usize_sub (length v) 2) (index_at v)) (\<lambda>b.
               fail_if (b AND 0x80 = 0) NotMinimalData)
        else Ok ()))"

text \<open>The bytes \<^verbatim>\<open>iter::from_fn\<close> produces from the magnitude, least significant first.\<close>

function number_vec :: "nat \<Rightarrow> bool \<Rightarrow> u8 list" where
  "number_vec positive last_saturated =
     (if positive = 0 then (if last_saturated then [0] else [])
      else (let value = positive mod 256
            in of_nat value # number_vec (positive div 256) (128 \<le> value)))"
  by pat_completeness auto
termination by (relation "measure fst") auto

declare number_vec.simps [simp del]

definition serialize_i64 :: "int \<Rightarrow> (u8 list, serialization_error) outcome" where
  "serialize_i64 from =
     (let v = number_vec (nat \<bar>from\<bar>) False
      in if from < 0
         then (if v = [] then Panic else Ok (butlast v @ [last v OR 0x80]))
         else Ok v)"

definition deserialize_i64 :: "u8 list \<Rightarrow> (int, script_error) outcome" where
  "deserialize_i64 v =
     (if length v > 8 then Err NotMinimalData
      else if length v = 0 then Ok 0
      else rbind (check_minimal_data_encoding v) (\<lambda>_.
        rbind (rbind (usize_sub (length v) 1) (index_at v)) (\<lambda>msb.
        let sign = 1 - 2 * uint (drop_bit 7 msb);
            first_byte = uint (msb AND 0x7f)
        in rbind (rbind (usize_sub (length v) 1) (slice_at v 0)) (\<lambda>rest.
           rbind (rfold (\<lambda>item accum. expect (i64_checked (i64_shl accum 8 + item)))
                   (map uint (rev rest)) first_byte) (\<lambda>n.
             expect (i64_checked (n * sign)))))))"

definition deserialize_sized :: "nat \<Rightarrow> u8 list \<Rightarrow> (int, script_error) outcome" where
  "deserialize_sized LEN v =
     (if length v > LEN then Err NumberTooBig else deserialize_i64 v)"

definition serialize_sized :: "nat \<Rightarrow> int \<Rightarrow> (u8 list, serialization_error) outcome" where
  "serialize_sized LEN from =
     rbind (serialize_i64 from) (\<lambda>bytes.
       if length bytes > LEN then Err (NumberTooLong from) else Ok bytes)"

definition deserialize_num :: "u8 list \<Rightarrow> (int, script_error) outcome" where
  "deserialize_num v = deserialize_sized 8 v"

definition serialize_num :: "int \<Rightarrow> (u8 list, serialization_error) outcome" where
  "serialize_num from = serialize_sized 8 from"

definition deserialize_i32 :: "u8 list \<Rightarrow> (int, script_error) outcome" where
  "deserialize_i32 v =
     rbind (deserialize_sized 4 v) (\<lambda>n. expect (if in_i32 n then Some n else None))"

definition serialize_i32 :: "int \<Rightarrow> (u8 list, serialization_error) outcome" where
  "serialize_i32 from = serialize_sized 4 from"

definition deserialize_bool :: "u8 list \<Rightarrow> (bool, script_error) outcome" where
  "deserialize_bool v =
     (if v = [] then Ok False
      else rbind (rbind (usize_sub (length v) 1) (index_at v)) (\<lambda>b.
        if b AND 0x7f \<noteq> 0 then Ok True
        else rbind (rbind (usize_sub (length v) 1) (slice_at v 0)) (\<lambda>rest.
          Ok (list_ex (\<lambda>b. b \<noteq> 0) rest))))"

definition serialize_bool :: "bool \<Rightarrow> (u8 list, serialization_error) outcome" where
  "serialize_bool from = Ok (if from then [1] else [])"

section \<open>Stacks\<close>

type_synonym stack = "u8 list list"

definition pop_items ::
    "nat \<Rightarrow> (u8 list \<Rightarrow> ('a, script_error) outcome) \<Rightarrow> stack \<Rightarrow> ('a list \<times> stack, script_error) outcome" where
  "pop_items SIZE deser st =
     (if length st < SIZE then Err (InvalidStackOperation SIZE (length st))
      else rbind (rbind (usize_sub (length st) SIZE) (split_off st)) (\<lambda>(items, st).
           rbind (rmap deser items) (\<lambda>xs.
           rbind (to_array SIZE xs) (\<lambda>xs. Ok (xs, st)))))"

definition peek_items ::
    "nat \<Rightarrow> (u8 list \<Rightarrow> ('a, script_error) outcome) \<Rightarrow> stack \<Rightarrow> ('a list, script_error) outcome" where
  "peek_items SIZE deser st =
     (if length st < SIZE then Err (InvalidStackOperation SIZE (length st))
      else rbind (usize_sub (length st) SIZE) (\<lambda>i.
           rbind (slice_at st i (length st)) (\<lambda>items.
           rbind (rmap deser items) (to_array SIZE))))"

definition pop_raw :: "nat \<Rightarrow> stack \<Rightarrow> (u8 list list \<times> stack, script_error) outcome" where
  "pop_raw SIZE st =
     (if length st < SIZE then Err (InvalidStackOperation SIZE (length st))
      else rbind (rbind (usize_sub (length st) SIZE) (split_off st)) (\<lambda>(items, st).
           rbind (to_array SIZE items) (\<lambda>items. Ok (items, st))))"

definition peek_raw :: "nat \<Rightarrow> stack \<Rightarrow> (u8 list list, script_error) outcome" where
  "peek_raw SIZE st =
     (if length st < SIZE then Err (InvalidStackOperation SIZE (length st))
      else rbind (usize_sub (length st) SIZE) (\<lambda>i.
           rbind (slice_at st i (length st)) (to_array SIZE)))"

text \<open>\<^verbatim>\<open>serialize(..)?\<close> converts the serialization error into the script error.\<close>

definition from_serialization :: "('a, serialization_error) outcome \<Rightarrow> ('a, script_error) outcome" where
  "from_serialization r =
     (case r of Ok x \<Rightarrow> Ok x | Err e \<Rightarrow> Err (Serialization e) | Panic \<Rightarrow> Panic)"

definition push_item ::
    "('a \<Rightarrow> (u8 list, serialization_error) outcome) \<Rightarrow> 'a \<Rightarrow> stack \<Rightarrow> (stack, script_error) outcome" where
  "push_item ser item st = rbind (from_serialization (ser item)) (\<lambda>v. Ok (st @ [v]))"

text \<open>\<^verbatim>\<open>truncate\<close> keeps the first elements and never panics.\<close>

definition drop_items :: "nat \<Rightarrow> stack \<Rightarrow> (stack, script_error) outcome" where
  "drop_items SIZE st =
     (if length st \<ge> SIZE then rbind (usize_sub (length st) SIZE) (\<lambda>n. Ok (take n st))
      else Err (InvalidStackOperation SIZE (length st)))"

text \<open>\<^verbatim>\<open>extend_from_within(a..b)\<close> appends a copy of the range; \<^verbatim>\<open>drain(a..b)\<close> removes
  it, and \<^verbatim>\<open>extend\<close> appends what was removed.\<close>

definition dup_items :: "nat \<Rightarrow> stack \<Rightarrow> (stack, script_error) outcome" where
  "dup_items SIZE st =
     (if length st \<ge> SIZE
      then rbind (usize_sub (length st) SIZE) (\<lambda>a.
           rbind (slice_at st a (length st)) (\<lambda>items. Ok (st @ items)))
      else Err (InvalidStackOperation SIZE (length st)))"

definition over_items :: "nat \<Rightarrow> stack \<Rightarrow> (stack, script_error) outcome" where
  "over_items SIZE st =
     (if length st \<ge> 2 * SIZE
      then rbind (usize_sub (length st) (2 * SIZE)) (\<lambda>a.
           rbind (usize_sub (length st) SIZE) (\<lambda>b.
           rbind (slice_at st a b) (\<lambda>items. Ok (st @ items))))
      else Err (InvalidStackOperation (2 * SIZE) (length st)))"

definition rot_items :: "nat \<Rightarrow> stack \<Rightarrow> (stack, script_error) outcome" where
  "rot_items SIZE st =
     (if length st \<ge> 3 * SIZE
      then rbind (usize_sub (length st) (3 * SIZE)) (\<lambda>a.
           rbind (usize_sub (length st) (2 * SIZE)) (\<lambda>b.
           rbind (vec_drain st a b) (\<lambda>(drained, st). Ok (st @ drained))))
      else Err (InvalidStackOperation (3 * SIZE) (length st)))"

definition swap_items :: "nat \<Rightarrow> stack \<Rightarrow> (stack, script_error) outcome" where
  "swap_items SIZE st =
     (if length st \<ge> 2 * SIZE
      then rbind (usize_sub (length st) (2 * SIZE)) (\<lambda>a.
           rbind (usize_sub (length st) SIZE) (\<lambda>b.
           rbind (vec_drain st a b) (\<lambda>(drained, st). Ok (st @ drained))))
      else Err (InvalidStackOperation (2 * SIZE) (length st)))"

section \<open>The operations within their guards\<close>

text \<open>
  The top elements of a stack and the rest below them. Every operation checks the length
  before it touches the stack, and within that guard no access is out of range: the
  equations below have no panic left.
\<close>

definition top_items :: "nat \<Rightarrow> 'a list \<Rightarrow> 'a list" where
  "top_items n st = drop (length st - n) st"

definition below_items :: "nat \<Rightarrow> 'a list \<Rightarrow> 'a list" where
  "below_items n st = take (length st - n) st"

lemma split_off_top:
  "n \<le> length st \<Longrightarrow>
     rbind (usize_sub (length st) n) (split_off st) = Ok (top_items n st, below_items n st)"
  by (simp add: top_items_def below_items_def)

lemma length_top_items: "n \<le> length st \<Longrightarrow> length (top_items n st) = n"
  by (simp add: top_items_def)

lemma pop_items_eq:
  "pop_items SIZE deser st =
     (if length st < SIZE then Err (InvalidStackOperation SIZE (length st))
      else rbind (rmap deser (top_items SIZE st)) (\<lambda>xs. Ok (xs, below_items SIZE st)))"
proof (cases "length st < SIZE")
  case False
  then show ?thesis
    unfolding pop_items_def
    by (simp only: split_off_top rmap_to_array length_top_items not_less if_False rbind.simps prod.case)
qed (simp add: pop_items_def)

lemma peek_items_eq:
  "peek_items SIZE deser st =
     (if length st < SIZE then Err (InvalidStackOperation SIZE (length st))
      else rmap deser (top_items SIZE st))"
  by (simp add: peek_items_def rmap_to_array top_items_def)

lemma pop_raw_eq:
  "pop_raw SIZE st =
     (if length st < SIZE then Err (InvalidStackOperation SIZE (length st))
      else Ok (top_items SIZE st, below_items SIZE st))"
  by (simp add: pop_raw_def top_items_def below_items_def)

lemma peek_raw_eq:
  "peek_raw SIZE st =
     (if length st < SIZE then Err (InvalidStackOperation SIZE (length st))
      else Ok (top_items SIZE st))"
  by (simp add: peek_raw_def top_items_def)

lemma drop_items_eq:
  "drop_items SIZE st =
     (if length st \<ge> SIZE then Ok (below_items SIZE st)
      else Err (InvalidStackOperation SIZE (length st)))"
  by (simp add: drop_items_def below_items_def)

lemma dup_items_eq:
  "dup_items SIZE st =
     (if length st \<ge> SIZE then Ok (st @ top_items SIZE st)
      else Err (InvalidStackOperation SIZE (length st)))"
  by (simp add: dup_items_def top_items_def)

lemma over_items_eq:
  "over_items SIZE st =
     (if length st \<ge> 2 * SIZE
      then Ok (st @ take SIZE (drop (length st - 2 * SIZE) st))
      else Err (InvalidStackOperation (2 * SIZE) (length st)))"
  by (simp add: over_items_def)

lemma rot_items_eq:
  "rot_items SIZE st =
     (if length st \<ge> 3 * SIZE
      then Ok (take (length st - 3 * SIZE) st @ drop (length st - 2 * SIZE) st @
               take SIZE (drop (length st - 3 * SIZE) st))
      else Err (InvalidStackOperation (3 * SIZE) (length st)))"
  by (simp add: rot_items_def)

lemma swap_items_eq:
  "swap_items SIZE st =
     (if length st \<ge> 2 * SIZE
      then Ok (take (length st - 2 * SIZE) st @ drop (length st - SIZE) st @
               take SIZE (drop (length st - 2 * SIZE) st))
      else Err (InvalidStackOperation (2 * SIZE) (length st)))"
  by (simp add: swap_items_def)

lemma check_minimal_data_encoding_eq:
  "check_minimal_data_encoding v =
     (if v = [] then Ok ()
      else if v ! (length v - 1) AND 0x7f = 0 \<and> (length v = 1 \<or> v ! (length v - 2) AND 0x80 = 0)
      then Err NotMinimalData
      else Ok ())"
proof (cases v)
  case (Cons b bs)
  then show ?thesis by (cases bs) (simp_all add: check_minimal_data_encoding_def fail_if_def)
qed (simp add: check_minimal_data_encoding_def)

lemma deserialize_bool_eq:
  "deserialize_bool v =
     (if v = [] then Ok False
      else Ok (v ! (length v - 1) AND 0x7f \<noteq> 0 \<or> list_ex (\<lambda>b. b \<noteq> 0) (take (length v - 1) v)))"
  by (cases v) (simp_all add: deserialize_bool_def)

section \<open>Lemmas on bytes\<close>

lemma byte_and_127: "unat (b AND 0x7f) = unat b mod 128" for b :: u8
proof -
  have "(0x7f :: u8) = mask 7" by (simp add: mask_eq_exp_minus_1)
  then have "b AND 0x7f = take_bit 7 b" by (simp only: take_bit_eq_mask)
  then have "unat (b AND 0x7f) = take_bit 7 (unat b)" by (simp only: unsigned_take_bit_eq)
  then show ?thesis by (simp add: take_bit_eq_mod)
qed

lemma byte_bit_7: "bit b 7 \<longleftrightarrow> 128 \<le> unat b" for b :: u8
proof -
  have "bit b 7 = bit (unat b) 7" by (simp add: bit_unsigned_iff)
  also have "\<dots> = odd (unat b div 2 ^ 7)" by (rule bit_iff_odd)
  also have "\<dots> = (128 \<le> unat b)"
  proof -
    have "unat b div 128 \<le> 1" using unat_bound [of b] by simp
    then have "odd (unat b div 128) \<longleftrightarrow> unat b div 128 = 1" by (cases "unat b div 128") auto
    also have "\<dots> \<longleftrightarrow> 128 \<le> unat b" using unat_bound [of b] by (auto simp: div_nat_eqI)
    finally show ?thesis by simp
  qed
  finally show ?thesis .
qed

lemma byte_and_128: "b AND 0x80 = 0 \<longleftrightarrow> unat b < 128" for b :: u8
proof -
  have "(0x80 :: u8) = 2 ^ 7" by simp
  then show ?thesis by (simp only: and_exp_eq_0_iff_not_bit byte_bit_7 not_le)
qed

lemma byte_or_128: "unat b < 128 \<Longrightarrow> unat (b OR 0x80) = unat b + 128" for b :: u8
proof -
  assume b: "unat b < 128"
  then have "b AND 0x80 = 0" by (simp add: byte_and_128)
  then have "b OR 0x80 = b + 0x80" by (simp add: disjunctive_add_eq_or)
  then show ?thesis using b by (simp add: unat_word_ariths)
qed

lemma byte_drop_7: "uint (drop_bit 7 b) = (if unat b < 128 then 0 else 1)" for b :: u8
proof -
  have "unat (drop_bit 7 b) = drop_bit 7 (unat b)" 
    using unat_bound [of b] by (simp only: unsigned_drop_bit_eq) (simp add: take_bit_nat_eq_self)
  then have "unat (drop_bit 7 b) = unat b div 128" by (simp add: drop_bit_eq_div)
  moreover have "unat b div 128 \<le> 1" using unat_bound [of b] by simp
  ultimately show ?thesis unfolding uint_nat by (auto simp: div_eq_0_iff)
qed

section \<open>Lemmas on numbers\<close>

definition minimal_magnitude :: "u8 list \<Rightarrow> bool" where
  "minimal_magnitude w =
     (w \<noteq> [] \<and> unat (last w) < 128 \<and>
      (last w = 0 \<longrightarrow> 2 \<le> length w \<and> 128 \<le> unat (last (butlast w))))"

lemma number_vec_0 [simp]: "number_vec 0 s = (if s then [0] else [])"
  by (subst number_vec.simps) simp

lemma number_vec_pos:
  "0 < p \<Longrightarrow> number_vec p s = of_nat (p mod 256) # number_vec (p div 256) (128 \<le> p mod 256)"
  by (subst number_vec.simps) (simp add: Let_def)

lemma unat_of_nat_byte [simp]: "n < 256 \<Longrightarrow> unat (of_nat n :: u8) = n"
  by (simp add: unat_of_nat)

lemma le_value_number_vec: "le_value (number_vec p s) = p"
proof (induction p s rule: number_vec.induct)
  case (1 p s)
  then show ?case by (cases "p = 0") (simp_all add: number_vec_pos)
qed

lemma le_value_bound: "le_value bs < 256 ^ length bs"
proof (induction bs)
  case (Cons b bs)
  have "unat b < 256" using unat_bound [of b] by simp
  with Cons show ?case by simp
qed simp

lemma le_value_snoc: "le_value (bs @ [b]) = le_value bs + 256 ^ length bs * unat b"
  by (induction bs) (simp_all add: algebra_simps)

text \<open>Fixed-width little-endian bytes: their length, and that they determine the number.\<close>

lemma length_to_le_bytes [simp]: "length (to_le_bytes k n) = k"
  by (simp add: to_le_bytes_def)

lemma to_le_bytes_Suc: "to_le_bytes (Suc k) n = of_nat (n mod 256) # to_le_bytes k (n div 256)"
proof -
  have "to_le_bytes (Suc k) n = map (\<lambda>i. of_nat (n div 256 ^ i mod 256)) (0 # map Suc [0..<k])"
    unfolding to_le_bytes_def by (simp only: upt_conv_Cons map_Suc_upt)
  then show ?thesis by (simp add: to_le_bytes_def div_mult2_eq)
qed

lemma le_value_to_le_bytes: "n < 256 ^ k \<Longrightarrow> le_value (to_le_bytes k n) = n"
proof (induction k arbitrary: n)
  case 0
  then show ?case by (simp add: to_le_bytes_def)
next
  case (Suc k)
  then have "n div 256 < 256 ^ k" by (simp add: less_mult_imp_div_less mult.commute)
  with Suc.IH show ?case by (simp add: to_le_bytes_Suc)
qed

lemma to_le_bytes_le_value: "to_le_bytes (length bs) (le_value bs) = bs"
proof (induction bs)
  case (Cons b bs)
  have "(unat b + 256 * le_value bs) mod 256 = unat b" "(unat b + 256 * le_value bs) div 256 = le_value bs"
    using unat_bound [of b] by simp_all
  with Cons show ?case by (simp add: to_le_bytes_Suc)
qed (simp add: to_le_bytes_def)

lemma to_le_bytes_inj: "m < 256 ^ k \<Longrightarrow> n < 256 ^ k \<Longrightarrow> to_le_bytes k m = to_le_bytes k n \<longleftrightarrow> m = n"
  by (metis le_value_to_le_bytes)

lemma number_vec_minimal:
  "0 < p \<or> s \<Longrightarrow> minimal_magnitude (if p = 0 then [128, 0] else number_vec p s)"
proof (induction p s rule: number_vec.induct)
  case (1 p s)
  show ?case
  proof (cases "p = 0")
    case True
    then show ?thesis by (simp add: minimal_magnitude_def)
  next
    case False
    let ?b = "of_nat (p mod 256) :: u8"
    have b: "unat ?b = p mod 256" by simp
    show ?thesis
    proof (cases "p div 256 = 0")
      case True
      then have p: "p mod 256 = p" by (simp add: div_eq_0_iff)
      with b False have "?b \<noteq> 0" by (metis unsigned_0)
      with True False b p show ?thesis
        by (auto simp: number_vec_pos minimal_magnitude_def)
    next
      case nz: False
      then have "minimal_magnitude (number_vec (p div 256) (128 \<le> p mod 256))"
        using 1 False by simp
      then show ?thesis
        using False nz by (cases "number_vec (p div 256) (128 \<le> p mod 256)" rule: rev_cases)
          (auto simp: number_vec_pos [of p] minimal_magnitude_def butlast_append)
    qed
  qed
qed

lemma number_vec_length: "p < 2 ^ (8 * k + 7) \<Longrightarrow> length (number_vec p s) \<le> Suc k"
proof (induction k arbitrary: p s)
  case 0
  then show ?case by (cases "p = 0") (simp_all add: number_vec_pos)
next
  case (Suc k)
  then have "p div 256 < 2 ^ (8 * k + 7)"
    by (simp add: less_mult_imp_div_less power_add mult.commute)
  then show ?case using Suc.IH by (cases "p = 0") (simp_all add: number_vec_pos)
qed

lemma number_vec_unique: "minimal_magnitude w \<Longrightarrow> number_vec (le_value w) s = w"
proof (induction w arbitrary: s)
  case (Cons b bs)
  have b: "unat b < 256" using unat_bound [of b] by simp
  show ?case
  proof (cases "le_value bs = 0")
    case True
    show ?thesis
    proof (cases bs)
      case Nil
      with Cons.prems have "unat b < 128" "0 < unat b"
        by (auto simp: minimal_magnitude_def unat_gt_0)
      with Nil b show ?thesis by (simp add: number_vec_pos)
    next
      case (Cons c cs)
      with True have "c = 0" "le_value cs = 0" by (simp_all add: unat_eq_zero)
      have "cs = []"
      proof (rule ccontr)
        assume "cs \<noteq> []"
        then obtain ds d where ds: "cs = ds @ [d]" by (metis rev_exhaust)
        with \<open>le_value cs = 0\<close> have d: "d = 0" by (simp add: le_value_snoc unat_eq_zero)
        then have "128 \<le> unat (last (butlast (b # c # cs)))"
          using Cons.prems \<open>bs = c # cs\<close> ds by (simp add: minimal_magnitude_def)
        then have "128 \<le> unat (last (c # ds))" using ds by (simp add: butlast_append)
        moreover have "le_value (c # ds) = 0" using True Cons ds by (simp add: le_value_snoc)
        ultimately show False
          by (cases ds rule: rev_cases) (auto simp: le_value_snoc simp flip: append_Cons)
      qed
      with Cons.prems Cons \<open>c = 0\<close> have "128 \<le> unat b" by (simp add: minimal_magnitude_def)
      with Cons \<open>cs = []\<close> \<open>c = 0\<close> b show ?thesis by (simp add: number_vec_pos)
    qed
  next
    case False
    then have ne: "bs \<noteq> []" by auto
    have "minimal_magnitude bs"
      using Cons.prems False ne
      by (cases bs rule: rev_cases)
        (auto simp: minimal_magnitude_def butlast_append le_value_snoc Suc_le_eq split: if_splits)
    with Cons.IH False b show ?thesis by (simp add: number_vec_pos)
  qed
qed (simp add: minimal_magnitude_def)

lemma i64_shl_exact: "0 \<le> n \<Longrightarrow> n * 256 < 2 ^ 63 \<Longrightarrow> i64_shl n 8 = n * 256"
  by (simp add: i64_shl_def)

lemma i64_checked_in: "in_i64 n \<Longrightarrow> i64_checked n = Some n"
  by (simp add: i64_checked_def)

text \<open>The accumulation of \<^verbatim>\<open>deserialize_i64\<close> never overflows and is the little-endian value.\<close>

lemma accum_loop:
  assumes "0 \<le> a" and "(a + 1) * 256 ^ length us \<le> 2 ^ 63"
  shows "rfold (\<lambda>item accum. expect (i64_checked (i64_shl accum 8 + item)))
           (map uint (rev us)) a = Ok (int (le_value us) + 256 ^ length us * a)"
  using assms(2)
proof (induction us)
  case (Cons u us)
  define A where "A = int (le_value us) + 256 ^ length us * a"
  have "(a + 1) * 256 ^ length us * 256 \<le> 2 ^ 63" using Cons.prems by (simp add: algebra_simps)
  moreover have "(a + 1) * 256 ^ length us \<ge> 0" using assms(1) by simp
  ultimately have pre: "(a + 1) * 256 ^ length us \<le> 2 ^ 63" by linarith
  have "int (le_value us) + 1 \<le> 256 ^ length us"
    using le_value_bound [of us] by (metis add1_zle_eq of_nat_less_iff of_nat_power of_nat_numeral)
  moreover have "(a + 1) * 256 ^ length us = 256 ^ length us * a + 256 ^ length us"
    by (simp add: algebra_simps)
  ultimately have "A + 1 \<le> (a + 1) * 256 ^ length us" unfolding A_def by linarith
  then have "(A + 1) * 256 \<le> (a + 1) * 256 ^ length us * 256" by (rule mult_right_mono) simp
  with \<open>(a + 1) * 256 ^ length us * 256 \<le> 2 ^ 63\<close> have A: "(A + 1) * 256 \<le> 2 ^ 63"
    by (rule order_trans [rotated])
  have "0 \<le> A" using assms(1) by (simp add: A_def)
  have u: "uint u < 256" using uint_lt2p [of u] by simp
  have "i64_shl A 8 = A * 256" using A \<open>0 \<le> A\<close> by (intro i64_shl_exact) simp_all
  moreover have "0 \<le> A * 256 + uint u" using \<open>0 \<le> A\<close> by simp
  then have "in_i64 (A * 256 + uint u)"
    using A u by (simp add: in_i64_def)
  ultimately show ?case
    using Cons.IH [OF pre] unfolding A_def [symmetric]
    by (simp add: rfold_append i64_checked_in) (simp add: A_def algebra_simps)
qed simp

definition magnitude :: "u8 list \<Rightarrow> nat" where
  "magnitude v = le_value (butlast v @ [last v AND 0x7f])"

lemma magnitude_bound:
  assumes "v \<noteq> []" shows "magnitude v < 2 ^ (8 * (length v - 1) + 7)"
proof -
  let ?k = "length v - 1"
  have "unat (last v AND 0x7f) \<le> 127" by (simp add: byte_and_127)
  then have "256 ^ ?k * unat (last v AND 0x7f) \<le> 256 ^ ?k * (127 :: nat)" by simp
  moreover have "le_value (butlast v) < 256 ^ ?k" using le_value_bound [of "butlast v"] by simp
  moreover have "magnitude v = le_value (butlast v) + 256 ^ ?k * unat (last v AND 0x7f)"
    by (simp add: magnitude_def le_value_snoc)
  ultimately have "magnitude v < 256 ^ ?k + 256 ^ ?k * 127" by linarith
  also have "\<dots> = 2 ^ (8 * ?k + 7)" by (simp add: power_add power_mult)
  finally show ?thesis .
qed

lemma deserialize_i64_eq:
  assumes "v \<noteq> []" and "length v \<le> 8"
  shows "deserialize_i64 v =
    rbind (check_minimal_data_encoding v)
      (\<lambda>_. Ok (if unat (last v) < 128 then int (magnitude v) else - int (magnitude v)))"
proof -
  let ?a = "uint (last v AND 0x7f)"
  have mb: "int (magnitude v) < 2 ^ 63"
  proof -
    have "magnitude v < 2 ^ (8 * (length v - 1) + 7)" using assms(1) by (rule magnitude_bound)
    also have "\<dots> \<le> 2 ^ 63" using assms(2) by (intro power_increasing) auto
    finally show ?thesis by simp
  qed
  have a: "?a = int (unat (last v AND 0x7f))" by simp
  have "?a + 1 \<le> 128" unfolding a byte_and_127 by simp
  moreover have "(256 :: int) ^ (length v - 1) \<le> 256 ^ 7" using assms(2) by (intro power_increasing) auto
  ultimately have "(?a + 1) * 256 ^ (length v - 1) \<le> 128 * 256 ^ 7"
    by (intro mult_mono) auto
  then have loop: "rfold (\<lambda>item accum. expect (i64_checked (i64_shl accum 8 + item)))
      (map uint (rev (take (length v - 1) v))) (uint (v ! (length v - 1) AND 0x7f)) =
      Ok (int (magnitude v))"
    unfolding butlast_conv_take [symmetric] last_conv_nth [OF assms(1), symmetric]
    by (subst accum_loop) (simp_all add: magnitude_def le_value_snoc)
  have "in_i64 (int (magnitude v))" "in_i64 (- int (magnitude v))" using mb by (simp_all add: in_i64_def)
  then have sgn: "expect (i64_checked (int (magnitude v) * (1 - 2 * uint (drop_bit 7 (v ! (length v - 1)))))) =
      Ok (if unat (last v) < 128 then int (magnitude v) else - int (magnitude v))"
    unfolding last_conv_nth [OF assms(1), symmetric] byte_drop_7 by (simp add: i64_checked_in)
  show ?thesis
    using assms unfolding deserialize_i64_def Let_def last_in_range [OF assms(1)] loop rbind.simps sgn
    by simp
qed

lemma check_minimal_iff:
  assumes "v \<noteq> []"
  shows "check_minimal_data_encoding v = Ok u \<longleftrightarrow>
    minimal_magnitude (butlast v @ [last v AND 0x7f])"
proof -
  obtain xs b where v: "v = xs @ [b]" using assms by (metis rev_exhaust)
  have "unat (b AND 0x7f) < 128" by (simp add: byte_and_127)
  then show ?thesis
    unfolding v
    by (cases xs rule: rev_cases)
      (auto simp: check_minimal_data_encoding_eq minimal_magnitude_def byte_and_128 nth_append
        butlast_append not_less)
qed

lemma check_minimal_not_Panic [simp]: "check_minimal_data_encoding v \<noteq> Panic"
  by (simp add: check_minimal_data_encoding_eq)

lemma deserialize_no_panic [simp]:
  "deserialize_i64 v \<noteq> Panic" "deserialize_sized n v \<noteq> Panic" "deserialize_num v \<noteq> Panic"
  "deserialize_bool v \<noteq> Panic"
proof -
  show i64: "deserialize_i64 v \<noteq> Panic" for v
  proof (cases "v = [] \<or> 8 < length v")
    case True
    then show ?thesis by (auto simp: deserialize_i64_def)
  next
    case False
    then show ?thesis by (simp add: deserialize_i64_eq outcome_simps)
  qed
  then show "deserialize_sized n v \<noteq> Panic" for n v by (simp add: deserialize_sized_def)
  then show "deserialize_num v \<noteq> Panic" by (simp add: deserialize_num_def)
  show "deserialize_bool v \<noteq> Panic" by (simp add: deserialize_bool_eq)
qed

text \<open>What a successful decoding says about the bytes, and the bound it gives on the number.\<close>

lemma deserialize_i64_Ok_iff:
  "deserialize_i64 v = Ok n \<longleftrightarrow>
     (v = [] \<and> n = 0) \<or>
     (v \<noteq> [] \<and> length v \<le> 8 \<and> minimal_magnitude (butlast v @ [last v AND 0x7f]) \<and>
      n = (if unat (last v) < 128 then int (magnitude v) else - int (magnitude v)))"
proof (cases "v = [] \<or> 8 < length v")
  case True
  then show ?thesis by (auto simp: deserialize_i64_def)
next
  case False
  then show ?thesis by (auto simp: deserialize_i64_eq rbind_Ok_iff check_minimal_iff)
qed

lemma deserialize_sized_bound:
  assumes "deserialize_sized k v = Ok n" and "0 < k"
  shows "\<bar>n\<bar> < 2 ^ (8 * (k - 1) + 7)"
proof (cases "v = []")
  case True
  then show ?thesis using assms by (simp add: deserialize_sized_def deserialize_i64_def)
next
  case False
  have "magnitude v < 2 ^ (8 * (length v - 1) + 7)" using False by (rule magnitude_bound)
  also have "\<dots> \<le> 2 ^ (8 * (k - 1) + 7)"
    using assms by (intro power_increasing) (auto simp: deserialize_sized_def split: if_splits)
  finally have "int (magnitude v) < 2 ^ (8 * (k - 1) + 7)"
    by (metis of_nat_less_iff of_nat_power of_nat_numeral)
  then show ?thesis
    using assms False by (auto simp: deserialize_sized_def deserialize_i64_Ok_iff split: if_splits)
qed

lemma deserialize_i32_eq: "deserialize_i32 v = deserialize_sized 4 v"
proof -
  have "in_i32 n" if "deserialize_sized 4 v = Ok n" for n
    using deserialize_sized_bound [OF that] by (auto simp: in_i32_def abs_less_iff)
  then show ?thesis by (cases "deserialize_sized 4 v") (auto simp: deserialize_i32_def)
qed

lemma deserialize_i32_no_panic [simp]: "deserialize_i32 v \<noteq> Panic"
  by (simp add: deserialize_i32_eq)

lemma serialize_i64_no_panic [simp]: "serialize_i64 n \<noteq> Panic"
proof -
  have "number_vec p False \<noteq> []" if "0 < p" for p using that by (simp add: number_vec_pos)
  then show ?thesis by (auto simp: serialize_i64_def Let_def)
qed

lemma serialize_no_panic [simp]:
  "serialize_sized k n \<noteq> Panic" "serialize_num n \<noteq> Panic" "serialize_bool b \<noteq> Panic"
  by (auto simp: serialize_sized_def serialize_num_def serialize_bool_def outcome_simps)

lemma number_vec_Nil_iff: "number_vec p False = [] \<longleftrightarrow> p = 0"
  by (cases "p = 0") (simp_all add: number_vec_pos)

lemma serialize_i64_length: "serialize_i64 n = Ok v \<Longrightarrow> length v = length (number_vec (nat \<bar>n\<bar>) False)"
  by (auto simp: serialize_i64_def Let_def split: if_splits)

text \<open>The encoding of a number: sign and magnitude read back, and the encoding is minimal.\<close>

lemma serialize_i64_decodes:
  assumes "serialize_i64 n = Ok v" and "n \<noteq> 0"
  shows "v \<noteq> []" "minimal_magnitude (butlast v @ [last v AND 0x7f])"
    "magnitude v = nat \<bar>n\<bar>" "unat (last v) < 128 \<longleftrightarrow> 0 < n"
proof -
  define w where "w = number_vec (nat \<bar>n\<bar>) False"
  have min: "minimal_magnitude w"
    using number_vec_minimal [of "nat \<bar>n\<bar>" False] assms(2) by (simp add: w_def)
  then have w: "w \<noteq> []" "unat (last w) < 128" by (simp_all add: minimal_magnitude_def)
  have val: "le_value w = nat \<bar>n\<bar>" by (simp add: w_def le_value_number_vec)
  have or7: "unat ((last w OR 0x80) AND 0x7f) = unat (last w)"
    using w(2) by (simp add: byte_and_127 byte_or_128)
  then have "(last w OR 0x80) AND 0x7f = last w" by (simp only: word_unat_eq_iff)
  moreover have "last w AND 0x7f = last w"
    using w(2) by (simp add: word_unat_eq_iff byte_and_127)
  moreover have v: "v = (if n < 0 then butlast w @ [last w OR 0x80] else w)"
    using assms w(1) by (auto simp: serialize_i64_def w_def Let_def split: if_splits)
  ultimately have bytes: "butlast v @ [last v AND 0x7f] = w"
    using w(1) by (simp add: append_butlast_last_id)
  show "v \<noteq> []" using v w(1) by simp
  show "minimal_magnitude (butlast v @ [last v AND 0x7f])" using bytes min by simp
  show "magnitude v = nat \<bar>n\<bar>" using bytes val by (simp add: magnitude_def)
  show "unat (last v) < 128 \<longleftrightarrow> 0 < n"
    using v w assms(2) byte_or_128 [of "last w"] by auto
qed

lemma serialize_sized_decodes:
  assumes "\<bar>n\<bar> < 2 ^ (8 * k + 7)" and "k < 8"
  shows "\<exists>v. serialize_sized (Suc k) n = Ok v \<and> deserialize_sized (Suc k) v = Ok n"
proof -
  obtain v where v: "serialize_i64 n = Ok v"
    using number_vec_Nil_iff [of "nat \<bar>n\<bar>"] unfolding serialize_i64_def Let_def
    by (cases "n < 0") auto
  have "nat \<bar>n\<bar> < 2 ^ (8 * k + 7)" using assms(1) by (simp add: nat_less_iff)
  then have len: "length v \<le> Suc k" using serialize_i64_length [OF v] number_vec_length by simp
  have "deserialize_i64 v = Ok n"
  proof (cases "n = 0")
    case True
    then have "v = []" using v by (simp add: serialize_i64_def)
    with True show ?thesis by (simp add: deserialize_i64_def)
  next
    case False
    then show ?thesis
      using serialize_i64_decodes [OF v False] len assms(2) by (auto simp: deserialize_i64_Ok_iff)
  qed
  with v len show ?thesis by (auto simp: serialize_sized_def deserialize_sized_def)
qed

lemma deserialize_sized_encodes:
  assumes "deserialize_sized k v = Ok n"
  shows "serialize_sized k n = Ok v"
proof (cases "v = []")
  case True
  with assms show ?thesis
    by (simp add: deserialize_sized_def deserialize_i64_def serialize_sized_def serialize_i64_def)
next
  case False
  let ?w = "butlast v @ [last v AND 0x7f]"
  from assms False have len: "length v \<le> k" and min: "minimal_magnitude ?w"
    and n: "n = (if unat (last v) < 128 then int (magnitude v) else - int (magnitude v))"
    by (auto simp: deserialize_sized_def deserialize_i64_Ok_iff split: if_splits)
  have "number_vec (nat \<bar>n\<bar>) False = ?w"
    using number_vec_unique [OF min] n by (simp add: magnitude_def)
  moreover have pos: "0 < magnitude v"
    using number_vec_unique [OF min, of False] by (auto simp: magnitude_def intro: gr0I)
  moreover have "(last v AND 0x7f) OR 0x80 = last v" if "\<not> unat (last v) < 128"
  proof -
    have "unat (last v) mod 128 = unat (last v) - 128"
      using that unat_bound [of "last v"] by (simp add: mod_if)
    then show ?thesis using that by (simp add: word_unat_eq_iff byte_or_128 byte_and_127)
  qed
  moreover have "last v AND 0x7f = last v" if "unat (last v) < 128"
    using that by (simp add: word_unat_eq_iff byte_and_127)
  ultimately have "serialize_i64 n = Ok v"
    using n False by (simp add: serialize_i64_def Let_def)
  with len show ?thesis by (simp add: serialize_sized_def)
qed

lemma serialize_num_min: "serialize_num I64_MIN = Err (NumberTooLong I64_MIN)"
proof -
  have "number_vec (2 ^ 63) False = [0, 0, 0, 0, 0, 0, 0, 128, 0]"
    by (simp add: number_vec_pos)
  then have "serialize_i64 (- (2 ^ 63)) = Ok [0, 0, 0, 0, 0, 0, 0, 128, 128]"
    by (simp add: serialize_i64_def Let_def)
  then show ?thesis by (simp add: serialize_num_def serialize_sized_def I64_MIN_def)
qed

section \<open>Lemmas on stacks\<close>

lemma pop_items_Ok_iff:
  "pop_items n deser st = Ok (xs, st') \<longleftrightarrow>
     n \<le> length st \<and> rmap deser (top_items n st) = Ok xs \<and> st' = below_items n st"
  by (auto simp: pop_items_eq outcome_simps)

lemma pop_items_length:
  "pop_items n deser st = Ok (xs, st') \<Longrightarrow> length xs = n \<and> length st = length st' + n"
  by (auto simp: pop_items_Ok_iff top_items_def below_items_def dest!: rmap_length)

lemma pop_items_no_panic:
  "(\<And>v. deser v \<noteq> Panic) \<Longrightarrow> pop_items n deser st \<noteq> Panic"
  by (auto simp: pop_items_eq outcome_simps rmap_no_panic)

lemma pop_raw_length:
  "pop_raw n st = Ok (xs, st') \<Longrightarrow> length xs = n \<and> length st = length st' + n"
  by (auto simp: pop_raw_eq top_items_def below_items_def split: if_splits)

lemma push_item_no_panic: "(\<And>v. ser v \<noteq> Panic) \<Longrightarrow> push_item ser x st \<noteq> Panic"
  by (auto simp: push_item_def from_serialization_def outcome_simps split: outcome.splits)

lemma push_item_Ok_iff: "push_item ser x st = Ok st' \<longleftrightarrow> (\<exists>v. ser x = Ok v \<and> st' = st @ [v])"
  by (auto simp: push_item_def from_serialization_def outcome_simps split: outcome.splits)

lemma top_items_snoc [simp]:
  "top_items (Suc 0) (st @ [x]) = [x]" "below_items (Suc 0) (st @ [x]) = st"
  "top_items (Suc (Suc 0)) (st @ [x, y]) = [x, y]" "below_items (Suc (Suc 0)) (st @ [x, y]) = st"
  by (simp_all add: top_items_def below_items_def)

lemma bool_roundtrip [simp]:
  "deserialize_bool [] = Ok False" "deserialize_bool [1] = Ok True"
  by (simp_all add: deserialize_bool_eq)

section \<open>Properties\<close>

text \<open>
  C20. The script number encoding is a canonical round trip: every \<^verbatim>\<open>i64\<close> except the least
  one has an encoding of at most eight bytes that decodes to it, and no other byte string
  decodes to it; the least \<^verbatim>\<open>i64\<close> is refused with \<^verbatim>\<open>NumberTooLong\<close>.
\<close>

theorem script_number_roundtrip:
  assumes "in_i64 n"
  shows "if n = I64_MIN then serialize_num n = Err (NumberTooLong n)
    else \<exists>v. serialize_num n = Ok v \<and> length v \<le> 8 \<and> (\<forall>v'. deserialize_num v' = Ok n \<longleftrightarrow> v' = v)"
proof (cases "n = I64_MIN")
  case False
  then have "\<bar>n\<bar> < 2 ^ (8 * 7 + 7)" using assms by (auto simp: in_i64_def I64_MIN_def)
  from serialize_sized_decodes [OF this] obtain v
    where v: "serialize_num n = Ok v" "deserialize_num v = Ok n"
    by (auto simp: serialize_num_def deserialize_num_def)
  have uniq: "v' = v" if "deserialize_num v' = Ok n" for v'
    using deserialize_sized_encodes [of 8 v' n] that v(1) by (simp add: deserialize_num_def serialize_num_def)
  have len: "length v \<le> 8"
    using v(2) by (simp add: deserialize_num_def deserialize_sized_def split: if_splits)
  from v len uniq have "serialize_num n = Ok v \<and> length v \<le> 8 \<and> (\<forall>v'. deserialize_num v' = Ok n \<longleftrightarrow> v' = v)"
    by blast
  with False show ?thesis by (simp only: if_False) blast
qed (simp add: serialize_num_min)

theorem script_number_roundtrip_witness:
  "in_i64 (- 255) \<and> serialize_num (- 255) = Ok [0xff, 0x80] \<and> deserialize_num [0xff, 0x80] = Ok (- 255)"
proof -
  have "serialize_num (- 255) = Ok [0xff, 0x80]" 
    by (simp add: serialize_num_def serialize_sized_def serialize_i64_def number_vec_pos Let_def)
  then show ?thesis
    using script_number_roundtrip [of "- 255"] by (auto simp: in_i64_def I64_MIN_def)
qed

text \<open>
  Decoding a stack element never panics: the accumulation of \<^verbatim>\<open>deserialize_i64\<close> stays in
  the \<^verbatim>\<open>i64\<close> range, and a number of at most four bytes always fits the \<^verbatim>\<open>i32\<close> it is
  converted to.
\<close>

theorem stack_element_decoding_total:
  "deserialize_num v \<noteq> Panic \<and> deserialize_i32 v \<noteq> Panic \<and> deserialize_bool v \<noteq> Panic \<and>
   (case deserialize_num v of Ok n \<Rightarrow> \<bar>n\<bar> < 2 ^ 63 | _ \<Rightarrow> True)"
  using deserialize_sized_bound [of 8 v] by (auto simp: deserialize_num_def split: outcome.split)

end
