(* ===== verification/Mldsa.thy ===== *)
theory Mldsa
  imports Script_Data
begin

text \<open>
  The ML-DSA wrapper (\<^verbatim>\<open>crypto/mldsa/src\<close>): security levels, keys and signatures as byte
  strings of the level's length, and verification. The lattice arithmetic is the third-party
  crate \<^verbatim>\<open>ml_dsa\<close>; its parsers and verifier are the fields of the record \<open>ml_dsa_lib\<close>.
\<close>

datatype mldsa_level = Level2 | Level3 | Level5

fun public_key_len :: "mldsa_level \<Rightarrow> nat" where
  "public_key_len Level2 = 1312"
| "public_key_len Level3 = 1952"
| "public_key_len Level5 = 2592"

fun secret_key_len :: "mldsa_level \<Rightarrow> nat" where
  "secret_key_len Level2 = 2560"
| "secret_key_len Level3 = 4032"
| "secret_key_len Level5 = 4896"

fun signature_len :: "mldsa_level \<Rightarrow> nat" where
  "signature_len Level2 = 2420"
| "signature_len Level3 = 3309"
| "signature_len Level5 = 4627"

definition level_from_u8 :: "u8 \<Rightarrow> mldsa_level option" where
  "level_from_u8 v =
     (if v = 2 then Some Level2 else if v = 3 then Some Level3 else if v = 5 then Some Level5 else None)"

datatype mldsa_error = InvalidPublicKeyLength nat nat | InvalidSignatureLength nat nat

record mldsa_public_key =
  pk_bytes :: "u8 list"
  pk_level :: mldsa_level

record mldsa_signature =
  sig_bytes :: "u8 list"
  sig_level :: mldsa_level

definition public_key_from_bytes :: "u8 list \<Rightarrow> mldsa_level \<Rightarrow> (mldsa_public_key, mldsa_error) outcome" where
  "public_key_from_bytes bytes level =
     (if length bytes \<noteq> public_key_len level
      then Err (InvalidPublicKeyLength (public_key_len level) (length bytes))
      else Ok \<lparr>pk_bytes = bytes, pk_level = level\<rparr>)"

definition signature_from_bytes :: "u8 list \<Rightarrow> mldsa_level \<Rightarrow> (mldsa_signature, mldsa_error) outcome" where
  "signature_from_bytes bytes level =
     (if length bytes \<noteq> signature_len level
      then Err (InvalidSignatureLength (signature_len level) (length bytes))
      else Ok \<lparr>sig_bytes = bytes, sig_level = level\<rparr>)"

text \<open>
  \<^verbatim>\<open>EncodedVerifyingKey::try_from\<close>, \<^verbatim>\<open>VerifyingKey::decode\<close>,
  \<^verbatim>\<open>EncodedSignature::try_from\<close>, \<^verbatim>\<open>Signature::decode\<close> and
  \<^verbatim>\<open>Verifier::verify\<close> at each level; decoded values are opaque numbers.
\<close>

record ml_dsa_lib =
  encoded_key :: "mldsa_level \<Rightarrow> u8 list \<Rightarrow> nat option"
  decode_key :: "mldsa_level \<Rightarrow> nat \<Rightarrow> nat"
  encoded_sig :: "mldsa_level \<Rightarrow> u8 list \<Rightarrow> nat option"
  decode_sig :: "mldsa_level \<Rightarrow> nat \<Rightarrow> nat option"
  lib_verify :: "mldsa_level \<Rightarrow> nat \<Rightarrow> u8 list \<Rightarrow> nat \<Rightarrow> bool"

definition mldsa_verify :: "ml_dsa_lib \<Rightarrow> u8 list \<Rightarrow> mldsa_signature \<Rightarrow> mldsa_public_key \<Rightarrow> bool" where
  "mldsa_verify lib message sg pk =
     (if sig_level sg \<noteq> pk_level pk then False
      else let level = pk_level pk in
        case encoded_key lib level (pk_bytes pk) of None \<Rightarrow> False
        | Some pk_encoded \<Rightarrow>
            (case encoded_sig lib level (sig_bytes sg) of None \<Rightarrow> False
             | Some sig_encoded \<Rightarrow>
                 (case decode_sig lib level sig_encoded of None \<Rightarrow> False
                  | Some s \<Rightarrow> lib_verify lib level (decode_key lib level pk_encoded) message s)))"

section \<open>Lemmas\<close>

lemma public_key_from_bytes_Ok_iff:
  "public_key_from_bytes b l = Ok k \<longleftrightarrow> length b = public_key_len l \<and> k = \<lparr>pk_bytes = b, pk_level = l\<rparr>"
  by (auto simp: public_key_from_bytes_def)

lemma signature_from_bytes_Ok_iff:
  "signature_from_bytes b l = Ok s \<longleftrightarrow> length b = signature_len l \<and> s = \<lparr>sig_bytes = b, sig_level = l\<rparr>"
  by (auto simp: signature_from_bytes_def)

lemma mldsa_parse_no_panic [simp]:
  "public_key_from_bytes b l \<noteq> Panic" "signature_from_bytes b l \<noteq> Panic"
  by (simp_all add: public_key_from_bytes_def signature_from_bytes_def)

end
