(* ===== verification/Sighash.thy ===== *)
theory Sighash
  imports Mldsa
begin

text \<open>
  Signature hashes (\<^verbatim>\<open>consensus/core/src/hashing/sighash.rs\<close>,
  \<^verbatim>\<open>sighash_type.rs\<close>, \<^verbatim>\<open>mod.rs\<close>): the sighash types, the byte stream that is
  hashed, and the values reused between the inputs of one transaction.

  A hasher is the list of bytes written to it so far. The hash functions themselves and the
  signature schemes are third-party code; they are the fields of the record \<open>crypto\<close>, which
  every definition that hashes or verifies takes as its argument. A \<^verbatim>\<open>Hash\<close> is a 256-bit
  word whose 32 bytes are read in little-endian order.
\<close>

section \<open>Third-party primitives\<close>

text \<open>
  \<^verbatim>\<open>blake2b_simd\<close> with a key and a 32-byte output, \<^verbatim>\<open>sha2\<close>, the parsers and verifiers of
  \<^verbatim>\<open>secp256k1\<close> (a parsed key or signature is an opaque number), the crate
  \<^verbatim>\<open>ml_dsa\<close>, and the random index \<^verbatim>\<open>rand\<close> yields when the signature cache is full: one draw for
  every insertion counted so far, so any sequence of draws is an instance.
\<close>

record crypto =
  blake2b :: "string \<Rightarrow> u8 list \<Rightarrow> hash"
  sha256 :: "u8 list \<Rightarrow> hash"
  xonly_from_slice :: "u8 list \<Rightarrow> secp_error + nat"
  schnorr_from_slice :: "u8 list \<Rightarrow> secp_error + nat"
  schnorr_verify :: "nat \<Rightarrow> hash \<Rightarrow> nat \<Rightarrow> bool"
  pubkey_from_slice :: "u8 list \<Rightarrow> secp_error + nat"
  ecdsa_from_compact :: "u8 list \<Rightarrow> secp_error + nat"
  ecdsa_verify :: "nat \<Rightarrow> hash \<Rightarrow> nat \<Rightarrow> bool"
  ml_dsa :: ml_dsa_lib
  random_index :: "u64 \<Rightarrow> nat \<Rightarrow> nat"

section \<open>Writing to a hasher\<close>

definition hash_bytes :: "hash \<Rightarrow> u8 list" where
  "hash_bytes h = to_le_bytes 32 (unat h)"

definition ascii :: "string \<Rightarrow> u8 list" where
  "ascii s = map of_char s"

definition write_len :: "nat \<Rightarrow> u8 list" where
  "write_len n = to_le_bytes 8 n"

definition write_u8 :: "u8 \<Rightarrow> u8 list" where
  "write_u8 x = [x]"

definition write_u16 :: "u16 \<Rightarrow> u8 list" where
  "write_u16 x = to_le_bytes 2 (unat x)"

definition write_u32 :: "u32 \<Rightarrow> u8 list" where
  "write_u32 x = to_le_bytes 4 (unat x)"

definition write_u64 :: "u64 \<Rightarrow> u8 list" where
  "write_u64 x = to_le_bytes 8 (unat x)"

definition write_var_bytes :: "u8 list \<Rightarrow> u8 list" where
  "write_var_bytes bs = write_len (length bs) @ bs"

definition ZERO_HASH :: hash where
  "ZERO_HASH = 0"

definition TransactionSigningHash :: "crypto \<Rightarrow> u8 list \<Rightarrow> hash" where
  "TransactionSigningHash cr = blake2b cr ''TransactionSigningHash''"

definition TransactionSigningHashECDSA :: "crypto \<Rightarrow> u8 list \<Rightarrow> hash" where
  "TransactionSigningHashECDSA cr data =
     sha256 cr (hash_bytes (sha256 cr (ascii ''TransactionSigningHashECDSA'')) @ data)"

section \<open>Sighash types\<close>

definition SIG_HASH_ALL :: u8 where "SIG_HASH_ALL = 0b00000001"
definition SIG_HASH_NONE :: u8 where "SIG_HASH_NONE = 0b00000010"
definition SIG_HASH_SINGLE :: u8 where "SIG_HASH_SINGLE = 0b00000100"
definition SIG_HASH_ANY_ONE_CAN_PAY :: u8 where "SIG_HASH_ANY_ONE_CAN_PAY = 0b10000000"
definition SIG_HASH_MASK :: u8 where "SIG_HASH_MASK = 0b00000111"

definition ALLOWED_SIG_HASH_TYPES_VALUES :: "u8 list" where
  "ALLOWED_SIG_HASH_TYPES_VALUES =
     [SIG_HASH_ALL, SIG_HASH_NONE, SIG_HASH_SINGLE,
      SIG_HASH_ALL OR SIG_HASH_ANY_ONE_CAN_PAY, SIG_HASH_NONE OR SIG_HASH_ANY_ONE_CAN_PAY,
      SIG_HASH_SINGLE OR SIG_HASH_ANY_ONE_CAN_PAY]"

definition is_sighash_all :: "u8 \<Rightarrow> bool" where
  "is_sighash_all t = (t AND SIG_HASH_MASK = SIG_HASH_ALL)"

definition is_sighash_none :: "u8 \<Rightarrow> bool" where
  "is_sighash_none t = (t AND SIG_HASH_MASK = SIG_HASH_NONE)"

definition is_sighash_single :: "u8 \<Rightarrow> bool" where
  "is_sighash_single t = (t AND SIG_HASH_MASK = SIG_HASH_SINGLE)"

definition is_sighash_anyone_can_pay :: "u8 \<Rightarrow> bool" where
  "is_sighash_anyone_can_pay t = (t AND SIG_HASH_ANY_ONE_CAN_PAY = SIG_HASH_ANY_ONE_CAN_PAY)"

definition sighash_from_u8 :: "u8 \<Rightarrow> u8 option" where
  "sighash_from_u8 v = (if v \<in> set ALLOWED_SIG_HASH_TYPES_VALUES then Some v else None)"

section \<open>Values reused between inputs\<close>

text \<open>Each getter returns the stored hash, or computes and stores it.\<close>

record sighash_reused_values =
  r_previous_outputs_hash :: "hash option"
  r_sequences_hash :: "hash option"
  r_sig_op_counts_hash :: "hash option"
  r_outputs_hash :: "hash option"
  r_payload_hash :: "hash option"

definition new_reused_values :: sighash_reused_values where
  "new_reused_values = \<lparr>r_previous_outputs_hash = None, r_sequences_hash = None,
     r_sig_op_counts_hash = None, r_outputs_hash = None, r_payload_hash = None\<rparr>"

definition reused_previous_outputs_hash where
  "reused_previous_outputs_hash rv h =
     (case r_previous_outputs_hash rv of Some v \<Rightarrow> (v, rv)
      | None \<Rightarrow> (h, rv\<lparr>r_previous_outputs_hash := Some h\<rparr>))"

definition reused_sequences_hash where
  "reused_sequences_hash rv h =
     (case r_sequences_hash rv of Some v \<Rightarrow> (v, rv)
      | None \<Rightarrow> (h, rv\<lparr>r_sequences_hash := Some h\<rparr>))"

definition reused_sig_op_counts_hash where
  "reused_sig_op_counts_hash rv h =
     (case r_sig_op_counts_hash rv of Some v \<Rightarrow> (v, rv)
      | None \<Rightarrow> (h, rv\<lparr>r_sig_op_counts_hash := Some h\<rparr>))"

definition reused_outputs_hash where
  "reused_outputs_hash rv h =
     (case r_outputs_hash rv of Some v \<Rightarrow> (v, rv)
      | None \<Rightarrow> (h, rv\<lparr>r_outputs_hash := Some h\<rparr>))"

definition reused_payload_hash where
  "reused_payload_hash rv h =
     (case r_payload_hash rv of Some v \<Rightarrow> (v, rv)
      | None \<Rightarrow> (h, rv\<lparr>r_payload_hash := Some h\<rparr>))"

section \<open>The hashed fields\<close>

type_synonym rv = sighash_reused_values

definition hash_outpoint :: "transaction_outpoint \<Rightarrow> u8 list" where
  "hash_outpoint op = hash_bytes (transaction_id op) @ write_u32 (index op)"

definition hash_script_public_key :: "script_public_key \<Rightarrow> u8 list" where
  "hash_script_public_key spk = write_u16 (spk_version spk) @ write_var_bytes (script spk)"

definition hash_output :: "transaction_output \<Rightarrow> u8 list" where
  "hash_output out = write_u64 (output_value out) @ hash_script_public_key (output_spk out)"

definition previous_outputs_hash :: "crypto \<Rightarrow> transaction \<Rightarrow> u8 \<Rightarrow> rv \<Rightarrow> hash \<times> rv" where
  "previous_outputs_hash cr tx ht rv =
     (if is_sighash_anyone_can_pay ht then (ZERO_HASH, rv)
      else reused_previous_outputs_hash rv
        (TransactionSigningHash cr
          (concat (map (\<lambda>i. hash_bytes (transaction_id (previous_outpoint i)) @
                             write_u32 (index (previous_outpoint i))) (inputs tx)))))"

definition sequences_hash :: "crypto \<Rightarrow> transaction \<Rightarrow> u8 \<Rightarrow> rv \<Rightarrow> hash \<times> rv" where
  "sequences_hash cr tx ht rv =
     (if is_sighash_single ht \<or> is_sighash_anyone_can_pay ht \<or> is_sighash_none ht then (ZERO_HASH, rv)
      else reused_sequences_hash rv
        (TransactionSigningHash cr (concat (map (\<lambda>i. write_u64 (sequence_no i)) (inputs tx)))))"

definition sig_op_counts_hash :: "crypto \<Rightarrow> transaction \<Rightarrow> u8 \<Rightarrow> rv \<Rightarrow> hash \<times> rv" where
  "sig_op_counts_hash cr tx ht rv =
     (if is_sighash_anyone_can_pay ht then (ZERO_HASH, rv)
      else reused_sig_op_counts_hash rv
        (TransactionSigningHash cr (concat (map (\<lambda>i. write_u8 (sig_op_count i)) (inputs tx)))))"

definition payload_hash :: "crypto \<Rightarrow> transaction \<Rightarrow> rv \<Rightarrow> hash \<times> rv" where
  "payload_hash cr tx rv =
     (if is_native (subnetwork_id tx) \<and> payload tx = [] then (ZERO_HASH, rv)
      else reused_payload_hash rv (TransactionSigningHash cr (write_var_bytes (payload tx))))"

definition outputs_hash ::
    "crypto \<Rightarrow> transaction \<Rightarrow> u8 \<Rightarrow> rv \<Rightarrow> nat \<Rightarrow> (hash \<times> rv, 'e) outcome" where
  "outputs_hash cr tx ht rv input_index =
     (if is_sighash_none ht then Ok (ZERO_HASH, rv)
      else if is_sighash_single ht
      then (if input_index \<ge> length (outputs tx) then Ok (ZERO_HASH, rv)
            else rbind (index_at (outputs tx) input_index) (\<lambda>out.
                 Ok (TransactionSigningHash cr (hash_output out), rv)))
      else Ok (reused_outputs_hash rv
        (TransactionSigningHash cr (concat (map hash_output (outputs tx))))))"

definition calc_schnorr_signature_hash ::
    "crypto \<Rightarrow> populated_tx \<Rightarrow> nat \<Rightarrow> u8 \<Rightarrow> rv \<Rightarrow> (hash \<times> rv, script_error) outcome" where
  "calc_schnorr_signature_hash cr vtx input_index ht rv =
     rbind (populated_input vtx input_index) (\<lambda>(input, entry).
       let tx = ptx vtx;
           (h1, rv1) = previous_outputs_hash cr tx ht rv;
           (h2, rv2) = sequences_hash cr tx ht rv1;
           (h3, rv3) = sig_op_counts_hash cr tx ht rv2
       in rbind (outputs_hash cr tx ht rv3 input_index) (\<lambda>(h4, rv4).
       let (h5, rv5) = payload_hash cr tx rv4
       in Ok (TransactionSigningHash cr
             (write_u16 (version tx) @ hash_bytes h1 @ hash_bytes h2 @ hash_bytes h3 @
              hash_outpoint (previous_outpoint input) @ hash_script_public_key (entry_spk entry) @
              write_u64 (amount entry) @ write_u64 (sequence_no input) @ write_u8 (sig_op_count input) @
              hash_bytes h4 @ write_u64 (lock_time tx) @ subnetwork_id tx @ write_u64 (gas tx) @
              hash_bytes h5 @ write_u8 ht), rv5)))"

definition calc_ecdsa_signature_hash ::
    "crypto \<Rightarrow> populated_tx \<Rightarrow> nat \<Rightarrow> u8 \<Rightarrow> rv \<Rightarrow> (hash \<times> rv, script_error) outcome" where
  "calc_ecdsa_signature_hash cr vtx input_index ht rv =
     rbind (calc_schnorr_signature_hash cr vtx input_index ht rv) (\<lambda>(h, rv').
       Ok (TransactionSigningHashECDSA cr (hash_bytes h), rv'))"

section \<open>Specification\<close>

text \<open>The byte streams the five reusable hashes are taken of.\<close>

definition prevouts_preimage :: "transaction \<Rightarrow> u8 list" where
  "prevouts_preimage tx = concat (map (\<lambda>i. hash_outpoint (previous_outpoint i)) (inputs tx))"

definition sequences_preimage :: "transaction \<Rightarrow> u8 list" where
  "sequences_preimage tx = concat (map (\<lambda>i. write_u64 (sequence_no i)) (inputs tx))"

definition sig_op_counts_preimage :: "transaction \<Rightarrow> u8 list" where
  "sig_op_counts_preimage tx = concat (map (\<lambda>i. write_u8 (sig_op_count i)) (inputs tx))"

definition outputs_preimage :: "transaction \<Rightarrow> u8 list" where
  "outputs_preimage tx = concat (map hash_output (outputs tx))"

text \<open>A store of reused values is sound for a transaction when it holds only its hashes.\<close>

definition reused_sound :: "crypto \<Rightarrow> transaction \<Rightarrow> rv \<Rightarrow> bool" where
  "reused_sound cr tx rv =
     (r_previous_outputs_hash rv \<in> {None, Some (TransactionSigningHash cr (prevouts_preimage tx))} \<and>
      r_sequences_hash rv \<in> {None, Some (TransactionSigningHash cr (sequences_preimage tx))} \<and>
      r_sig_op_counts_hash rv \<in> {None, Some (TransactionSigningHash cr (sig_op_counts_preimage tx))} \<and>
      r_outputs_hash rv \<in> {None, Some (TransactionSigningHash cr (outputs_preimage tx))} \<and>
      r_payload_hash rv \<in> {None, Some (TransactionSigningHash cr (write_var_bytes (payload tx)))})"

definition payload_field :: "crypto \<Rightarrow> transaction \<Rightarrow> hash" where
  "payload_field cr tx =
     (if is_native (subnetwork_id tx) \<and> payload tx = [] then ZERO_HASH
      else TransactionSigningHash cr (write_var_bytes (payload tx)))"

text \<open>The hashed stream of one input, with every field hash computed afresh.\<close>

definition sighash_preimage :: "crypto \<Rightarrow> populated_tx \<Rightarrow> nat \<Rightarrow> u8 \<Rightarrow> u8 list" where
  "sighash_preimage cr p i ht =
     (let tx = ptx p; inp = inputs tx ! i; entry = entries p ! i; H = TransactionSigningHash cr;
          any = is_sighash_anyone_can_pay ht; none = is_sighash_none ht; single = is_sighash_single ht
      in write_u16 (version tx) @
         hash_bytes (if any then ZERO_HASH else H (prevouts_preimage tx)) @
         hash_bytes (if single \<or> any \<or> none then ZERO_HASH else H (sequences_preimage tx)) @
         hash_bytes (if any then ZERO_HASH else H (sig_op_counts_preimage tx)) @
         hash_outpoint (previous_outpoint inp) @ hash_script_public_key (entry_spk entry) @
         write_u64 (amount entry) @ write_u64 (sequence_no inp) @ write_u8 (sig_op_count inp) @
         hash_bytes (if none then ZERO_HASH
                     else if single then (if length (outputs tx) \<le> i then ZERO_HASH
                                          else H (hash_output (outputs tx ! i)))
                     else H (outputs_preimage tx)) @
         write_u64 (lock_time tx) @ subnetwork_id tx @ write_u64 (gas tx) @
         hash_bytes (payload_field cr tx) @
         write_u8 ht)"

definition sighash :: "crypto \<Rightarrow> populated_tx \<Rightarrow> nat \<Rightarrow> u8 \<Rightarrow> hash" where
  "sighash cr p i ht = TransactionSigningHash cr (sighash_preimage cr p i ht)"

section \<open>Lemmas\<close>

lemma prevouts_preimage_alt:
  "concat (map (\<lambda>i. hash_bytes (transaction_id (previous_outpoint i)) @
                     write_u32 (index (previous_outpoint i))) (inputs tx)) = prevouts_preimage tx"
  by (simp add: prevouts_preimage_def hash_outpoint_def)

text \<open>Each field hash is the fresh one, whatever a sound store holds, and the store stays sound.\<close>

lemma previous_outputs_hash_sound:
  assumes "reused_sound cr tx rv" and "previous_outputs_hash cr tx ht rv = (h, rv')"
  shows "h = (if is_sighash_anyone_can_pay ht then ZERO_HASH
              else TransactionSigningHash cr (prevouts_preimage tx)) \<and> reused_sound cr tx rv'"
  using assms
  by (auto simp: previous_outputs_hash_def reused_previous_outputs_hash_def prevouts_preimage_alt
      reused_sound_def split: if_splits)

lemma sequences_hash_sound:
  assumes "reused_sound cr tx rv" and "sequences_hash cr tx ht rv = (h, rv')"
  shows "h = (if is_sighash_single ht \<or> is_sighash_anyone_can_pay ht \<or> is_sighash_none ht then ZERO_HASH
              else TransactionSigningHash cr (sequences_preimage tx)) \<and> reused_sound cr tx rv'"
  using assms
  by (auto simp: sequences_hash_def reused_sequences_hash_def sequences_preimage_def
      reused_sound_def split: if_splits)

lemma sig_op_counts_hash_sound:
  assumes "reused_sound cr tx rv" and "sig_op_counts_hash cr tx ht rv = (h, rv')"
  shows "h = (if is_sighash_anyone_can_pay ht then ZERO_HASH
              else TransactionSigningHash cr (sig_op_counts_preimage tx)) \<and> reused_sound cr tx rv'"
  using assms
  by (auto simp: sig_op_counts_hash_def reused_sig_op_counts_hash_def sig_op_counts_preimage_def
      reused_sound_def split: if_splits)

lemma outputs_hash_sound:
  assumes "reused_sound cr tx rv" and "outputs_hash cr tx ht rv i = Ok (h, rv')"
  shows "h = (if is_sighash_none ht then ZERO_HASH
              else if is_sighash_single ht then (if length (outputs tx) \<le> i then ZERO_HASH
                else TransactionSigningHash cr (hash_output (outputs tx ! i)))
              else TransactionSigningHash cr (outputs_preimage tx)) \<and> reused_sound cr tx rv'"
  using assms
  by (auto simp: outputs_hash_def reused_outputs_hash_def outputs_preimage_def
      reused_sound_def split: if_splits)

lemma outputs_hash_total: "\<exists>h rv'. outputs_hash cr tx ht rv i = Ok (h, rv')"
  by (cases "reused_outputs_hash rv (TransactionSigningHash cr (concat (map hash_output (outputs tx))))")
    (simp add: outputs_hash_def not_le)

lemma payload_hash_sound:
  assumes "reused_sound cr tx rv" and "payload_hash cr tx rv = (h, rv')"
  shows "h = payload_field cr tx \<and> reused_sound cr tx rv'"
  using assms
  by (auto simp: payload_field_def payload_hash_def reused_payload_hash_def reused_sound_def split: if_splits)

lemma calc_schnorr_signature_hash_eq:
  assumes "reused_sound cr (ptx p) rv" and "i < length (inputs (ptx p))" and "i < length (entries p)"
  shows "\<exists>rv'. calc_schnorr_signature_hash cr p i ht rv = Ok (sighash cr p i ht, rv') \<and>
    reused_sound cr (ptx p) rv'"
proof -
  let ?tx = "ptx p"
  obtain h1 r1 where e1: "previous_outputs_hash cr ?tx ht rv = (h1, r1)" by fastforce
  obtain h2 r2 where e2: "sequences_hash cr ?tx ht r1 = (h2, r2)" by fastforce
  obtain h3 r3 where e3: "sig_op_counts_hash cr ?tx ht r2 = (h3, r3)" by fastforce
  obtain h4 r4 where e4: "outputs_hash cr ?tx ht r3 i = (Ok (h4, r4) :: (_, script_error) outcome)"
    using outputs_hash_total by blast
  obtain h5 r5 where e5: "payload_hash cr ?tx r4 = (h5, r5)" by fastforce
  note s1 = previous_outputs_hash_sound [OF assms(1) e1]
  note s2 = sequences_hash_sound [OF conjunct2 [OF s1] e2]
  note s3 = sig_op_counts_hash_sound [OF conjunct2 [OF s2] e3]
  note s4 = outputs_hash_sound [OF conjunct2 [OF s3] e4]
  note s5 = payload_hash_sound [OF conjunct2 [OF s4] e5]
  have "calc_schnorr_signature_hash cr p i ht rv = Ok (sighash cr p i ht, r5)"
    using assms(2,3) s1 s2 s3 s4 s5
    by (simp add: calc_schnorr_signature_hash_def populated_input_def e1 e2 e3 e4 e5 Let_def
        sighash_def sighash_preimage_def)
  with s5 show ?thesis by blast
qed

lemma field_lengths [simp]:
  "length (hash_bytes h) = 32" "length (write_u8 a) = 1" "length (write_u16 b) = 2"
  "length (write_u32 c) = 4" "length (write_u64 d) = 8" "length (write_len n) = 8"
  "length (hash_outpoint op) = 36"
  by (simp_all add: hash_bytes_def write_u8_def write_u16_def write_u32_def write_u64_def
      write_len_def hash_outpoint_def)

lemma field_inj [simp]:
  "hash_bytes h = hash_bytes h' \<longleftrightarrow> h = h'"
  "write_u8 a = write_u8 a' \<longleftrightarrow> a = a'"
  "write_u16 b = write_u16 b' \<longleftrightarrow> b = b'"
  "write_u32 c = write_u32 c' \<longleftrightarrow> c = c'"
  "write_u64 d = write_u64 d' \<longleftrightarrow> d = d'"
proof -
  show "hash_bytes h = hash_bytes h' \<longleftrightarrow> h = h'"
    using unat_bound [of h] unat_bound [of h']
    by (simp add: hash_bytes_def to_le_bytes_inj word_unat_eq_iff)
  show "write_u8 a = write_u8 a' \<longleftrightarrow> a = a'" by (simp add: write_u8_def)
  show "write_u16 b = write_u16 b' \<longleftrightarrow> b = b'"
    using unat_bound [of b] unat_bound [of b'] by (simp add: write_u16_def to_le_bytes_inj word_unat_eq_iff)
  show "write_u32 c = write_u32 c' \<longleftrightarrow> c = c'"
    using unat_bound [of c] unat_bound [of c'] by (simp add: write_u32_def to_le_bytes_inj word_unat_eq_iff)
  show "write_u64 d = write_u64 d' \<longleftrightarrow> d = d'"
    using unat_bound [of d] unat_bound [of d'] by (simp add: write_u64_def to_le_bytes_inj word_unat_eq_iff)
qed

lemma hash_outpoint_inj [simp]: "hash_outpoint a = hash_outpoint b \<longleftrightarrow> a = b"
  by (auto simp: hash_outpoint_def)

lemma write_var_bytes_append:
  assumes "length a < 2 ^ 64" and "length b < 2 ^ 64"
  shows "write_var_bytes a @ xs = write_var_bytes b @ ys \<longleftrightarrow> a = b \<and> xs = ys"
proof
  assume eq: "write_var_bytes a @ xs = write_var_bytes b @ ys"
  then have "write_len (length a) = write_len (length b)" and rest: "a @ xs = b @ ys"
    by (simp_all add: write_var_bytes_def)
  then have "length a = length b" using assms by (simp add: write_len_def to_le_bytes_inj)
  with rest show "a = b \<and> xs = ys" by simp
qed simp

text \<open>A transaction whose byte fields fit their length prefixes, as every vector in memory does.\<close>

definition tx_encodable :: "populated_tx \<Rightarrow> bool" where
  "tx_encodable p =
     (length (subnetwork_id (ptx p)) = SUBNETWORK_ID_SIZE \<and> length (payload (ptx p)) < 2 ^ 64 \<and>
      (\<forall>out\<in>set (outputs (ptx p)). length (script (output_spk out)) < 2 ^ 64) \<and>
      (\<forall>e\<in>set (entries p). length (script (entry_spk e)) < 2 ^ 64))"

lemma hash_spk_append:
  assumes "length (script a) < 2 ^ 64" and "length (script b) < 2 ^ 64"
  shows "hash_script_public_key a @ xs = hash_script_public_key b @ ys \<longleftrightarrow> a = b \<and> xs = ys"
  using write_var_bytes_append [OF assms]
  by (auto simp: hash_script_public_key_def script_public_key.equality)

lemma hash_output_append:
  assumes "length (script (output_spk a)) < 2 ^ 64" and "length (script (output_spk b)) < 2 ^ 64"
  shows "hash_output a @ xs = hash_output b @ ys \<longleftrightarrow> a = b \<and> xs = ys"
  using hash_spk_append [OF assms] by (auto simp: hash_output_def transaction_output.equality)

text \<open>Concatenations of prefix-free, non-empty encodings determine their parts.\<close>

lemma concat_map_inj:
  assumes "concat (map f as) = concat (map f bs)"
    and "\<And>a b xs ys. a \<in> set as \<Longrightarrow> b \<in> set bs \<Longrightarrow> f a @ xs = f b @ ys \<Longrightarrow> g a = g b \<and> xs = ys"
    and "\<And>a. f a \<noteq> []"
  shows "map g as = map g bs"
  using assms(1,2)
proof (induction as arbitrary: bs)
  case Nil
  then show ?case using assms(3) by (cases bs) auto
next
  case (Cons a as)
  then obtain b cs where bs: "bs = b # cs" using assms(3) by (cases bs) auto
  have "f a @ concat (map f as) = f b @ concat (map f cs)" using Cons.prems(1) bs by simp
  with Cons.prems(2) [of a b] bs have "g a = g b" "concat (map f as) = concat (map f cs)" by auto
  moreover from this(2) have "map g as = map g cs" using Cons.prems(2) bs by (intro Cons.IH) auto
  ultimately show ?case using bs by simp
qed

lemma concat_map_append_inj:
  assumes "\<And>a b xs ys. a \<in> set as \<Longrightarrow> b \<in> set bs \<Longrightarrow> f a @ xs = f b @ ys \<Longrightarrow> a = b \<and> xs = ys"
  shows "length as = length bs \<Longrightarrow> concat (map f as) @ xs = concat (map f bs) @ ys \<Longrightarrow> as = bs \<and> xs = ys"
  using assms
proof (induction as bs rule: list_induct2')
  case (4 a as b bs)
  then have "a = b" "concat (map f as) @ xs = concat (map f bs) @ ys" by (simp_all) (metis append.assoc list.set_intros(1))+
  moreover have "as = bs \<and> xs = ys" by (rule 4(1)) (use 4 calculation in auto)
  ultimately show ?case by simp
qed auto

lemma field_non_empty [simp]: "hash_output out \<noteq> []" "hash_outpoint op \<noteq> []" "write_u64 d \<noteq> []" "write_u8 a \<noteq> []"
  by (simp_all add: hash_output_def flip: length_0_conv)

lemma prevouts_inj:
  "prevouts_preimage a = prevouts_preimage b \<Longrightarrow>
   map previous_outpoint (inputs a) = map previous_outpoint (inputs b)"
  unfolding prevouts_preimage_def by (erule concat_map_inj) auto

lemma sequences_inj:
  "sequences_preimage a = sequences_preimage b \<Longrightarrow>
   map sequence_no (inputs a) = map sequence_no (inputs b)"
  unfolding sequences_preimage_def by (erule concat_map_inj) auto

lemma sig_op_counts_inj:
  "sig_op_counts_preimage a = sig_op_counts_preimage b \<Longrightarrow>
   map sig_op_count (inputs a) = map sig_op_count (inputs b)"
  unfolding sig_op_counts_preimage_def by (erule concat_map_inj) auto

lemma outputs_inj:
  assumes "outputs_preimage (ptx p) = outputs_preimage (ptx q)" and "tx_encodable p" and "tx_encodable q"
  shows "outputs (ptx p) = outputs (ptx q)"
proof -
  have "map id (outputs (ptx p)) = map id (outputs (ptx q))"
    using assms(1) unfolding outputs_preimage_def
    by (rule concat_map_inj) (use assms(2,3) in \<open>auto simp: tx_encodable_def hash_output_append\<close>)
  then show ?thesis by simp
qed

text \<open>
  The streams two signature computations compare, and collision resistance of the hash on
  exactly these pairs.
\<close>

definition no_collision :: "crypto \<Rightarrow> populated_tx \<Rightarrow> nat \<Rightarrow> populated_tx \<Rightarrow> nat \<Rightarrow> bool" where
  "no_collision cr p i q j =
     (list_all (\<lambda>(x, y). TransactionSigningHash cr x = TransactionSigningHash cr y \<longrightarrow> x = y)
        [(sighash_preimage cr p i SIG_HASH_ALL, sighash_preimage cr q j SIG_HASH_ALL),
         (prevouts_preimage (ptx p), prevouts_preimage (ptx q)),
         (sequences_preimage (ptx p), sequences_preimage (ptx q)),
         (sig_op_counts_preimage (ptx p), sig_op_counts_preimage (ptx q)),
         (outputs_preimage (ptx p), outputs_preimage (ptx q)),
         (write_var_bytes (payload (ptx p)), write_var_bytes (payload (ptx q)))] \<and>
      TransactionSigningHash cr (write_var_bytes (payload (ptx p))) \<noteq> ZERO_HASH \<and>
      TransactionSigningHash cr (write_var_bytes (payload (ptx q))) \<noteq> ZERO_HASH)"

text \<open>What a signature of type \<^verbatim>\<open>SIG_HASH_ALL\<close> on input \<open>i\<close> commits to.\<close>

definition signed_fields where
  "signed_fields p i =
     ((version (ptx p), map previous_outpoint (inputs (ptx p)), map sequence_no (inputs (ptx p)),
       map sig_op_count (inputs (ptx p)), outputs (ptx p)),
      (previous_outpoint (inputs (ptx p) ! i), entry_spk (entries p ! i), amount (entries p ! i)),
      (lock_time (ptx p), subnetwork_id (ptx p), gas (ptx p), payload (ptx p)))"

lemma sighash_all_type [simp]:
  "is_sighash_anyone_can_pay SIG_HASH_ALL = False" "is_sighash_none SIG_HASH_ALL = False"
  "is_sighash_single SIG_HASH_ALL = False"
  by (simp_all add: is_sighash_anyone_can_pay_def is_sighash_none_def is_sighash_single_def
      SIG_HASH_ALL_def SIG_HASH_NONE_def SIG_HASH_SINGLE_def SIG_HASH_MASK_def
      SIG_HASH_ANY_ONE_CAN_PAY_def)

lemma write_var_bytes_inj:
  "length a < 2 ^ 64 \<Longrightarrow> length b < 2 ^ 64 \<Longrightarrow> write_var_bytes a = write_var_bytes b \<longleftrightarrow> a = b"
  using write_var_bytes_append [of a b "[]" "[]"] by simp

lemma sighash_preimage_inj:
  assumes "sighash_preimage cr p i SIG_HASH_ALL = sighash_preimage cr q j SIG_HASH_ALL"
    and "tx_encodable p" and "tx_encodable q" and "i < length (entries p)" and "j < length (entries q)"
  defines "H \<equiv> TransactionSigningHash cr"
  shows "version (ptx p) = version (ptx q) \<and>
    H (prevouts_preimage (ptx p)) = H (prevouts_preimage (ptx q)) \<and>
    H (sequences_preimage (ptx p)) = H (sequences_preimage (ptx q)) \<and>
    H (sig_op_counts_preimage (ptx p)) = H (sig_op_counts_preimage (ptx q)) \<and>
    H (outputs_preimage (ptx p)) = H (outputs_preimage (ptx q)) \<and>
    previous_outpoint (inputs (ptx p) ! i) = previous_outpoint (inputs (ptx q) ! j) \<and>
    entry_spk (entries p ! i) = entry_spk (entries q ! j) \<and>
    amount (entries p ! i) = amount (entries q ! j) \<and>
    lock_time (ptx p) = lock_time (ptx q) \<and> subnetwork_id (ptx p) = subnetwork_id (ptx q) \<and>
    gas (ptx p) = gas (ptx q) \<and>
    payload_field cr (ptx p) = payload_field cr (ptx q)"
proof -
  have "length (script (entry_spk (entries p ! i))) < 2 ^ 64"
    "length (script (entry_spk (entries q ! j))) < 2 ^ 64"
    and sub: "length (subnetwork_id (ptx p)) = length (subnetwork_id (ptx q))"
    using assms(2-5) by (auto simp: tx_encodable_def)
  note spk = hash_spk_append [OF this(1,2)]
  show ?thesis
    using assms(1) by (simp add: sighash_preimage_def Let_def spk sub H_def)
qed

lemma sighash_determines_fields:
  assumes "sighash cr p i SIG_HASH_ALL = sighash cr q j SIG_HASH_ALL" and "no_collision cr p i q j"
    and "tx_encodable p" and "tx_encodable q" and "i < length (entries p)" and "j < length (entries q)"
  shows "signed_fields p i = signed_fields q j"
proof -
  define H where "H = TransactionSigningHash cr"
  have "sighash_preimage cr p i SIG_HASH_ALL = sighash_preimage cr q j SIG_HASH_ALL"
    using assms(1,2) by (simp add: sighash_def no_collision_def)
  note fields = sighash_preimage_inj [OF this assms(3-6)]
  have eqs: "prevouts_preimage (ptx p) = prevouts_preimage (ptx q)"
    "sequences_preimage (ptx p) = sequences_preimage (ptx q)"
    "sig_op_counts_preimage (ptx p) = sig_op_counts_preimage (ptx q)"
    "outputs_preimage (ptx p) = outputs_preimage (ptx q)"
    using fields assms(2) by (simp_all add: no_collision_def)
  note lists = prevouts_inj [OF eqs(1)] sequences_inj [OF eqs(2)] sig_op_counts_inj [OF eqs(3)]
    outputs_inj [OF eqs(4) assms(3,4)]
  have "payload (ptx p) = payload (ptx q)"
  proof -
    have sub: "subnetwork_id (ptx p) = subnetwork_id (ptx q)" using fields by blast
    have len: "length (payload (ptx p)) < 2 ^ 64" "length (payload (ptx q)) < 2 ^ 64"
      using assms(3,4) unfolding tx_encodable_def by blast+
    have nc: "H (write_var_bytes (payload (ptx p))) = H (write_var_bytes (payload (ptx q))) \<Longrightarrow>
        write_var_bytes (payload (ptx p)) = write_var_bytes (payload (ptx q))"
      "H (write_var_bytes (payload (ptx p))) \<noteq> ZERO_HASH" "H (write_var_bytes (payload (ptx q))) \<noteq> ZERO_HASH"
      using assms(2) unfolding no_collision_def H_def by simp_all
    have "payload_field cr (ptx p) = payload_field cr (ptx q)" using fields by blast
    with nc sub show ?thesis
      unfolding write_var_bytes_inj [OF len] payload_field_def H_def by (auto split: if_splits)
  qed
  with lists fields show ?thesis unfolding signed_fields_def by (simp only: Pair_inject)
qed

text \<open>A signature hash that was returned is the fresh one, of an input that exists.\<close>

lemma calc_schnorr_signature_hash_Ok:
  assumes "calc_schnorr_signature_hash cr p i ht rv = Ok (h, rv')" and "reused_sound cr (ptx p) rv"
  shows "h = sighash cr p i ht \<and> i < length (inputs (ptx p)) \<and> i < length (entries p)"
proof -
  have "i < length (inputs (ptx p))" "i < length (entries p)"
    using assms(1) by (auto simp: calc_schnorr_signature_hash_def rbind_Ok_iff populated_input_def split: if_splits)
  with calc_schnorr_signature_hash_eq [OF assms(2) this, of ht] assms(1) show ?thesis by auto
qed

section \<open>Properties\<close>

text \<open>
  C19. Reusing hashes between the inputs of a transaction changes no signature hash: from any
  store that holds only hashes of this transaction, \<^verbatim>\<open>calc_schnorr_signature_hash\<close> returns
  the hash computed afresh and leaves such a store; it does not panic on an input that has
  its entry.
\<close>

theorem reused_sighash_equals_fresh:
  assumes "reused_sound cr (ptx p) rv" and "i < length (inputs (ptx p))" and "i < length (entries p)"
  shows "\<exists>rv'. calc_schnorr_signature_hash cr p i ht rv = Ok (sighash cr p i ht, rv') \<and>
    reused_sound cr (ptx p) rv'"
  using assms by (rule calc_schnorr_signature_hash_eq)

text \<open>
  C18. A \<^verbatim>\<open>SIG_HASH_ALL\<close> signature commits to the transaction: when
  \<^verbatim>\<open>calc_schnorr_signature_hash\<close> returns the same hash for an input of each of two
  transactions, from stores that hold only hashes of their transaction, and the hash function
  has no collision between the streams that are compared, then the transactions have the same
  version, outpoints, sequences, sig-op counts, outputs, lock time, subnetwork, gas and
  payload, and the inputs spend an output of the same script and amount.
\<close>

theorem sighash_all_commits:
  assumes "calc_schnorr_signature_hash cr p i SIG_HASH_ALL rv = Ok (h, rv')"
    and "calc_schnorr_signature_hash cr q j SIG_HASH_ALL rw = Ok (h, rw')"
    and "reused_sound cr (ptx p) rv" and "reused_sound cr (ptx q) rw"
    and "no_collision cr p i q j" and "tx_encodable p" and "tx_encodable q"
  shows "signed_fields p i = signed_fields q j"
proof -
  note p = calc_schnorr_signature_hash_Ok [OF assms(1,3)]
  note q = calc_schnorr_signature_hash_Ok [OF assms(2,4)]
  show ?thesis by (rule sighash_determines_fields [OF _ assms(5-7)]) (use p q in simp_all)
qed

section \<open>Example data and witnesses\<close>

text \<open>Primitives that parse every string and accept a signature equal to its key.\<close>

definition ex_crypto :: crypto where
  "ex_crypto = \<lparr>blake2b = (\<lambda>key data. 1), sha256 = (\<lambda>data. 2),
     xonly_from_slice = (\<lambda>b. Inr (le_value b)), schnorr_from_slice = (\<lambda>b. Inr (le_value b)),
     schnorr_verify = (\<lambda>s m k. s = k),
     pubkey_from_slice = (\<lambda>b. Inr (le_value b)), ecdsa_from_compact = (\<lambda>b. Inr (le_value b)),
     ecdsa_verify = (\<lambda>s m k. s = k),
     ml_dsa = \<lparr>encoded_key = (\<lambda>l b. Some (length b)), decode_key = (\<lambda>l n. n),
       encoded_sig = (\<lambda>l b. Some (length b)), decode_sig = (\<lambda>l n. Some n),
       lib_verify = (\<lambda>l k m s. True)\<rparr>,
     random_index = (\<lambda>draw n. 0)\<rparr>"

definition ex_spk :: script_public_key where
  "ex_spk = \<lparr>spk_version = 0, script = [0x51]\<rparr>"

definition ex_populated :: "u8 list \<Rightarrow> populated_tx" where
  "ex_populated sig = \<lparr>ptx = \<lparr>version = 0,
       inputs = [\<lparr>previous_outpoint = \<lparr>transaction_id = 7, index = 0\<rparr>, signature_script = sig,
                  sequence_no = 0, sig_op_count = 1\<rparr>],
       outputs = [\<lparr>output_value = 90, output_spk = ex_spk\<rparr>],
       lock_time = 0, subnetwork_id = SUBNETWORK_ID_NATIVE, gas = 0, payload = [], mass = 0, tx_id = 9\<rparr>,
     entries = [\<lparr>amount = 100, entry_spk = ex_spk, block_daa_score = 5, entry_is_coinbase = False\<rparr>]\<rparr>"

lemma ex_encodable: "tx_encodable (ex_populated sig)"
  by (simp add: tx_encodable_def ex_populated_def ex_spk_def SUBNETWORK_ID_NATIVE_def from_byte_def)

lemma ex_preimage: "sighash_preimage cr (ex_populated sig) 0 ht = sighash_preimage cr (ex_populated []) 0 ht"
  by (simp add: sighash_preimage_def Let_def ex_populated_def prevouts_preimage_def sequences_preimage_def
      sig_op_counts_preimage_def outputs_preimage_def payload_field_def)

theorem reused_sighash_equals_fresh_witness:
  "\<exists>rv'. calc_schnorr_signature_hash ex_crypto (ex_populated [1]) 0 SIG_HASH_ALL
      (new_reused_values\<lparr>r_outputs_hash := Some 1\<rparr>) =
      Ok (sighash ex_crypto (ex_populated [1]) 0 SIG_HASH_ALL, rv') \<and>
    reused_sound ex_crypto (ptx (ex_populated [1])) rv'"
proof -
  have "reused_sound ex_crypto (ptx (ex_populated [1])) (new_reused_values\<lparr>r_outputs_hash := Some 1\<rparr>)"
    by (simp add: reused_sound_def new_reused_values_def TransactionSigningHash_def ex_crypto_def)
  then show ?thesis
    using reused_sighash_equals_fresh [of ex_crypto "ex_populated [1]"
        "new_reused_values\<lparr>r_outputs_hash := Some 1\<rparr>" 0 SIG_HASH_ALL]
    by (simp add: ex_populated_def)
qed

theorem sighash_all_commits_witness:
  "\<exists>h rv rv'. calc_schnorr_signature_hash ex_crypto (ex_populated [1]) 0 SIG_HASH_ALL new_reused_values = Ok (h, rv) \<and>
     calc_schnorr_signature_hash ex_crypto (ex_populated [2]) 0 SIG_HASH_ALL new_reused_values = Ok (h, rv') \<and>
     signed_fields (ex_populated [1]) 0 = signed_fields (ex_populated [2]) 0"
proof -
  have new: "reused_sound ex_crypto tx new_reused_values" for tx
    by (simp add: reused_sound_def new_reused_values_def)
  obtain rv rv' where
    run: "calc_schnorr_signature_hash ex_crypto (ex_populated [1]) 0 SIG_HASH_ALL new_reused_values =
        Ok (sighash ex_crypto (ex_populated [1]) 0 SIG_HASH_ALL, rv)"
      "calc_schnorr_signature_hash ex_crypto (ex_populated [2]) 0 SIG_HASH_ALL new_reused_values =
        Ok (sighash ex_crypto (ex_populated [2]) 0 SIG_HASH_ALL, rv')"
    using calc_schnorr_signature_hash_eq [OF new, of 0 "ex_populated [1]" SIG_HASH_ALL]
      calc_schnorr_signature_hash_eq [OF new, of 0 "ex_populated [2]" SIG_HASH_ALL]
    by (auto simp: ex_populated_def)
  have eq: "sighash ex_crypto (ex_populated [1]) 0 SIG_HASH_ALL =
      sighash ex_crypto (ex_populated [2]) 0 SIG_HASH_ALL"
    using ex_preimage [of ex_crypto "[1]"] ex_preimage [of ex_crypto "[2]"] by (simp add: sighash_def)
  have "no_collision ex_crypto (ex_populated [1]) 0 (ex_populated [2]) 0"
    using ex_preimage [of ex_crypto "[1]" SIG_HASH_ALL] ex_preimage [of ex_crypto "[2]" SIG_HASH_ALL]
    by (simp add: no_collision_def TransactionSigningHash_def ZERO_HASH_def ex_crypto_def)
      (simp add: ex_populated_def prevouts_preimage_def sequences_preimage_def
        sig_op_counts_preimage_def outputs_preimage_def)
  from sighash_all_commits [OF run(1) run(2) [folded eq] new new this ex_encodable ex_encodable] run eq
  show ?thesis by auto
qed

end
