(* ===== verification/Script_Opcodes.thy ===== *)
theory Script_Opcodes
  imports Script_Data
begin

text \<open>
  Opcodes as data (\<^verbatim>\<open>crypto/txscript/src/opcodes/macros.rs\<close>, the metadata part of
  \<^verbatim>\<open>opcodes/mod.rs\<close>, \<^verbatim>\<open>script_class.rs\<close> and the static analyses of
  \<^verbatim>\<open>lib.rs\<close>): parsing a script into opcodes, their metadata, script classes, the static
  bound on signature operations and the test for unspendable outputs.

  The macro \<^verbatim>\<open>opcode_list!\<close> generates one type per opcode number; here an opcode is its
  number with its data, and what the macro derives from the length column of the list is
  \<open>opcode_length\<close>.
\<close>

section \<open>Constants\<close>

definition MAX_SCRIPT_PUBLIC_KEY_VERSION :: u16 where "MAX_SCRIPT_PUBLIC_KEY_VERSION = 16"
definition STEALTH_SCRIPT_VERSION :: u16 where "STEALTH_SCRIPT_VERSION = 16"
definition STEALTH_OUTPUT_SIZE :: nat where "STEALTH_OUTPUT_SIZE = 66"
definition MAX_STACK_SIZE :: nat where "MAX_STACK_SIZE = 244"
definition MAX_SCRIPTS_SIZE :: nat where "MAX_SCRIPTS_SIZE = 10000"
definition MAX_SCRIPT_ELEMENT_SIZE :: nat where "MAX_SCRIPT_ELEMENT_SIZE = 2500"
definition MAX_OPS_PER_SCRIPT :: int where "MAX_OPS_PER_SCRIPT = 201"
definition MAX_PUB_KEYS_PER_MUTLTISIG :: int where "MAX_PUB_KEYS_PER_MUTLTISIG = 20"
definition NO_COST_OPCODE :: u8 where "NO_COST_OPCODE = 0x60"

definition OP_SMALL_INT_MIN_VAL :: u8 where "OP_SMALL_INT_MIN_VAL = 1"
definition OP_SMALL_INT_MAX_VAL :: u8 where "OP_SMALL_INT_MAX_VAL = 16"
definition OP_DATA_MIN_VAL :: u8 where "OP_DATA_MIN_VAL = 0x01"
definition OP_DATA_MAX_VAL :: u8 where "OP_DATA_MAX_VAL = 0x4b"
definition OP_1_NEGATE_VAL :: u8 where "OP_1_NEGATE_VAL = 0x81"

text \<open>The numbers of the opcodes that other code refers to by name.\<close>

definition OpFalse :: u8 where "OpFalse = 0x00"
definition OpData32 :: u8 where "OpData32 = 0x20"
definition OpData33 :: u8 where "OpData33 = 0x21"
definition OpPushData1 :: u8 where "OpPushData1 = 0x4c"
definition OpPushData2 :: u8 where "OpPushData2 = 0x4d"
definition OpPushData4 :: u8 where "OpPushData4 = 0x4e"
definition Op1Negate :: u8 where "Op1Negate = 0x4f"
definition OpTrue :: u8 where "OpTrue = 0x51"
definition Op16 :: u8 where "Op16 = 0x60"
definition OpReturn :: u8 where "OpReturn = 0x6a"
definition OpEqual :: u8 where "OpEqual = 0x87"
definition OpCheckSigMLDSA :: u8 where "OpCheckSigMLDSA = 0xa7"
definition OpCheckMultiSigECDSA :: u8 where "OpCheckMultiSigECDSA = 0xa9"
definition OpBlake2b :: u8 where "OpBlake2b = 0xaa"
definition OpCheckSigECDSA :: u8 where "OpCheckSigECDSA = 0xab"
definition OpCheckSig :: u8 where "OpCheckSig = 0xac"
definition OpCheckSigVerify :: u8 where "OpCheckSigVerify = 0xad"
definition OpCheckMultiSig :: u8 where "OpCheckMultiSig = 0xae"
definition OpCheckMultiSigVerify :: u8 where "OpCheckMultiSigVerify = 0xaf"

section \<open>Parsing\<close>

record opcode =
  op_value :: u8
  op_data :: "u8 list"

datatype op_length = FixedData nat | VarData nat

text \<open>The length column: a literal counts the opcode byte, a type is the width of the prefix.\<close>

definition opcode_length :: "u8 \<Rightarrow> op_length" where
  "opcode_length v =
     (if 1 \<le> v \<and> v \<le> OP_DATA_MAX_VAL then FixedData (unat v)
      else if v = OpPushData1 then VarData 1
      else if v = OpPushData2 then VarData 2
      else if v = OpPushData4 then VarData 4
      else FixedData 0)"

text \<open>\<^verbatim>\<open>opcode_init!\<close> and \<^verbatim>\<open>opcode_serde!\<close>; the second component is what the iterator has left.\<close>

definition deserialize_fixed ::
    "u8 \<Rightarrow> nat \<Rightarrow> u8 list \<Rightarrow> (opcode, script_error) outcome \<times> u8 list" where
  "deserialize_fixed v n it =
     (let data = take n it
      in ((if length data \<noteq> n then Err (MalformedPush n (length data))
           else Ok \<lparr>op_value = v, op_data = data\<rparr>), drop n it))"

definition deserialize_var ::
    "u8 \<Rightarrow> nat \<Rightarrow> u8 list \<Rightarrow> (opcode, script_error) outcome \<times> u8 list" where
  "deserialize_var v w it =
     (let bytes = take w it; it1 = drop w it
      in if length bytes \<noteq> w then (Err (MalformedPushSize bytes), it1)
         else let len = le_value bytes; data = take len it1
              in ((if length data \<noteq> len then Err (MalformedPush len (length data))
                   else Ok \<lparr>op_value = v, op_data = data\<rparr>), drop len it1))"

definition deserialize_next_opcode ::
    "u8 list \<Rightarrow> ((opcode, script_error) outcome \<times> u8 list) option" where
  "deserialize_next_opcode it =
     (case it of [] \<Rightarrow> None
      | v # rest \<Rightarrow>
          Some (case opcode_length v of
                  FixedData n \<Rightarrow> deserialize_fixed v n rest
                | VarData w \<Rightarrow> deserialize_var v w rest))"

lemma deserialize_next_opcode_shorter:
  "deserialize_next_opcode it = Some (r, rest) \<Longrightarrow> length rest < length it"
  by (auto simp: deserialize_next_opcode_def deserialize_fixed_def deserialize_var_def Let_def
      split: list.splits op_length.splits if_splits)

function parse_script :: "u8 list \<Rightarrow> (opcode, script_error) outcome list" where
  "parse_script it =
     (case deserialize_next_opcode it of None \<Rightarrow> [] | Some (r, rest) \<Rightarrow> r # parse_script rest)"
  by pat_completeness auto
termination by (relation "measure length") (auto dest: deserialize_next_opcode_shorter)

declare parse_script.simps [simp del]

text \<open>\<^verbatim>\<open>OpcodeSerialization::serialize\<close>.\<close>

definition serialize_opcode :: "opcode \<Rightarrow> u8 list" where
  "serialize_opcode op =
     (case opcode_length (op_value op) of
        FixedData n \<Rightarrow> op_value op # op_data op
      | VarData w \<Rightarrow>
          op_value op # to_le_bytes w (length (op_data op)) @ op_data op)"

section \<open>Metadata\<close>

definition is_disabled :: "opcode \<Rightarrow> bool" where
  "is_disabled op =
     (op_value op \<in> set [0x7e, 0x7f, 0x80, 0x81, 0x83, 0x84, 0x85, 0x86, 0x8d, 0x8e,
                          0x95, 0x96, 0x97, 0x98, 0x99])"

definition always_illegal :: "opcode \<Rightarrow> bool" where
  "always_illegal op = (op_value op = 0x65 \<or> op_value op = 0x66)"

definition is_push_opcode :: "opcode \<Rightarrow> bool" where
  "is_push_opcode op = (op_value op \<le> NO_COST_OPCODE)"

definition op_len :: "opcode \<Rightarrow> nat" where
  "op_len op = length (op_data op)"

definition is_conditional :: "opcode \<Rightarrow> bool" where
  "is_conditional op = (0x63 \<le> op_value op \<and> op_value op \<le> 0x68)"

definition check_minimal_data_push :: "opcode \<Rightarrow> (unit, script_error) outcome" where
  "check_minimal_data_push op =
     (let data_len = op_len op; v = op_value op; d = op_data op;
          first_is = (\<lambda>p. if data_len = 1 then rbind (index_at d 0) (\<lambda>x. Ok (p x)) else Ok False)
      in if data_len = 0 then fail_if (v \<noteq> OpFalse) NotMinimalData
         else rbind (first_is (\<lambda>x. OP_SMALL_INT_MIN_VAL \<le> x \<and> x \<le> OP_SMALL_INT_MAX_VAL)) (\<lambda>small.
         if small
         then rbind (index_at d 0) (\<lambda>x. rbind (add_w OpTrue x) (\<lambda>y. rbind (sub_w y 1) (\<lambda>z.
                fail_if (v \<noteq> z) NotMinimalData)))
         else rbind (first_is (\<lambda>x. x = OP_1_NEGATE_VAL)) (\<lambda>minus_one.
         if minus_one then fail_if (v \<noteq> Op1Negate) NotMinimalData
         else if data_len \<le> unat OP_DATA_MAX_VAL then fail_if (unat v \<noteq> data_len) NotMinimalData
         else if data_len \<le> 255 then fail_if (v \<noteq> OpPushData1) NotMinimalData
         else fail_if (data_len < 65535 \<and> v \<noteq> OpPushData2) NotMinimalData)))"

lemma check_minimal_data_push_eq:
  "check_minimal_data_push op =
     (let data_len = op_len op; v = op_value op; d = op_data op
      in if data_len = 0 then fail_if (v \<noteq> OpFalse) NotMinimalData
         else if data_len = 1 \<and> OP_SMALL_INT_MIN_VAL \<le> d ! 0 \<and> d ! 0 \<le> OP_SMALL_INT_MAX_VAL
         then rbind (add_w OpTrue (d ! 0)) (\<lambda>x. rbind (sub_w x 1) (\<lambda>y. fail_if (v \<noteq> y) NotMinimalData))
         else if data_len = 1 \<and> d ! 0 = OP_1_NEGATE_VAL then fail_if (v \<noteq> Op1Negate) NotMinimalData
         else if data_len \<le> unat OP_DATA_MAX_VAL then fail_if (unat v \<noteq> data_len) NotMinimalData
         else if data_len \<le> 255 then fail_if (v \<noteq> OpPushData1) NotMinimalData
         else fail_if (data_len < 65535 \<and> v \<noteq> OpPushData2) NotMinimalData)"
  by (simp add: check_minimal_data_push_def Let_def op_len_def)

definition to_small_int :: "opcode \<Rightarrow> (u8, 'e) outcome" where
  "to_small_int op =
     (let v = op_value op
      in if v = OpFalse then Ok 0
         else rbind (assert_that (OpTrue \<le> v \<and> v < Op16)) (\<lambda>_. sub_w v (OpTrue - 1)))"

section \<open>Script classes\<close>

datatype script_class = NonStandard | PubKey | PubKeyECDSA | PubKeyMLDSA | ScriptHash | Stealth

definition is_pay_to_pubkey :: "u8 list \<Rightarrow> bool" where
  "is_pay_to_pubkey s = (length s = 34 \<and> s ! 0 = OpData32 \<and> s ! 33 = OpCheckSig)"

definition is_pay_to_pubkey_ecdsa :: "u8 list \<Rightarrow> bool" where
  "is_pay_to_pubkey_ecdsa s = (length s = 35 \<and> s ! 0 = OpData33 \<and> s ! 34 = OpCheckSigECDSA)"

definition is_pay_to_pubkey_mldsa :: "u8 list \<Rightarrow> bool" where
  "is_pay_to_pubkey_mldsa s =
     (length s = 1316 \<and> s ! 0 = OpPushData2 \<and> s ! 1 = 0x20 \<and> s ! 2 = 0x05 \<and> s ! 1315 = OpCheckSigMLDSA)"

definition is_pay_to_script_hash :: "u8 list \<Rightarrow> bool" where
  "is_pay_to_script_hash s =
     (length s = 35 \<and> s ! 0 = OpBlake2b \<and> s ! 1 = OpData32 \<and> s ! 34 = OpEqual)"

definition is_pay_to_stealth :: "u8 list \<Rightarrow> bool" where
  "is_pay_to_stealth s = (length s = STEALTH_OUTPUT_SIZE)"

definition from_script :: "script_public_key \<Rightarrow> script_class" where
  "from_script spk =
     (let s = script spk; v = spk_version spk
      in if v = 0
         then (if is_pay_to_pubkey s then PubKey
               else if is_pay_to_pubkey_ecdsa s then PubKeyECDSA
               else if is_pay_to_pubkey_mldsa s then PubKeyMLDSA
               else if is_pay_to_script_hash s then ScriptHash
               else NonStandard)
         else if v = STEALTH_SCRIPT_VERSION
         then (if is_pay_to_stealth s then Stealth else NonStandard)
         else NonStandard)"

fun class_version :: "script_class \<Rightarrow> u16" where
  "class_version Stealth = STEALTH_SCRIPT_VERSION"
| "class_version _ = 0"

section \<open>Static analyses\<close>

text \<open>
  The loop keeps the previous item, which \<^verbatim>\<open>opcodes[i - 1]\<close> reads; there is none at the
  first position.
\<close>

fun sig_op_loop ::
    "(opcode, script_error) outcome option \<Rightarrow> (opcode, script_error) outcome list \<Rightarrow> u64 \<Rightarrow> (u64, 'e) outcome" where
  "sig_op_loop prev [] num_sigs = Ok num_sigs"
| "sig_op_loop prev (item # items) num_sigs =
     (case item of
        Ok op \<Rightarrow>
          (if op_value op \<in> {OpCheckSig, OpCheckSigVerify, OpCheckSigECDSA, OpCheckSigMLDSA}
           then rbind (add_w num_sigs 1) (sig_op_loop (Some item) items)
           else if op_value op \<in> {OpCheckMultiSig, OpCheckMultiSigVerify, OpCheckMultiSigECDSA}
           then (case prev of
                   None \<Rightarrow> rbind (add_w num_sigs 20) (sig_op_loop (Some item) items)
                 | Some (Ok pop) \<Rightarrow>
                     (if OpTrue \<le> op_value pop \<and> op_value pop \<le> Op16
                      then rbind (to_small_int pop) (\<lambda>k.
                             rbind (add_w num_sigs (ucast k)) (sig_op_loop (Some item) items))
                      else rbind (add_w num_sigs 20) (sig_op_loop (Some item) items))
                 | Some _ \<Rightarrow> Ok num_sigs)
           else sig_op_loop (Some item) items num_sigs)
      | _ \<Rightarrow> Ok num_sigs)"

definition get_sig_op_count_by_opcodes ::
    "(opcode, script_error) outcome list \<Rightarrow> (u64, 'e) outcome" where
  "get_sig_op_count_by_opcodes opcodes = sig_op_loop None opcodes 0"

definition get_sig_op_count_upper_bound ::
    "u8 list \<Rightarrow> script_public_key \<Rightarrow> (u64, 'e) outcome" where
  "get_sig_op_count_upper_bound sig_script prev_spk =
     (if spk_version prev_spk = STEALTH_SCRIPT_VERSION then Ok 1
      else if \<not> is_pay_to_script_hash (script prev_spk)
      then get_sig_op_count_by_opcodes (parse_script (script prev_spk))
      else let ops = parse_script sig_script
           in if ops = [] \<or> list_ex (\<lambda>r. case r of Ok op \<Rightarrow> \<not> is_push_opcode op | _ \<Rightarrow> True) ops then Ok 0
              else (case last ops of
                      Ok op \<Rightarrow> get_sig_op_count_by_opcodes (parse_script (op_data op))
                    | _ \<Rightarrow> Panic))"

definition is_unspendable :: "u8 list \<Rightarrow> bool" where
  "is_unspendable s =
     list_ex (\<lambda>(i, r). case r of Ok op \<Rightarrow> i = 0 \<and> op_value op = OpReturn | _ \<Rightarrow> True)
       (enumerate 0 (parse_script s))"

end
