(* ===== verification/Script_Engine.thy ===== *)
theory Script_Engine
  imports Sighash Script_Opcodes
begin

text \<open>
  The script engine (\<^verbatim>\<open>crypto/txscript/src/lib.rs\<close>, the opcode bodies of
  \<^verbatim>\<open>opcodes/mod.rs\<close>, \<^verbatim>\<open>caches.rs\<close>, \<^verbatim>\<open>runtime_sig_op_counter.rs\<close>): its state, the
  signature checks with their cache, one definition per opcode, the dispatch table and the
  execution of the scripts of an input.

  A handler takes the state and returns the next one, an error or a panic. The state an
  error leaves behind is not part of the outcome: every caller discards the engine then.
  Logging of executed opcodes is left out.
\<close>

section \<open>Signature operation counter\<close>

record runtime_sig_op_counter =
  sig_op_limit :: u8
  sig_op_remaining :: u8

definition new_sig_op_counter :: "u8 \<Rightarrow> runtime_sig_op_counter" where
  "new_sig_op_counter l = \<lparr>sig_op_limit = l, sig_op_remaining = l\<rparr>"

definition consume_sig_op :: "runtime_sig_op_counter \<Rightarrow> (runtime_sig_op_counter, script_error) outcome" where
  "consume_sig_op c =
     rbind (ok_or (checked_sub (sig_op_remaining c) 1) (ExceededSigOpLimit (sig_op_limit c))) (\<lambda>r.
       Ok (c\<lparr>sig_op_remaining := r\<rparr>))"

definition counter_used_sig_ops :: "runtime_sig_op_counter \<Rightarrow> (u8, 'e) outcome" where
  "counter_used_sig_ops c = sub_w (sig_op_limit c) (sig_op_remaining c)"

section \<open>Signature cache\<close>

datatype signature_value = SigSecp256k1 nat | SigEcdsa nat

datatype public_key_value = KeySchnorr nat | KeyEcdsa nat

record sig_cache_key =
  key_sig :: signature_value
  key_pub :: public_key_value
  key_msg :: hash

text \<open>The index map in its order, its capacity and the two counters.\<close>

record sig_cache =
  cache_map :: "(sig_cache_key \<times> bool) list"
  cache_size :: nat
  insert_counts :: u64
  get_counts :: u64

definition new_cache :: "nat \<Rightarrow> sig_cache" where
  "new_cache n = \<lparr>cache_map = [], cache_size = n, insert_counts = 0, get_counts = 0\<rparr>"

definition cache_get :: "sig_cache \<Rightarrow> sig_cache_key \<Rightarrow> bool option \<times> sig_cache" where
  "cache_get c k =
     (case map_of (cache_map c) k of
        None \<Rightarrow> (None, c)
      | Some d \<Rightarrow> (Some d, c\<lparr>get_counts := get_counts c + 1\<rparr>))"

text \<open>\<^verbatim>\<open>IndexMap::swap_remove_index\<close>: the last entry takes the place of the removed one.\<close>

definition swap_remove_index :: "nat \<Rightarrow> 'a list \<Rightarrow> 'a list" where
  "swap_remove_index i m = (if i < length m then butlast (m[i := last m]) else m)"

definition cache_insert :: "crypto \<Rightarrow> sig_cache \<Rightarrow> sig_cache_key \<Rightarrow> bool \<Rightarrow> sig_cache" where
  "cache_insert cr c k d =
     (if cache_size c = 0 then c
      else let m = (if length (cache_map c) = cache_size c
                    then swap_remove_index (random_index cr (insert_counts c) (cache_size c)) (cache_map c)
                    else cache_map c)
           in c\<lparr>cache_map := AList.update k d m, insert_counts := insert_counts c + 1\<rparr>)"

section \<open>Engine state\<close>

datatype op_cond = CondFalse | CondTrue | CondSkip

fun negate :: "op_cond \<Rightarrow> op_cond" where
  "negate CondTrue = CondFalse"
| "negate CondFalse = CondTrue"
| "negate CondSkip = CondSkip"

datatype script_source =
    TxInput populated_tx transaction_input nat utxo_entry bool
  | StandAloneScripts "u8 list list"

record engine =
  dstack :: stack
  astack :: stack
  source :: script_source
  reused_values :: sighash_reused_values
  sig_cache_of :: sig_cache
  cond_stack :: "op_cond list"
  num_ops :: int
  counter :: runtime_sig_op_counter

type_synonym result = "(engine, script_error) outcome"

definition from_transaction_input ::
    "populated_tx \<Rightarrow> transaction_input \<Rightarrow> nat \<Rightarrow> utxo_entry \<Rightarrow> sighash_reused_values \<Rightarrow> sig_cache \<Rightarrow> result" where
  "from_transaction_input tx input input_idx entry rv cache =
     rbind (assert_that (input_idx < length (inputs (ptx tx)))) (\<lambda>_.
       Ok \<lparr>dstack = [], astack = [],
           source = TxInput tx input input_idx entry (is_pay_to_script_hash (script (entry_spk entry))),
           reused_values = rv, sig_cache_of = cache, cond_stack = [], num_ops = 0,
           counter = new_sig_op_counter (sig_op_count input)\<rparr>)"

definition engine_from_script ::
    "u8 list \<Rightarrow> sighash_reused_values \<Rightarrow> sig_cache \<Rightarrow> engine" where
  "engine_from_script s rv cache =
     \<lparr>dstack = [], astack = [], source = StandAloneScripts [s], reused_values = rv,
      sig_cache_of = cache, cond_stack = [], num_ops = 0, counter = new_sig_op_counter (- 1)\<rparr>"

definition used_sig_ops :: "engine \<Rightarrow> (u8, 'e) outcome" where
  "used_sig_ops vm = counter_used_sig_ops (counter vm)"

definition is_executing :: "engine \<Rightarrow> bool" where
  "is_executing vm = (cond_stack vm = [] \<or> last (cond_stack vm) = CondTrue)"

section \<open>Signature checks\<close>

definition of_sum :: "('f \<Rightarrow> 'e) \<Rightarrow> 'f + 'a \<Rightarrow> ('a, 'e) outcome" where
  "of_sum f x = (case x of Inl e \<Rightarrow> Err (f e) | Inr v \<Rightarrow> Ok v)"

definition map_err :: "('f \<Rightarrow> 'e) \<Rightarrow> ('a, 'f) outcome \<Rightarrow> ('a, 'e) outcome" where
  "map_err f r = (case r of Ok v \<Rightarrow> Ok v | Err e \<Rightarrow> Err (f e) | Panic \<Rightarrow> Panic)"

definition check_pub_key_encoding :: "u8 list \<Rightarrow> (unit, script_error) outcome" where
  "check_pub_key_encoding k = (if length k = 32 then Ok () else Err PubKeyFormat)"

definition check_pub_key_encoding_ecdsa :: "u8 list \<Rightarrow> (unit, script_error) outcome" where
  "check_pub_key_encoding_ecdsa k = (if length k = 33 then Ok () else Err PubKeyFormat)"

text \<open>
  The lookup with fallback that each check ends in: the cached result, or the verification,
  whose result is then inserted.
\<close>

definition cached_verify :: "crypto \<Rightarrow> sig_cache_key \<Rightarrow> bool \<Rightarrow> engine \<Rightarrow> bool \<times> engine" where
  "cached_verify cr k verified vm =
     (case cache_get (sig_cache_of vm) k of
        (Some valid, c) \<Rightarrow> (valid, vm\<lparr>sig_cache_of := c\<rparr>)
      | (None, c) \<Rightarrow> (verified, vm\<lparr>sig_cache_of := cache_insert cr c k verified\<rparr>))"

definition check_schnorr_signature ::
    "crypto \<Rightarrow> u8 \<Rightarrow> u8 list \<Rightarrow> u8 list \<Rightarrow> engine \<Rightarrow> (bool \<times> engine, script_error) outcome" where
  "check_schnorr_signature cr hash_type key sig vm =
     rbind (consume_sig_op (counter vm)) (\<lambda>c. let vm = vm\<lparr>counter := c\<rparr> in
       case source vm of
         TxInput tx _ idx _ _ \<Rightarrow>
           rbind (fail_if (length sig \<noteq> 64) (SigLength (length sig))) (\<lambda>_.
           rbind (check_pub_key_encoding key) (\<lambda>_.
           rbind (of_sum InvalidSignature (xonly_from_slice cr key)) (\<lambda>pk.
           rbind (of_sum InvalidSignature (schnorr_from_slice cr sig)) (\<lambda>sg.
           rbind (calc_schnorr_signature_hash cr tx idx hash_type (reused_values vm)) (\<lambda>(msg, rv).
             Ok (cached_verify cr \<lparr>key_sig = SigSecp256k1 sg, key_pub = KeySchnorr pk, key_msg = msg\<rparr>
                   (schnorr_verify cr sg msg pk) (vm\<lparr>reused_values := rv\<rparr>)))))))
       | StandAloneScripts _ \<Rightarrow> Err NotATransactionInput)"

definition check_ecdsa_signature ::
    "crypto \<Rightarrow> u8 \<Rightarrow> u8 list \<Rightarrow> u8 list \<Rightarrow> engine \<Rightarrow> (bool \<times> engine, script_error) outcome" where
  "check_ecdsa_signature cr hash_type key sig vm =
     rbind (consume_sig_op (counter vm)) (\<lambda>c. let vm = vm\<lparr>counter := c\<rparr> in
       case source vm of
         TxInput tx _ idx _ _ \<Rightarrow>
           rbind (fail_if (length sig \<noteq> 64) (SigLength (length sig))) (\<lambda>_.
           rbind (check_pub_key_encoding_ecdsa key) (\<lambda>_.
           rbind (of_sum InvalidSignature (pubkey_from_slice cr key)) (\<lambda>pk.
           rbind (of_sum InvalidSignature (ecdsa_from_compact cr sig)) (\<lambda>sg.
           rbind (calc_ecdsa_signature_hash cr tx idx hash_type (reused_values vm)) (\<lambda>(msg, rv).
             Ok (cached_verify cr \<lparr>key_sig = SigEcdsa sg, key_pub = KeyEcdsa pk, key_msg = msg\<rparr>
                   (ecdsa_verify cr sg msg pk) (vm\<lparr>reused_values := rv\<rparr>)))))))
       | StandAloneScripts _ \<Rightarrow> Err NotATransactionInput)"

definition check_mldsa_signature ::
    "crypto \<Rightarrow> u8 \<Rightarrow> u8 list \<Rightarrow> u8 list \<Rightarrow> engine \<Rightarrow> (bool \<times> engine, script_error) outcome" where
  "check_mldsa_signature cr hash_type key sig vm =
     rbind (consume_sig_op (counter vm)) (\<lambda>c. let vm = vm\<lparr>counter := c\<rparr> in
       case source vm of
         TxInput tx _ idx _ _ \<Rightarrow>
           rbind (fail_if (length sig \<noteq> 2420) (SigLength (length sig))) (\<lambda>_.
           rbind (fail_if (length key \<noteq> 1312) (InvalidPublicKeyLen (length key))) (\<lambda>_.
           rbind (map_err (\<lambda>_. InvalidSignature SecpInvalidPublicKey) (public_key_from_bytes key Level2)) (\<lambda>pk.
           rbind (map_err (\<lambda>_. InvalidSignature SecpInvalidSignature) (signature_from_bytes sig Level2)) (\<lambda>sg.
           rbind (calc_schnorr_signature_hash cr tx idx hash_type (reused_values vm)) (\<lambda>(msg, rv).
             Ok (mldsa_verify (ml_dsa cr) (hash_bytes msg) sg pk, vm\<lparr>reused_values := rv\<rparr>))))))
       | StandAloneScripts _ \<Rightarrow> Err NotATransactionInput)"

text \<open>
  \<^verbatim>\<open>op_check_multisig_schnorr_or_ecdsa\<close>: the inner loop advances through the keys until one
  verifies the signature, and gives up (\<open>None\<close>) when fewer keys than signatures remain.
\<close>

fun multisig_advance ::
    "crypto \<Rightarrow> bool \<Rightarrow> u8 \<Rightarrow> u8 list \<Rightarrow> nat \<Rightarrow> u8 list list \<Rightarrow> engine \<Rightarrow>
     (u8 list list option \<times> engine, script_error) outcome" where
  "multisig_advance cr ecdsa hash_type sig need pub_keys vm =
     (if length pub_keys < need then Ok (None, vm)
      else case pub_keys of [] \<Rightarrow> Panic
        | pub_key # rest \<Rightarrow>
            rbind (if ecdsa then check_ecdsa_signature cr hash_type pub_key sig vm
                   else check_schnorr_signature cr hash_type pub_key sig vm) (\<lambda>(valid, vm').
              if valid then Ok (Some rest, vm')
              else multisig_advance cr ecdsa hash_type sig need rest vm'))"

declare multisig_advance.simps [simp del]

text \<open>The outer loop; its result is the flag \<^verbatim>\<open>failed\<close>.\<close>

fun multisig_loop ::
    "crypto \<Rightarrow> bool \<Rightarrow> u8 list list \<Rightarrow> u8 list list \<Rightarrow> engine \<Rightarrow> (bool \<times> engine, script_error) outcome" where
  "multisig_loop cr ecdsa [] pub_keys vm = Ok (False, vm)"
| "multisig_loop cr ecdsa (sig # sigs) pub_keys vm =
     (if sig = [] then Ok (True, vm)
      else rbind (expect (slice_last sig)) (\<lambda>typ.
        rbind (rbind (usize_sub (length sig) 1) (slice_at sig 0)) (\<lambda>signature.
        rbind (ok_or (sighash_from_u8 typ) (InvalidSigHashType typ)) (\<lambda>hash_type.
        rbind (multisig_advance cr ecdsa hash_type signature (Suc (length sigs)) pub_keys vm)
          (\<lambda>(left, vm'). case left of None \<Rightarrow> Ok (True, vm')
             | Some rest \<Rightarrow> multisig_loop cr ecdsa sigs rest vm')))))"

lemma multisig_loop_Cons:
  "multisig_loop cr ecdsa (sig # sigs) pub_keys vm =
     (if sig = [] then Ok (True, vm)
      else rbind (ok_or (sighash_from_u8 (last sig)) (InvalidSigHashType (last sig))) (\<lambda>hash_type.
        rbind (multisig_advance cr ecdsa hash_type (butlast sig) (Suc (length sigs)) pub_keys vm)
          (\<lambda>(left, vm'). case left of None \<Rightarrow> Ok (True, vm')
             | Some rest \<Rightarrow> multisig_loop cr ecdsa sigs rest vm')))"
  by (simp only: multisig_loop.simps) (simp add: last_in_range [simplified] butlast_conv_take)

declare multisig_loop.simps(2) [simp del]

definition op_check_multisig_schnorr_or_ecdsa :: "crypto \<Rightarrow> bool \<Rightarrow> engine \<Rightarrow> result" where
  "op_check_multisig_schnorr_or_ecdsa cr ecdsa vm =
     rbind (pop_items 1 deserialize_i32 (dstack vm)) (\<lambda>(ks, st1).
       let num_keys = ks ! 0; num_keys_usize = as_usize num_keys in
       rbind (fail_if (num_keys < 0 \<or> num_keys > MAX_PUB_KEYS_PER_MUTLTISIG) InvalidPubKeyCount) (\<lambda>_.
       rbind (expect (if in_i32 (num_ops vm + num_keys) then Some (num_ops vm + num_keys) else None)) (\<lambda>ops.
       rbind (fail_if (ops > MAX_OPS_PER_SCRIPT) (TooManyOperations MAX_OPS_PER_SCRIPT)) (\<lambda>_.
       rbind (if length st1 \<ge> num_keys_usize
              then rbind (usize_sub (length st1) num_keys_usize) (split_off st1)
              else Err (InvalidStackOperation num_keys_usize (length st1))) (\<lambda>(pub_keys, st2).
       rbind (pop_items 1 deserialize_i32 st2) (\<lambda>(ss, st3).
       let num_sigs = ss ! 0; num_sigs_usize = as_usize num_sigs in
       rbind (fail_if (num_sigs < 0 \<or> num_sigs > num_keys) InvalidSignatureCount) (\<lambda>_.
       rbind (if length st3 \<ge> num_sigs_usize
              then rbind (usize_sub (length st3) num_sigs_usize) (split_off st3)
              else Err (InvalidStackOperation num_sigs_usize (length st3))) (\<lambda>(signatures, st4).
       rbind (multisig_loop cr ecdsa signatures pub_keys (vm\<lparr>num_ops := ops, dstack := st4\<rparr>)) (\<lambda>(failed, vm').
       rbind (fail_if (failed \<and> list_ex (\<lambda>s. s \<noteq> []) signatures) NullFail) (\<lambda>_.
       rbind (push_item serialize_bool (\<not> failed) (dstack vm')) (\<lambda>st.
         Ok (vm'\<lparr>dstack := st\<rparr>))))))))))))"

section \<open>Opcodes\<close>

text \<open>Shapes the opcode bodies share: an operation on the data stack, and the numeric ones.\<close>

definition on_dstack :: "(stack \<Rightarrow> (stack, script_error) outcome) \<Rightarrow> engine \<Rightarrow> result" where
  "on_dstack f vm = rbind (f (dstack vm)) (\<lambda>st. Ok (vm\<lparr>dstack := st\<rparr>))"

definition num_unary :: "(int \<Rightarrow> (int, script_error) outcome) \<Rightarrow> engine \<Rightarrow> result" where
  "num_unary f = on_dstack (\<lambda>st0. rbind (pop_items 1 deserialize_num st0) (\<lambda>(xs, st).
     rbind (f (xs ! 0)) (\<lambda>r. push_item serialize_num r st)))"

definition num_binary :: "(int \<Rightarrow> int \<Rightarrow> (int, script_error) outcome) \<Rightarrow> engine \<Rightarrow> result" where
  "num_binary f = on_dstack (\<lambda>st0. rbind (pop_items 2 deserialize_num st0) (\<lambda>(xs, st).
     rbind (f (xs ! 0) (xs ! 1)) (\<lambda>r. push_item serialize_num r st)))"

definition num_compare :: "(int \<Rightarrow> int \<Rightarrow> bool) \<Rightarrow> engine \<Rightarrow> result" where
  "num_compare p = num_binary (\<lambda>a b. Ok (of_bool (p a b)))"

definition pop_bool :: "engine \<Rightarrow> (bool \<times> engine, script_error) outcome" where
  "pop_bool vm = rbind (pop_items 1 deserialize_bool (dstack vm)) (\<lambda>(xs, st). Ok (xs ! 0, vm\<lparr>dstack := st\<rparr>))"

definition verify_top :: "engine \<Rightarrow> result" where
  "verify_top vm = rbind (pop_bool vm) (\<lambda>(b, vm'). if b then Ok vm' else Err VerifyError)"

definition push_data :: "u8 list \<Rightarrow> engine \<Rightarrow> result" where
  "push_data d vm = Ok (vm\<lparr>dstack := dstack vm @ [d]\<rparr>)"

definition push_number :: "int \<Rightarrow> engine \<Rightarrow> result" where
  "push_number n = on_dstack (push_item serialize_num n)"

subsection \<open>Control\<close>

text \<open>The element \<^verbatim>\<open>OpIf\<close> and \<^verbatim>\<open>OpNotIf\<close> read: empty or the single byte 1.\<close>

definition pop_cond :: "op_cond \<Rightarrow> op_cond \<Rightarrow> engine \<Rightarrow> (op_cond \<times> engine, script_error) outcome" where
  "pop_cond on_true on_false vm =
     (if \<not> is_executing vm then Ok (CondSkip, vm)
      else if dstack vm = [] then Err EmptyStack
      else let cond_buf = last (dstack vm); vm' = vm\<lparr>dstack := butlast (dstack vm)\<rparr>
           in if length cond_buf > 1 then Err InvalidState
              else if cond_buf = [] then Ok (on_false, vm')
              else if last cond_buf = 1 then Ok (on_true, vm')
              else Err InvalidState)"

definition op_if :: "engine \<Rightarrow> result" where
  "op_if vm = rbind (pop_cond CondTrue CondFalse vm) (\<lambda>(c, vm').
     Ok (vm'\<lparr>cond_stack := cond_stack vm' @ [c]\<rparr>))"

definition op_notif :: "engine \<Rightarrow> result" where
  "op_notif vm = rbind (pop_cond CondFalse CondTrue vm) (\<lambda>(c, vm').
     Ok (vm'\<lparr>cond_stack := cond_stack vm' @ [c]\<rparr>))"

definition op_else :: "engine \<Rightarrow> result" where
  "op_else vm =
     (if cond_stack vm = [] then Err InvalidState
      else Ok (vm\<lparr>cond_stack := butlast (cond_stack vm) @ [negate (last (cond_stack vm))]\<rparr>))"

definition op_endif :: "engine \<Rightarrow> result" where
  "op_endif vm =
     (if cond_stack vm = [] then Err InvalidState else Ok (vm\<lparr>cond_stack := butlast (cond_stack vm)\<rparr>))"

definition op_verify :: "engine \<Rightarrow> result" where
  "op_verify = verify_top"

subsection \<open>Stack\<close>

definition op_to_alt_stack :: "engine \<Rightarrow> result" where
  "op_to_alt_stack vm = rbind (pop_raw 1 (dstack vm)) (\<lambda>(xs, st).
     Ok (vm\<lparr>dstack := st, astack := astack vm @ [xs ! 0]\<rparr>))"

definition op_from_alt_stack :: "engine \<Rightarrow> result" where
  "op_from_alt_stack vm =
     (if astack vm = [] then Err EmptyStack
      else Ok (vm\<lparr>astack := butlast (astack vm), dstack := dstack vm @ [last (astack vm)]\<rparr>))"

definition op_2drop :: "engine \<Rightarrow> result" where "op_2drop = on_dstack (drop_items 2)"
definition op_2dup :: "engine \<Rightarrow> result" where "op_2dup = on_dstack (dup_items 2)"
definition op_3dup :: "engine \<Rightarrow> result" where "op_3dup = on_dstack (dup_items 3)"
definition op_2over :: "engine \<Rightarrow> result" where "op_2over = on_dstack (over_items 2)"
definition op_2rot :: "engine \<Rightarrow> result" where "op_2rot = on_dstack (rot_items 2)"
definition op_2swap :: "engine \<Rightarrow> result" where "op_2swap = on_dstack (swap_items 2)"

definition op_ifdup :: "engine \<Rightarrow> result" where
  "op_ifdup = on_dstack (\<lambda>st. rbind (peek_raw 1 st) (\<lambda>xs.
     rbind (deserialize_bool (xs ! 0)) (\<lambda>b. Ok (if b then st @ [xs ! 0] else st))))"

definition op_depth :: "engine \<Rightarrow> result" where
  "op_depth vm = push_number (int (length (dstack vm))) vm"

definition op_drop :: "engine \<Rightarrow> result" where "op_drop = on_dstack (drop_items 1)"
definition op_dup :: "engine \<Rightarrow> result" where "op_dup = on_dstack (dup_items 1)"

definition op_nip :: "engine \<Rightarrow> result" where
  "op_nip = on_dstack (\<lambda>st.
     if length st \<ge> 2
     then rbind (rbind (usize_sub (length st) 2) (vec_remove st)) (\<lambda>(_, st). Ok st)
     else Err (InvalidStackOperation 2 (length st)))"

definition op_over :: "engine \<Rightarrow> result" where "op_over = on_dstack (over_items 1)"

definition op_pick :: "engine \<Rightarrow> result" where
  "op_pick = on_dstack (\<lambda>st0. rbind (pop_items 1 deserialize_i32 st0) (\<lambda>(xs, st).
     let loc = xs ! 0 in
     if loc < 0 \<or> as_usize loc \<ge> length st then Err InvalidState
     else rbind (usize_sub (length st) (as_usize loc)) (\<lambda>n.
          rbind (rbind (usize_sub n 1) (index_at st)) (\<lambda>item. Ok (st @ [item])))))"

definition op_roll :: "engine \<Rightarrow> result" where
  "op_roll = on_dstack (\<lambda>st0. rbind (pop_items 1 deserialize_i32 st0) (\<lambda>(xs, st).
     let loc = xs ! 0 in
     if loc < 0 \<or> as_usize loc \<ge> length st then Err InvalidState
     else rbind (usize_sub (length st) (as_usize loc)) (\<lambda>n.
          rbind (rbind (usize_sub n 1) (vec_remove st)) (\<lambda>(item, st). Ok (st @ [item])))))"

definition op_rot :: "engine \<Rightarrow> result" where "op_rot = on_dstack (rot_items 1)"
definition op_swap :: "engine \<Rightarrow> result" where "op_swap = on_dstack (swap_items 1)"

definition op_tuck :: "engine \<Rightarrow> result" where
  "op_tuck = on_dstack (\<lambda>st.
     if length st \<ge> 2
     then rbind (usize_sub (length st) 2) (\<lambda>i.
          rbind (expect (slice_last st)) (vec_insert st i))
     else Err (InvalidStackOperation 2 (length st)))"

definition op_size :: "engine \<Rightarrow> result" where
  "op_size = on_dstack (\<lambda>st.
     if st = [] then Err (InvalidStackOperation 1 0)
     else rbind (ok_or (i64_checked (int (length (last st)))) NumberTooBig) (\<lambda>n. push_item serialize_num n st))"

definition op_equal :: "engine \<Rightarrow> result" where
  "op_equal = on_dstack (\<lambda>st.
     if length st \<ge> 2
     then rbind (rbind (usize_sub (length st) 2) (split_off st)) (\<lambda>(pair, st).
          rbind (index_at pair 0) (\<lambda>a.
          rbind (index_at pair 1) (\<lambda>b. Ok (st @ [if a = b then [1] else []]))))
     else Err (InvalidStackOperation 2 (length st)))"

definition op_equal_verify :: "engine \<Rightarrow> result" where
  "op_equal_verify = on_dstack (\<lambda>st.
     if length st \<ge> 2
     then rbind (rbind (usize_sub (length st) 2) (split_off st)) (\<lambda>(pair, st).
          rbind (index_at pair 0) (\<lambda>a.
          rbind (index_at pair 1) (\<lambda>b. if a = b then Ok st else Err VerifyError)))
     else Err (InvalidStackOperation 2 (length st)))"

subsection \<open>Numbers\<close>

definition op_1add :: "engine \<Rightarrow> result" where
  "op_1add = num_unary (\<lambda>v. ok_or (i64_checked (v + 1)) NumberTooBig)"

definition op_1sub :: "engine \<Rightarrow> result" where
  "op_1sub = num_unary (\<lambda>v. ok_or (i64_checked (v - 1)) NumberTooBig)"

definition op_negate :: "engine \<Rightarrow> result" where
  "op_negate = num_unary (\<lambda>v. ok_or (i64_checked (- v)) NumberTooBig)"

definition op_abs :: "engine \<Rightarrow> result" where
  "op_abs = num_unary (\<lambda>v. ok_or (i64_checked \<bar>v\<bar>) NumberTooBig)"

definition op_not :: "engine \<Rightarrow> result" where
  "op_not = num_unary (\<lambda>m. Ok (of_bool (m = 0)))"

definition op_0notequal :: "engine \<Rightarrow> result" where
  "op_0notequal = num_unary (\<lambda>m. Ok (of_bool (m \<noteq> 0)))"

definition op_add :: "engine \<Rightarrow> result" where
  "op_add = num_binary (\<lambda>a b. ok_or (i64_checked (a + b)) NumberTooBig)"

definition op_sub :: "engine \<Rightarrow> result" where
  "op_sub = num_binary (\<lambda>a b. ok_or (i64_checked (a - b)) NumberTooBig)"

definition op_bool_and :: "engine \<Rightarrow> result" where "op_bool_and = num_compare (\<lambda>a b. a \<noteq> 0 \<and> b \<noteq> 0)"
definition op_bool_or :: "engine \<Rightarrow> result" where "op_bool_or = num_compare (\<lambda>a b. a \<noteq> 0 \<or> b \<noteq> 0)"
definition op_num_equal :: "engine \<Rightarrow> result" where "op_num_equal = num_compare (\<lambda>a b. a = b)"

definition op_num_equal_verify :: "engine \<Rightarrow> result" where
  "op_num_equal_verify = on_dstack (\<lambda>st0. rbind (pop_items 2 deserialize_num st0) (\<lambda>(xs, st).
     if xs ! 0 = xs ! 1 then Ok st else Err VerifyError))"

definition op_num_not_equal :: "engine \<Rightarrow> result" where "op_num_not_equal = num_compare (\<lambda>a b. a \<noteq> b)"
definition op_less_than :: "engine \<Rightarrow> result" where "op_less_than = num_compare (\<lambda>a b. a < b)"
definition op_greater_than :: "engine \<Rightarrow> result" where "op_greater_than = num_compare (\<lambda>a b. a > b)"
definition op_less_than_or_equal :: "engine \<Rightarrow> result" where "op_less_than_or_equal = num_compare (\<lambda>a b. a \<le> b)"
definition op_greater_than_or_equal :: "engine \<Rightarrow> result" where "op_greater_than_or_equal = num_compare (\<lambda>a b. a \<ge> b)"
definition op_min :: "engine \<Rightarrow> result" where "op_min = num_binary (\<lambda>a b. Ok (min a b))"
definition op_max :: "engine \<Rightarrow> result" where "op_max = num_binary (\<lambda>a b. Ok (max a b))"

definition op_within :: "engine \<Rightarrow> result" where
  "op_within = on_dstack (\<lambda>st0. rbind (pop_items 3 deserialize_num st0) (\<lambda>(xs, st).
     push_item serialize_num (of_bool (xs ! 0 \<ge> xs ! 1 \<and> xs ! 0 < xs ! 2)) st))"

subsection \<open>Crypto\<close>

text \<open>The body the three \<^verbatim>\<open>OpCheckSig*\<close> opcodes share; an empty signature pushes false.\<close>

definition check_sig_with ::
    "(u8 \<Rightarrow> u8 list \<Rightarrow> u8 list \<Rightarrow> engine \<Rightarrow> (bool \<times> engine, script_error) outcome) \<Rightarrow> engine \<Rightarrow> result" where
  "check_sig_with check vm =
     rbind (pop_raw 2 (dstack vm)) (\<lambda>(xs, st).
       let sig = xs ! 0; key = xs ! 1; vm = vm\<lparr>dstack := st\<rparr> in
       if sig = [] then on_dstack (push_item serialize_bool False) vm
       else let typ = last sig in
         rbind (ok_or (sighash_from_u8 typ) (InvalidSigHashType typ)) (\<lambda>hash_type.
         rbind (check hash_type key (butlast sig) vm) (\<lambda>(valid, vm').
           on_dstack (push_item serialize_bool valid) vm')))"

definition op_check_sig_mldsa :: "crypto \<Rightarrow> engine \<Rightarrow> result" where
  "op_check_sig_mldsa cr = check_sig_with (check_mldsa_signature cr)"

definition op_sha256 :: "crypto \<Rightarrow> engine \<Rightarrow> result" where
  "op_sha256 cr = on_dstack (\<lambda>st0. rbind (pop_raw 1 st0) (\<lambda>(xs, st).
     Ok (st @ [hash_bytes (sha256 cr (xs ! 0))])))"

definition op_check_multisig_ecdsa :: "crypto \<Rightarrow> engine \<Rightarrow> result" where
  "op_check_multisig_ecdsa cr = op_check_multisig_schnorr_or_ecdsa cr True"

definition op_blake2b :: "crypto \<Rightarrow> engine \<Rightarrow> result" where
  "op_blake2b cr = on_dstack (\<lambda>st0. rbind (pop_raw 1 st0) (\<lambda>(xs, st).
     Ok (st @ [hash_bytes (blake2b cr '''' (xs ! 0))])))"

definition op_check_sig_ecdsa :: "crypto \<Rightarrow> engine \<Rightarrow> result" where
  "op_check_sig_ecdsa cr = check_sig_with (check_ecdsa_signature cr)"

definition op_check_sig :: "crypto \<Rightarrow> engine \<Rightarrow> result" where
  "op_check_sig cr = check_sig_with (check_schnorr_signature cr)"

definition op_check_sig_verify :: "crypto \<Rightarrow> engine \<Rightarrow> result" where
  "op_check_sig_verify cr vm = rbind (op_check_sig cr vm) verify_top"

definition op_check_multisig :: "crypto \<Rightarrow> engine \<Rightarrow> result" where
  "op_check_multisig cr = op_check_multisig_schnorr_or_ecdsa cr False"

definition op_check_multisig_verify :: "crypto \<Rightarrow> engine \<Rightarrow> result" where
  "op_check_multisig_verify cr vm = rbind (op_check_multisig cr vm) verify_top"

subsection \<open>Lock times\<close>

text \<open>\<^verbatim>\<open>resize(8, 0)\<close> and \<^verbatim>\<open>u64::from_le_bytes\<close>.\<close>

definition padded_u64 :: "u8 list \<Rightarrow> u64" where
  "padded_u64 bs = of_nat (le_value (take 8 bs @ replicate (8 - length bs) 0))"

definition op_check_lock_time_verify :: "engine \<Rightarrow> result" where
  "op_check_lock_time_verify vm =
     (case source vm of
        StandAloneScripts _ \<Rightarrow> Err InvalidSource
      | TxInput tx input _ _ _ \<Rightarrow>
          rbind (pop_raw 1 (dstack vm)) (\<lambda>(xs, st).
            let bytes = xs ! 0; stack_lock_time = padded_u64 bytes; tx_lock_time = lock_time (ptx tx) in
            rbind (fail_if (length bytes > 8) NumberTooBig) (\<lambda>_.
            rbind (fail_if (\<not> ((tx_lock_time < LOCK_TIME_THRESHOLD \<and> stack_lock_time < LOCK_TIME_THRESHOLD) \<or>
                               (tx_lock_time \<ge> LOCK_TIME_THRESHOLD \<and> stack_lock_time \<ge> LOCK_TIME_THRESHOLD)))
                     UnsatisfiedLockTime) (\<lambda>_.
            rbind (fail_if (stack_lock_time > tx_lock_time) UnsatisfiedLockTime) (\<lambda>_.
            rbind (fail_if (sequence_no input = MAX_TX_IN_SEQUENCE_NUM) UnsatisfiedLockTime) (\<lambda>_.
              Ok (vm\<lparr>dstack := st\<rparr>)))))))"

definition op_check_sequence_verify :: "engine \<Rightarrow> result" where
  "op_check_sequence_verify vm =
     (case source vm of
        StandAloneScripts _ \<Rightarrow> Err InvalidSource
      | TxInput tx input _ _ _ \<Rightarrow>
          rbind (pop_raw 1 (dstack vm)) (\<lambda>(xs, st).
            let bytes = xs ! 0; stack_sequence = padded_u64 bytes; vm = vm\<lparr>dstack := st\<rparr> in
            rbind (fail_if (length bytes > 8) NumberTooBig) (\<lambda>_.
              if stack_sequence AND SEQUENCE_LOCK_TIME_DISABLED \<noteq> 0 then Ok vm
              else
                rbind (fail_if (sequence_no input AND SEQUENCE_LOCK_TIME_DISABLED \<noteq> 0) UnsatisfiedLockTime) (\<lambda>_.
                rbind (fail_if (stack_sequence AND SEQUENCE_LOCK_TIME_MASK >
                                sequence_no input AND SEQUENCE_LOCK_TIME_MASK) UnsatisfiedLockTime) (\<lambda>_.
                  Ok vm)))))"

subsection \<open>Introspection\<close>

definition spk_to_bytes :: "script_public_key \<Rightarrow> u8 list" where
  "spk_to_bytes spk = rev (write_u16 (spk_version spk)) @ script spk"

text \<open>\<^verbatim>\<open>usize::try_from(idx).ok()\<close>, and \<^verbatim>\<open>u64\<close> to \<^verbatim>\<open>i64\<close>.\<close>

definition usize_try_from :: "int \<Rightarrow> nat option" where
  "usize_try_from i = (if i < 0 then None else Some (nat i))"

definition u64_to_i64 :: "u64 \<Rightarrow> (int, script_error) outcome" where
  "u64_to_i64 w = ok_or (i64_checked (uint w)) NumberTooBig"

definition op_tx_input_count :: "engine \<Rightarrow> result" where
  "op_tx_input_count vm =
     (case source vm of TxInput tx _ _ _ _ \<Rightarrow> push_number (int (length (inputs (ptx tx)))) vm
      | StandAloneScripts _ \<Rightarrow> Err InvalidSource)"

definition op_tx_output_count :: "engine \<Rightarrow> result" where
  "op_tx_output_count vm =
     (case source vm of TxInput tx _ _ _ _ \<Rightarrow> push_number (int (length (outputs (ptx tx)))) vm
      | StandAloneScripts _ \<Rightarrow> Err InvalidSource)"

definition op_tx_input_index :: "engine \<Rightarrow> result" where
  "op_tx_input_index vm =
     (case source vm of TxInput _ _ idx _ _ \<Rightarrow> push_number (int idx) vm
      | StandAloneScripts _ \<Rightarrow> Err InvalidSource)"

definition op_tx_input_amount :: "engine \<Rightarrow> result" where
  "op_tx_input_amount vm =
     (case source vm of
        TxInput tx _ _ _ _ \<Rightarrow>
          rbind (pop_items 1 deserialize_i32 (dstack vm)) (\<lambda>(xs, st).
            let idx = xs ! 0 in
            rbind (ok_or (Option.bind (usize_try_from idx) (utxo tx))
                     (InvalidInputIndex idx (length (inputs (ptx tx))))) (\<lambda>entry.
            rbind (u64_to_i64 (amount entry)) (\<lambda>n. push_number n (vm\<lparr>dstack := st\<rparr>))))
      | StandAloneScripts _ \<Rightarrow> Err InvalidSource)"

definition op_tx_input_spk :: "engine \<Rightarrow> result" where
  "op_tx_input_spk vm =
     (case source vm of
        TxInput tx _ _ _ _ \<Rightarrow>
          rbind (pop_items 1 deserialize_i32 (dstack vm)) (\<lambda>(xs, st).
            let idx = xs ! 0 in
            rbind (ok_or (Option.bind (usize_try_from idx) (utxo tx))
                     (InvalidInputIndex idx (length (inputs (ptx tx))))) (\<lambda>entry.
            push_data (spk_to_bytes (entry_spk entry)) (vm\<lparr>dstack := st\<rparr>)))
      | StandAloneScripts _ \<Rightarrow> Err InvalidSource)"

definition get_output :: "transaction \<Rightarrow> nat \<Rightarrow> transaction_output option" where
  "get_output tx i = (if i < length (outputs tx) then Some (outputs tx ! i) else None)"

definition op_tx_output_amount :: "engine \<Rightarrow> result" where
  "op_tx_output_amount vm =
     (case source vm of
        TxInput tx _ _ _ _ \<Rightarrow>
          rbind (pop_items 1 deserialize_i32 (dstack vm)) (\<lambda>(xs, st).
            let idx = xs ! 0 in
            rbind (ok_or (Option.bind (usize_try_from idx) (get_output (ptx tx)))
                     (InvalidOutputIndex idx (length (inputs (ptx tx))))) (\<lambda>out.
            rbind (u64_to_i64 (output_value out)) (\<lambda>n. push_number n (vm\<lparr>dstack := st\<rparr>))))
      | StandAloneScripts _ \<Rightarrow> Err InvalidSource)"

definition op_tx_output_spk :: "engine \<Rightarrow> result" where
  "op_tx_output_spk vm =
     (case source vm of
        TxInput tx _ _ _ _ \<Rightarrow>
          rbind (pop_items 1 deserialize_i32 (dstack vm)) (\<lambda>(xs, st).
            let idx = xs ! 0 in
            rbind (ok_or (Option.bind (usize_try_from idx) (get_output (ptx tx)))
                     (InvalidOutputIndex idx (length (inputs (ptx tx))))) (\<lambda>out.
            push_data (spk_to_bytes (output_spk out)) (vm\<lparr>dstack := st\<rparr>)))
      | StandAloneScripts _ \<Rightarrow> Err InvalidSource)"

section \<open>Dispatch\<close>

text \<open>The push opcodes 0x00 to 0x60; 0x50 is reserved.\<close>

definition execute_push :: "opcode \<Rightarrow> engine \<Rightarrow> result" where
  "execute_push op vm =
     (let v = op_value op
      in if v = OpFalse then push_data [] vm
         else if v \<le> OpPushData4 then push_data (op_data op) vm
         else if v = Op1Negate then push_number (- 1) vm
         else if v = 0x50 then Err OpcodeReserved
         else push_number (uint v - 0x50) vm)"

definition reserved_opcodes :: "u8 list" where
  "reserved_opcodes =
     [0x62, 0x65, 0x66, 0x89, 0x8a, 0xb2, 0xb5, 0xb6, 0xb7, 0xb8, 0xba, 0xbb, 0xbc, 0xbd, 0xc0, 0xc1]"

text \<open>The opcodes above 0x60 with a body, in the order of the list.\<close>

definition opcode_table :: "crypto \<Rightarrow> (u8 \<times> (engine \<Rightarrow> result)) list" where
  "opcode_table cr =
     [(0x61, \<lambda>vm. Ok vm), (0x63, op_if), (0x64, op_notif), (0x67, op_else), (0x68, op_endif),
      (0x69, op_verify), (0x6a, \<lambda>vm. Err EarlyReturn), (0x6b, op_to_alt_stack), (0x6c, op_from_alt_stack),
      (0x6d, op_2drop), (0x6e, op_2dup), (0x6f, op_3dup), (0x70, op_2over), (0x71, op_2rot),
      (0x72, op_2swap), (0x73, op_ifdup), (0x74, op_depth), (0x75, op_drop), (0x76, op_dup),
      (0x77, op_nip), (0x78, op_over), (0x79, op_pick), (0x7a, op_roll), (0x7b, op_rot), (0x7c, op_swap),
      (0x7d, op_tuck), (0x82, op_size), (0x87, op_equal), (0x88, op_equal_verify), (0x8b, op_1add),
      (0x8c, op_1sub), (0x8f, op_negate), (0x90, op_abs), (0x91, op_not), (0x92, op_0notequal),
      (0x93, op_add), (0x94, op_sub), (0x9a, op_bool_and), (0x9b, op_bool_or), (0x9c, op_num_equal),
      (0x9d, op_num_equal_verify), (0x9e, op_num_not_equal), (0x9f, op_less_than),
      (0xa0, op_greater_than), (0xa1, op_less_than_or_equal), (0xa2, op_greater_than_or_equal),
      (0xa3, op_min), (0xa4, op_max), (0xa5, op_within), (0xa7, op_check_sig_mldsa cr),
      (0xa8, op_sha256 cr), (0xa9, op_check_multisig_ecdsa cr), (0xaa, op_blake2b cr),
      (0xab, op_check_sig_ecdsa cr), (0xac, op_check_sig cr), (0xad, op_check_sig_verify cr),
      (0xae, op_check_multisig cr), (0xaf, op_check_multisig_verify cr),
      (0xb0, op_check_lock_time_verify), (0xb1, op_check_sequence_verify),
      (0xb3, op_tx_input_count), (0xb4, op_tx_output_count), (0xb9, op_tx_input_index),
      (0xbe, op_tx_input_amount), (0xbf, op_tx_input_spk), (0xc2, op_tx_output_amount),
      (0xc3, op_tx_output_spk)]"

text \<open>\<^verbatim>\<open>OpCodeExecution::execute\<close>; a number without an entry is disabled, reserved or invalid.\<close>

definition execute_op :: "crypto \<Rightarrow> opcode \<Rightarrow> engine \<Rightarrow> result" where
  "execute_op cr op vm =
     (if is_push_opcode op then execute_push op vm
      else case map_of (opcode_table cr) (op_value op) of
             Some handler \<Rightarrow> handler vm
           | None \<Rightarrow> if is_disabled op then Err OpcodeDisabled
                     else if op_value op \<in> set reserved_opcodes then Err OpcodeReserved
                     else Err InvalidOpcode)"

section \<open>Execution\<close>

definition execute_opcode :: "crypto \<Rightarrow> opcode \<Rightarrow> engine \<Rightarrow> result" where
  "execute_opcode cr op vm =
     rbind (if \<not> is_push_opcode op
            then rbind (expect (if in_i32 (num_ops vm + 1) then Some (num_ops vm + 1) else None)) (\<lambda>n.
                   if n > MAX_OPS_PER_SCRIPT then Err (TooManyOperations MAX_OPS_PER_SCRIPT)
                   else Ok (vm\<lparr>num_ops := n\<rparr>))
            else if op_len op > MAX_SCRIPT_ELEMENT_SIZE
            then Err (ElementTooBig (op_len op) MAX_SCRIPT_ELEMENT_SIZE)
            else Ok vm) (\<lambda>vm.
       if is_executing vm \<or> is_conditional op
       then rbind (if 0 < op_value op \<and> op_value op \<le> OpPushData4 then check_minimal_data_push op else Ok ())
              (\<lambda>_. execute_op cr op vm)
       else Ok vm)"

text \<open>One turn of the loop of \<^verbatim>\<open>execute_script\<close>.\<close>

definition execute_item ::
    "crypto \<Rightarrow> bool \<Rightarrow> (opcode, script_error) outcome \<Rightarrow> engine \<Rightarrow> result" where
  "execute_item cr verify_only_push item vm =
     rbind item (\<lambda>op.
     rbind (fail_if (is_disabled op) OpcodeDisabled) (\<lambda>_.
     rbind (fail_if (always_illegal op) OpcodeReserved) (\<lambda>_.
     rbind (fail_if (verify_only_push \<and> \<not> is_push_opcode op) SignatureScriptNotPushOnly) (\<lambda>_.
     rbind (execute_opcode cr op vm) (\<lambda>vm'.
       let combined_size = length (astack vm') + length (dstack vm')
       in if combined_size > MAX_STACK_SIZE then Err (StackSizeExceeded combined_size MAX_STACK_SIZE)
          else Ok vm')))))"

definition execute_script :: "crypto \<Rightarrow> u8 list \<Rightarrow> bool \<Rightarrow> engine \<Rightarrow> result" where
  "execute_script cr s verify_only_push vm =
     rbind (rfold (execute_item cr verify_only_push) (parse_script s) vm) (\<lambda>vm'.
       if cond_stack vm' \<noteq> [] then Err ErrUnbalancedConditional
       else Ok (vm'\<lparr>astack := [], num_ops := 0\<rparr>))"

definition check_error_condition :: "bool \<Rightarrow> engine \<Rightarrow> result" where
  "check_error_condition final_script vm =
     rbind (if final_script
            then (if length (dstack vm) > 1
                  then rbind (usize_sub (length (dstack vm)) 1) (\<lambda>n. Err (CleanStack n))
                  else if dstack vm = [] then Err EmptyStack else Ok ())
            else Ok ()) (\<lambda>_.
     rbind (pop_bool vm) (\<lambda>(v, vm'). if v then Ok vm' else Err EvalFalse))"

definition execute_stealth_spend ::
    "crypto \<Rightarrow> populated_tx \<Rightarrow> nat \<Rightarrow> transaction_input \<Rightarrow> utxo_entry \<Rightarrow> engine \<Rightarrow> result" where
  "execute_stealth_spend cr tx input_idx input entry vm =
     (let scr = script (entry_spk entry); sig_script = signature_script input in
      rbind (fail_if (length scr \<noteq> STEALTH_OUTPUT_SIZE) PubKeyFormat) (\<lambda>_.
      rbind (slice_at scr 0 33) (\<lambda>r_bytes.
      rbind (of_sum (\<lambda>_. PubKeyFormat) (pubkey_from_slice cr r_bytes)) (\<lambda>_.
      rbind (slice_at scr 34 66) (\<lambda>p_dest_bytes.
      rbind (of_sum (\<lambda>_. PubKeyFormat) (xonly_from_slice cr p_dest_bytes)) (\<lambda>pk.
      rbind (fail_if (length sig_script < 65) (SigLength (length sig_script))) (\<lambda>_.
      rbind (fail_if (length sig_script > MAX_SCRIPT_ELEMENT_SIZE)
               (ElementTooBig (length sig_script) MAX_SCRIPT_ELEMENT_SIZE)) (\<lambda>_.
      rbind (usize_sub (length sig_script) 65) (\<lambda>sig_offset.
      rbind (slice_at sig_script 0 sig_offset) (\<lambda>_.
      rbind (slice_at sig_script sig_offset (sig_offset + 64)) (\<lambda>sig_bytes.
      rbind (index_at sig_script (sig_offset + 64)) (\<lambda>hash_type_byte.
      rbind (ok_or (sighash_from_u8 hash_type_byte) (InvalidSigHashType hash_type_byte)) (\<lambda>hash_type.
      rbind (of_sum InvalidSignature (schnorr_from_slice cr sig_bytes)) (\<lambda>sg.
      rbind (calc_schnorr_signature_hash cr tx input_idx hash_type (reused_values vm)) (\<lambda>(msg, rv).
      rbind (consume_sig_op (counter vm)) (\<lambda>c.
        case cached_verify cr \<lparr>key_sig = SigSecp256k1 sg, key_pub = KeySchnorr pk, key_msg = msg\<rparr>
               (schnorr_verify cr sg msg pk) (vm\<lparr>reused_values := rv, counter := c\<rparr>) of
          (valid, vm') \<Rightarrow> if valid then Ok vm' else Err EvalFalse))))))))))))))))"

text \<open>The redeem script of a pay-to-script-hash output, on the stack saved before its hash check.\<close>

definition execute_p2sh :: "crypto \<Rightarrow> stack option \<Rightarrow> engine \<Rightarrow> result" where
  "execute_p2sh cr saved_stack vm =
     rbind (check_error_condition False vm) (\<lambda>vm.
     rbind (ok_or saved_stack EmptyStack) (\<lambda>st.
     rbind (fail_if (st = []) EmptyStack) (\<lambda>_.
       execute_script cr (last st) False (vm\<lparr>dstack := butlast st\<rparr>))))"

text \<open>One turn of the loop over the scripts of \<^verbatim>\<open>execute\<close>.\<close>

definition script_turn ::
    "crypto \<Rightarrow> bool \<Rightarrow> bool \<Rightarrow> nat \<times> u8 list \<Rightarrow> stack option \<times> engine \<Rightarrow>
     (stack option \<times> engine, script_error) outcome" where
  "script_turn cr is_p2sh from_input = (\<lambda>(idx, s) (saved, vm).
     let saved' = (if is_p2sh \<and> idx = 1 then Some (dstack vm) else saved) in
     rbind (execute_script cr s (idx = 0 \<and> from_input) vm) (\<lambda>vm'. Ok (saved', vm')))"

text \<open>The body of \<^verbatim>\<open>execute\<close> after the source has been matched.\<close>

definition execute_scripts :: "crypto \<Rightarrow> u8 list list \<Rightarrow> bool \<Rightarrow> bool \<Rightarrow> engine \<Rightarrow> result" where
  "execute_scripts cr scripts is_p2sh from_input vm =
     rbind (fail_if (scripts = []) NoScripts) (\<lambda>_.
     rbind (fail_if (list_all (\<lambda>s. s = []) scripts) EvalFalse) (\<lambda>_.
     rbind (case find (\<lambda>s. length s > MAX_SCRIPTS_SIZE) scripts of
              Some s \<Rightarrow> Err (ScriptSize (length s) MAX_SCRIPTS_SIZE) | None \<Rightarrow> Ok ()) (\<lambda>_.
     rbind (rfold (script_turn cr is_p2sh from_input)
              (filter (\<lambda>(idx, s). s \<noteq> []) (enumerate 0 scripts)) (None, vm)) (\<lambda>(saved_stack, vm).
     rbind (if is_p2sh then execute_p2sh cr saved_stack vm else Ok vm) (check_error_condition True)))))"

definition execute :: "crypto \<Rightarrow> engine \<Rightarrow> result" where
  "execute cr vm =
     (case source vm of
        TxInput tx input idx entry is_p2sh \<Rightarrow>
          (let v = spk_version (entry_spk entry)
           in if v = STEALTH_SCRIPT_VERSION then execute_stealth_spend cr tx idx input entry vm
              else if v > MAX_SCRIPT_PUBLIC_KEY_VERSION then Ok vm
              else execute_scripts cr [signature_script input, script (entry_spk entry)] is_p2sh True vm)
      | StandAloneScripts scripts \<Rightarrow> execute_scripts cr scripts False False vm)"

definition get_sig_op_count :: "crypto \<Rightarrow> populated_tx \<Rightarrow> nat \<Rightarrow> (u8, script_error) outcome" where
  "get_sig_op_count cr tx input_idx =
     rbind (ok_or (utxo tx input_idx) (InvalidInputIndex (sint (of_nat input_idx :: u32)) (length (inputs (ptx tx))))) (\<lambda>entry.
       if spk_version (entry_spk entry) = STEALTH_SCRIPT_VERSION then Ok 1
       else rbind (index_at (inputs (ptx tx)) input_idx) (\<lambda>input.
            rbind (from_transaction_input tx input input_idx entry new_reused_values (new_cache 0)) (\<lambda>vm.
            rbind (execute cr vm) used_sig_ops)))"

end
