(* ===== verification/Script_Safety.thy ===== *)
theory Script_Safety
  imports Script_Engine
begin

text \<open>
  Safety of the script engine: no execution panics, and neither the signature cache nor the
  reused hashes have an influence on the outcome.

  Both follow from one relation. Two engine states agree when they differ at most in their
  caches and both caches are sound; every opcode takes states that agree to outcomes that
  agree, and a panic agrees with nothing.
\<close>

section \<open>Sound caches\<close>

text \<open>What the verifier answers for a cache key.\<close>

fun key_verifies :: "crypto \<Rightarrow> signature_value \<Rightarrow> public_key_value \<Rightarrow> hash \<Rightarrow> bool" where
  "key_verifies cr (SigSecp256k1 s) (KeySchnorr k) m = schnorr_verify cr s m k"
| "key_verifies cr (SigEcdsa s) (KeyEcdsa k) m = ecdsa_verify cr s m k"
| "key_verifies cr _ _ m = False"

definition cache_answer :: "crypto \<Rightarrow> sig_cache_key \<Rightarrow> bool" where
  "cache_answer cr k = key_verifies cr (key_sig k) (key_pub k) (key_msg k)"

definition cache_sound :: "crypto \<Rightarrow> sig_cache \<Rightarrow> bool" where
  "cache_sound cr c = (\<forall>(k, d)\<in>set (cache_map c). d = cache_answer cr k)"

text \<open>
  The contract a verification cache gives the engine: a hit is the answer of the verifier,
  and a lookup or an insertion of a correct answer keeps the cache sound.
\<close>

locale answer_cache =
  fixes get :: "'c \<Rightarrow> 'k \<Rightarrow> 'v option \<times> 'c"
    and ins :: "'c \<Rightarrow> 'k \<Rightarrow> 'v \<Rightarrow> 'c"
    and answer :: "'k \<Rightarrow> 'v"
    and sound :: "'c \<Rightarrow> bool"
  assumes get_hit: "sound c \<Longrightarrow> get c k = (Some v, c') \<Longrightarrow> v = answer k"
    and get_sound: "sound c \<Longrightarrow> get c k = (r, c') \<Longrightarrow> sound c'"
    and ins_sound: "sound c \<Longrightarrow> sound (ins c k (answer k))"
begin

lemma lookup_answer:
  assumes "sound c"
  shows "case get c k of (Some d, c') \<Rightarrow> d = answer k \<and> sound c'
    | (None, c') \<Rightarrow> sound (ins c' k (answer k))"
  using assms get_hit get_sound ins_sound by (auto split: prod.splits option.splits)

end

lemma set_swap_remove_index: "set (swap_remove_index i m) \<subseteq> set m"
proof (cases "i < length m")
  case True
  have "set (m[i := last m]) \<subseteq> insert (last m) (set m)" by (simp add: set_update_subset_insert)
  moreover have "last m \<in> set m" using True by (cases m rule: rev_cases) auto
  ultimately have "set (butlast (m[i := last m])) \<subseteq> set m" by (auto dest: in_set_butlastD)
  with True show ?thesis by (simp add: swap_remove_index_def)
qed (simp add: swap_remove_index_def)

lemma set_update_subset: "set (AList.update k d m) \<subseteq> insert (k, d) (set m)"
  by (induction m) auto

interpretation vc: answer_cache cache_get "cache_insert cr" "cache_answer cr" "cache_sound cr" for cr
proof
  fix c k v c'
  assume "cache_sound cr c" and "cache_get c k = (Some v, c')"
  then show "v = cache_answer cr k"
    by (auto simp: cache_get_def cache_sound_def split: option.splits dest!: map_of_SomeD)
next
  fix c k r c'
  assume "cache_sound cr c" and "cache_get c k = (r, c')"
  then show "cache_sound cr c'"
    by (auto simp: cache_get_def cache_sound_def split: option.splits)
next
  fix c k
  assume "cache_sound cr c"
  then show "cache_sound cr (cache_insert cr c k (cache_answer cr k))"
    using set_update_subset [of k "cache_answer cr k"] set_swap_remove_index
    by (fastforce simp: cache_insert_def cache_sound_def Let_def)
qed

section \<open>States that agree\<close>

definition source_ok :: "script_source \<Rightarrow> bool" where
  "source_ok src =
     (case src of TxInput tx _ idx _ _ \<Rightarrow> idx < length (inputs (ptx tx)) \<and> idx < length (entries tx)
      | StandAloneScripts _ \<Rightarrow> True)"

definition reused_ok :: "crypto \<Rightarrow> script_source \<Rightarrow> sighash_reused_values \<Rightarrow> bool" where
  "reused_ok cr src rv =
     (case src of TxInput tx _ _ _ _ \<Rightarrow> reused_sound cr (ptx tx) rv | StandAloneScripts _ \<Rightarrow> True)"

text \<open>The invariant of the engine.\<close>

definition state_ok :: "crypto \<Rightarrow> engine \<Rightarrow> bool" where
  "state_ok cr vm =
     (source_ok (source vm) \<and> reused_ok cr (source vm) (reused_values vm) \<and>
      cache_sound cr (sig_cache_of vm) \<and> 0 \<le> num_ops vm \<and> num_ops vm \<le> MAX_OPS_PER_SCRIPT \<and>
      sig_op_remaining (counter vm) \<le> sig_op_limit (counter vm))"

definition core :: "engine \<Rightarrow> engine" where
  "core vm = vm\<lparr>reused_values := new_reused_values, sig_cache_of := new_cache 0\<rparr>"

definition agree :: "crypto \<Rightarrow> script_source \<Rightarrow> engine \<Rightarrow> engine \<Rightarrow> bool" where
  "agree cr src a b = (state_ok cr a \<and> state_ok cr b \<and> core a = core b \<and> source a = src)"

definition respectful :: "crypto \<Rightarrow> (engine \<Rightarrow> result) \<Rightarrow> bool" where
  "respectful cr f = (\<forall>src a b. agree cr src a b \<longrightarrow> rel_out (agree cr src) (f a) (f b))"

lemma core_fields [simp]:
  "dstack (core a) = dstack a" "astack (core a) = astack a" "source (core a) = source a"
  "cond_stack (core a) = cond_stack a" "num_ops (core a) = num_ops a" "counter (core a) = counter a"
  by (simp_all add: core_def)

lemma core_eq_iff:
  "core a = core b \<longleftrightarrow> dstack a = dstack b \<and> astack a = astack b \<and> source a = source b \<and>
     cond_stack a = cond_stack b \<and> num_ops a = num_ops b \<and> counter a = counter b"
proof
  assume "core a = core b"
  then show "dstack a = dstack b \<and> astack a = astack b \<and> source a = source b \<and>
     cond_stack a = cond_stack b \<and> num_ops a = num_ops b \<and> counter a = counter b"
    by (metis core_fields)
qed (auto simp: core_def intro: engine.equality)

lemma agreeD:
  assumes "agree cr src a b"
  shows "dstack b = dstack a" "astack b = astack a" "source b = source a" "cond_stack b = cond_stack a"
    "num_ops b = num_ops a" "counter b = counter a" "is_executing b = is_executing a"
  using assms by (auto simp: agree_def core_eq_iff is_executing_def)

lemma agree_updates [intro]:
  assumes "agree cr src a b"
  shows "agree cr src (a\<lparr>dstack := st\<rparr>) (b\<lparr>dstack := st\<rparr>)"
    "agree cr src (a\<lparr>astack := st\<rparr>) (b\<lparr>astack := st\<rparr>)"
    "agree cr src (a\<lparr>cond_stack := cs\<rparr>) (b\<lparr>cond_stack := cs\<rparr>)"
    "0 \<le> n \<Longrightarrow> n \<le> MAX_OPS_PER_SCRIPT \<Longrightarrow> agree cr src (a\<lparr>num_ops := n\<rparr>) (b\<lparr>num_ops := n\<rparr>)"
    "sig_op_remaining c \<le> sig_op_limit c \<Longrightarrow> agree cr src (a\<lparr>counter := c\<rparr>) (b\<lparr>counter := c\<rparr>)"
  using assms by (auto simp: agree_def state_ok_def core_eq_iff)

lemma agree_refl: "state_ok cr a \<Longrightarrow> agree cr (source a) a a"
  by (simp add: agree_def)

lemma respectsI: "(\<And>src a b. agree cr src a b \<Longrightarrow> rel_out (agree cr src) (f a) (f b)) \<Longrightarrow> respectful cr f"
  by (simp add: respectful_def)

lemma respectsD: "respectful cr f \<Longrightarrow> agree cr src a b \<Longrightarrow> rel_out (agree cr src) (f a) (f b)"
  by (simp add: respectful_def)

lemma respects_bind:
  "respectful cr f \<Longrightarrow> respectful cr g \<Longrightarrow> respectful cr (\<lambda>vm. rbind (f vm) g)"
  unfolding respectful_def by (blast intro: rel_out_bind)

section \<open>Data stack opcodes\<close>

lemma respects_on_dstack: "(\<And>st. f st \<noteq> Panic) \<Longrightarrow> respectful cr (on_dstack f)"
  unfolding on_dstack_def
  by (intro respectsI) (auto simp: agreeD intro!: rel_out_same)

named_theorems no_panic \<open>stack functions that do not panic\<close>

lemma pops_no_panic [no_panic]:
  "pop_items n deserialize_num st \<noteq> Panic" "pop_items n deserialize_i32 st \<noteq> Panic"
  "pop_items n deserialize_bool st \<noteq> Panic" "pop_raw n st \<noteq> Panic" "peek_raw n st \<noteq> Panic"
  "push_item serialize_num k st \<noteq> Panic" "push_item serialize_bool b st \<noteq> Panic"
  "drop_items n st \<noteq> Panic" "dup_items n st \<noteq> Panic" "over_items n st \<noteq> Panic"
  "rot_items n st \<noteq> Panic" "swap_items n st \<noteq> Panic"
  by (simp_all add: pop_items_no_panic push_item_no_panic pop_raw_eq peek_raw_eq drop_items_eq
      dup_items_eq over_items_eq rot_items_eq swap_items_eq)

lemma guarded_split_no_panic [no_panic]:
  "(if n \<le> length st then rbind (usize_sub (length st) n) (split_off st) else Err e) \<noteq> Panic"
  by simp

lemma respects_num_unary: "(\<And>x. f x \<noteq> Panic) \<Longrightarrow> respectful cr (num_unary f)"
  unfolding num_unary_def
  by (rule respects_on_dstack) (auto simp: rbind_Panic_iff no_panic split: prod.splits)

lemma respects_num_binary: "(\<And>x y. f x y \<noteq> Panic) \<Longrightarrow> respectful cr (num_binary f)"
  unfolding num_binary_def
  by (rule respects_on_dstack) (auto simp: rbind_Panic_iff no_panic split: prod.splits)

lemmas number_opcodes =
  op_1add_def op_1sub_def op_negate_def op_abs_def op_not_def op_0notequal_def op_add_def op_sub_def
  op_bool_and_def op_bool_or_def op_num_equal_def op_num_not_equal_def op_less_than_def
  op_greater_than_def op_less_than_or_equal_def op_greater_than_or_equal_def op_min_def op_max_def

lemma respects_numbers:
  "respectful cr op_1add" "respectful cr op_1sub" "respectful cr op_negate" "respectful cr op_abs"
  "respectful cr op_not" "respectful cr op_0notequal" "respectful cr op_add" "respectful cr op_sub"
  "respectful cr op_bool_and" "respectful cr op_bool_or" "respectful cr op_num_equal"
  "respectful cr op_num_not_equal" "respectful cr op_less_than" "respectful cr op_greater_than"
  "respectful cr op_less_than_or_equal" "respectful cr op_greater_than_or_equal"
  "respectful cr op_min" "respectful cr op_max"
  unfolding number_opcodes num_compare_def
  by (rule respects_num_unary respects_num_binary, simp add: ok_or_iff)+

text \<open>The opcodes that index the stack themselves: their guards keep every access in range.\<close>

lemma rbind_no_panic: "m \<noteq> Panic \<Longrightarrow> (\<And>x. f x \<noteq> Panic) \<Longrightarrow> rbind m f \<noteq> Panic"
  by (simp add: rbind_Panic_iff)

lemma respects_reorder:
  "respectful cr op_nip" "respectful cr op_tuck" "respectful cr op_equal" "respectful cr op_equal_verify"
  unfolding op_nip_def op_tuck_def op_equal_def op_equal_verify_def
  by (rule respects_on_dstack, auto simp: slice_last_def split: if_splits)+

lemma respects_pick_roll: "respectful cr op_pick" "respectful cr op_roll"
  unfolding op_pick_def op_roll_def
  by (rule respects_on_dstack, rule rbind_no_panic [OF pops_no_panic(2)],
      auto simp: Let_def split: prod.splits if_splits)+

lemmas stack_opcodes =
  op_2drop_def op_2dup_def op_3dup_def op_2over_def op_2rot_def op_2swap_def op_ifdup_def
  op_drop_def op_dup_def op_over_def op_rot_def op_swap_def op_size_def op_num_equal_verify_def
  op_within_def op_sha256_def op_blake2b_def

lemma respects_stack:
  "respectful cr op_2drop" "respectful cr op_2dup" "respectful cr op_3dup" "respectful cr op_2over"
  "respectful cr op_2rot" "respectful cr op_2swap" "respectful cr op_ifdup" "respectful cr op_drop"
  "respectful cr op_dup" "respectful cr op_over" "respectful cr op_rot" "respectful cr op_swap"
  "respectful cr op_size" "respectful cr op_num_equal_verify" "respectful cr op_within"
  "respectful cr (op_sha256 c)" "respectful cr (op_blake2b c)"
  unfolding stack_opcodes
  by (rule respects_on_dstack,
      auto simp: rbind_Panic_iff no_panic ok_or_iff Let_def split: prod.splits if_splits)+

section \<open>Control, lock time and introspection opcodes\<close>

lemma pop_bool_rel:
  "agree cr src a b \<Longrightarrow> rel_out (\<lambda>(x, a') (y, b'). x = y \<and> agree cr src a' b') (pop_bool a) (pop_bool b)"
  unfolding pop_bool_def by (auto simp: agreeD no_panic intro!: rel_out_same)

lemma respects_verify_top: "respectful cr verify_top"
  unfolding verify_top_def
  by (intro respectsI rel_out_bind [OF pop_bool_rel]) auto

lemma pop_cond_rel:
  "agree cr src a b \<Longrightarrow>
   rel_out (\<lambda>(x, a') (y, b'). x = y \<and> agree cr src a' b') (pop_cond p q a) (pop_cond p q b)"
  by (auto simp: pop_cond_def Let_def agreeD)

lemma agree_push_cond:
  "agree cr src a b \<Longrightarrow> agree cr src (a\<lparr>cond_stack := cond_stack a @ [c]\<rparr>) (b\<lparr>cond_stack := cond_stack b @ [c]\<rparr>)"
  using agree_updates(3) [of cr _ a b "cond_stack a @ [c]"] by (simp add: agreeD(4))

lemma respects_control:
  "respectful cr op_if" "respectful cr op_notif" "respectful cr op_else" "respectful cr op_endif"
  "respectful cr op_verify" "respectful cr op_to_alt_stack" "respectful cr op_from_alt_stack"
proof -
  show "respectful cr op_if" "respectful cr op_notif"
    unfolding op_if_def op_notif_def
    by (intro respectsI rel_out_bind [OF pop_cond_rel]; auto intro: agree_push_cond)+
  show "respectful cr op_else" "respectful cr op_endif"
    by (auto simp: op_else_def op_endif_def agreeD intro!: respectsI)
  show "respectful cr op_verify" by (simp add: op_verify_def respects_verify_top)
  show "respectful cr op_to_alt_stack"
    unfolding op_to_alt_stack_def
    by (intro respectsI) (auto simp: agreeD no_panic intro!: rel_out_same agree_updates)
  show "respectful cr op_from_alt_stack"
    by (auto simp: op_from_alt_stack_def agreeD intro!: respectsI agree_updates)
qed

lemma respects_push: "respectful cr (push_data d)" "respectful cr (push_number n)"
  by (auto simp: push_data_def push_number_def agreeD no_panic intro!: respectsI
      respectsD [OF respects_on_dstack])

lemma respects_depth: "respectful cr op_depth"
  unfolding op_depth_def by (intro respectsI) (auto simp: agreeD intro!: respectsD [OF respects_push(2)])

lemma respects_lock_time:
  "respectful cr op_check_lock_time_verify" "respectful cr op_check_sequence_verify"
  unfolding op_check_lock_time_verify_def op_check_sequence_verify_def
  by (intro respectsI; auto simp: agreeD no_panic fail_if_iff Let_def split: script_source.split
      intro!: rel_out_same agree_updates)+

lemma respects_introspection:
  "respectful cr op_tx_input_count" "respectful cr op_tx_output_count" "respectful cr op_tx_input_index"
  "respectful cr op_tx_input_amount" "respectful cr op_tx_input_spk" "respectful cr op_tx_output_amount"
  "respectful cr op_tx_output_spk"
  unfolding op_tx_input_count_def op_tx_output_count_def op_tx_input_index_def op_tx_input_amount_def
    op_tx_input_spk_def op_tx_output_amount_def op_tx_output_spk_def u64_to_i64_def
  by (intro respectsI; auto simp: agreeD no_panic ok_or_iff Let_def split: script_source.split
      intro!: rel_out_same respectsD [OF respects_push(1)] respectsD [OF respects_push(2)])+

section \<open>Signature opcodes\<close>

lemma cached_verify_agree:
  assumes "agree cr src a b" and "verified = cache_answer cr k"
  shows "\<exists>a' b'. cached_verify cr k verified a = (verified, a') \<and> cached_verify cr k verified b = (verified, b') \<and>
    agree cr src a' b'"
proof -
  have one: "\<exists>c. cached_verify cr k verified vm = (verified, vm\<lparr>sig_cache_of := c\<rparr>) \<and> cache_sound cr c"
    if "state_ok cr vm" for vm
    using vc.lookup_answer [of cr "sig_cache_of vm" k] that assms(2)
    by (auto simp: cached_verify_def state_ok_def split: prod.splits option.splits)
  from assms(1) obtain c d where "cached_verify cr k verified a = (verified, a\<lparr>sig_cache_of := c\<rparr>)"
    "cached_verify cr k verified b = (verified, b\<lparr>sig_cache_of := d\<rparr>)" "cache_sound cr c" "cache_sound cr d"
    using one [of a] one [of b] by (auto simp: agree_def)
  moreover have "agree cr src (a\<lparr>sig_cache_of := c\<rparr>) (b\<lparr>sig_cache_of := d\<rparr>)"
    using assms(1) \<open>cache_sound cr c\<close> \<open>cache_sound cr d\<close> by (auto simp: agree_def state_ok_def core_eq_iff)
  ultimately show ?thesis by blast
qed

lemma consume_sig_op_Ok:
  "consume_sig_op c = Ok c' \<Longrightarrow> sig_op_limit c' = sig_op_limit c \<and>
     unat (sig_op_remaining c) = unat (sig_op_remaining c') + 1"
  by (auto simp: consume_sig_op_def outcome_simps checked_sub_Some_iff)

lemma consume_sig_op_keeps:
  "consume_sig_op c = Ok c' \<Longrightarrow> sig_op_remaining c \<le> sig_op_limit c \<Longrightarrow> sig_op_remaining c' \<le> sig_op_limit c'"
  by (drule consume_sig_op_Ok) (simp add: word_le_nat_alt)

lemma consume_sig_op_no_panic [no_panic]: "consume_sig_op c \<noteq> Panic"
  by (simp add: consume_sig_op_def rbind_Panic_iff ok_or_iff)

lemma of_sum_no_panic [no_panic]: "of_sum f x \<noteq> Panic"
  by (simp add: of_sum_def split: sum.split)

text \<open>Both runs compute the same signature hash, whatever their stores of reused values hold.\<close>

lemma sighash_agree:
  assumes "agree cr src a b" and "source a = TxInput tx inp idx entry p2sh"
  shows "rel_out (\<lambda>(h, r) (h', r'). h = h' \<and> h = sighash cr tx idx ht \<and>
      agree cr src (a\<lparr>reused_values := r\<rparr>) (b\<lparr>reused_values := r'\<rparr>))
    (calc_schnorr_signature_hash cr tx idx ht (reused_values a))
    (calc_schnorr_signature_hash cr tx idx ht (reused_values b))"
proof -
  have ok: "idx < length (inputs (ptx tx))" "idx < length (entries tx)"
    "reused_sound cr (ptx tx) (reused_values a)" "reused_sound cr (ptx tx) (reused_values b)"
    using assms agreeD(3) [OF assms(1)]
    by (auto simp: agree_def state_ok_def source_ok_def reused_ok_def)
  obtain r where "calc_schnorr_signature_hash cr tx idx ht (reused_values a) = Ok (sighash cr tx idx ht, r)"
    and r: "reused_sound cr (ptx tx) r"
    using calc_schnorr_signature_hash_eq [OF ok(3,1,2)] by blast
  moreover obtain r' where "calc_schnorr_signature_hash cr tx idx ht (reused_values b) = Ok (sighash cr tx idx ht, r')"
    and r': "reused_sound cr (ptx tx) r'"
    using calc_schnorr_signature_hash_eq [OF ok(4,1,2)] by blast
  moreover have "agree cr src (a\<lparr>reused_values := r\<rparr>) (b\<lparr>reused_values := r'\<rparr>)"
    using assms(1) r r' agreeD(3) [OF assms(1)] assms(2) [symmetric]
    by (auto simp: agree_def state_ok_def core_eq_iff reused_ok_def split: script_source.splits)
  ultimately show ?thesis by simp
qed

text \<open>A signature check: both runs give the same answer and states that agree.\<close>

definition same_answer :: "crypto \<Rightarrow> script_source \<Rightarrow> bool \<times> engine \<Rightarrow> bool \<times> engine \<Rightarrow> bool" where
  "same_answer cr src p q = (fst p = fst q \<and> agree cr src (snd p) (snd q))"

lemma cached_verify_same:
  "agree cr src a b \<Longrightarrow> v = cache_answer cr k \<Longrightarrow>
   same_answer cr src (cached_verify cr k v a) (cached_verify cr k v b)"
  using cached_verify_agree [of cr src a b v k] by (auto simp: same_answer_def)

text \<open>The common shape of the three checks: one sig-op, pure tests, the signature hash, the answer.\<close>

lemma check_shape:
  assumes "agree cr src a b"
    and "\<And>a b tx inp idx entry p. agree cr src a b \<Longrightarrow> source a = TxInput tx inp idx entry p \<Longrightarrow>
      rel_out (same_answer cr src) (f tx idx a) (f tx idx b)"
  shows "rel_out (same_answer cr src)
    (rbind (consume_sig_op (counter a)) (\<lambda>c. let vm = a\<lparr>counter := c\<rparr> in
      case source vm of TxInput tx _ idx _ _ \<Rightarrow> f tx idx vm | StandAloneScripts _ \<Rightarrow> Err NotATransactionInput))
    (rbind (consume_sig_op (counter b)) (\<lambda>c. let vm = b\<lparr>counter := c\<rparr> in
      case source vm of TxInput tx _ idx _ _ \<Rightarrow> f tx idx vm | StandAloneScripts _ \<Rightarrow> Err NotATransactionInput))"
proof -
  have "agree cr src (a\<lparr>counter := c\<rparr>) (b\<lparr>counter := c\<rparr>)" if "consume_sig_op (counter a) = Ok c" for c
  proof -
    have "sig_op_remaining (counter a) \<le> sig_op_limit (counter a)"
      using assms(1) by (simp add: agree_def state_ok_def)
    with that have "sig_op_remaining c \<le> sig_op_limit c" by (rule consume_sig_op_keeps)
    with assms(1) show ?thesis by (rule agree_updates(5))
  qed
  then show ?thesis
    using assms(2) unfolding agreeD(6) [OF assms(1)] Let_def
    by (auto simp: agreeD(3) [OF assms(1)] no_panic intro!: rel_out_same split: script_source.split)
qed

lemma key_encoding_no_panic [no_panic]:
  "check_pub_key_encoding k \<noteq> Panic" "check_pub_key_encoding_ecdsa k \<noteq> Panic"
  "map_err f (public_key_from_bytes b l) \<noteq> Panic" "map_err f (signature_from_bytes b l) \<noteq> Panic"
  by (auto simp: check_pub_key_encoding_def check_pub_key_encoding_ecdsa_def map_err_def split: outcome.splits)

lemma ecdsa_hash_agree:
  assumes "agree cr src a b" and "source a = TxInput tx inp idx entry p2sh"
  shows "rel_out (\<lambda>(h, r) (h', r'). h = h' \<and> agree cr src (a\<lparr>reused_values := r\<rparr>) (b\<lparr>reused_values := r'\<rparr>))
    (calc_ecdsa_signature_hash cr tx idx ht (reused_values a))
    (calc_ecdsa_signature_hash cr tx idx ht (reused_values b))"
  unfolding calc_ecdsa_signature_hash_def
  by (rule rel_out_bind [OF sighash_agree [OF assms]]) auto

lemma check_schnorr_agree:
  assumes "agree cr src a b"
  shows "rel_out (same_answer cr src) (check_schnorr_signature cr ht key sg a) (check_schnorr_signature cr ht key sg b)"
  unfolding check_schnorr_signature_def
  by (rule check_shape [OF assms], (rule rel_out_same, simp_all add: no_panic fail_if_iff)+,
      rule rel_out_bind [OF sighash_agree], assumption+)
    (auto intro!: cached_verify_same simp: cache_answer_def)

lemma check_ecdsa_agree:
  assumes "agree cr src a b"
  shows "rel_out (same_answer cr src) (check_ecdsa_signature cr ht key sg a) (check_ecdsa_signature cr ht key sg b)"
  unfolding check_ecdsa_signature_def
  by (rule check_shape [OF assms], (rule rel_out_same, simp_all add: no_panic fail_if_iff)+,
      rule rel_out_bind [OF ecdsa_hash_agree], assumption+)
    (auto intro!: cached_verify_same simp: cache_answer_def)

lemma check_mldsa_agree:
  assumes "agree cr src a b"
  shows "rel_out (same_answer cr src) (check_mldsa_signature cr ht key sg a) (check_mldsa_signature cr ht key sg b)"
  unfolding check_mldsa_signature_def
  by (rule check_shape [OF assms], (rule rel_out_same, simp_all add: no_panic fail_if_iff)+,
      rule rel_out_bind [OF sighash_agree], assumption+) (auto simp: same_answer_def)

lemma multisig_advance_agree:
  assumes "agree cr src a b" and "0 < need"
  shows "rel_out (\<lambda>p q. fst p = fst q \<and> agree cr src (snd p) (snd q))
    (multisig_advance cr ecdsa ht sg need keys a) (multisig_advance cr ecdsa ht sg need keys b)"
  using assms
proof (induction keys arbitrary: a b)
  case Nil
  then show ?case by (simp add: multisig_advance.simps)
next
  case (Cons k keys)
  have "rel_out (same_answer cr src)
      (if ecdsa then check_ecdsa_signature cr ht k sg a else check_schnorr_signature cr ht k sg a)
      (if ecdsa then check_ecdsa_signature cr ht k sg b else check_schnorr_signature cr ht k sg b)"
    using check_ecdsa_agree check_schnorr_agree Cons.prems(1) by simp
  with Cons show ?case
    by (subst (1 2) multisig_advance.simps)
      (auto simp: same_answer_def intro!: rel_out_bind [where R = "same_answer cr src"])
qed

lemma same_answerI: "agree cr src a b \<Longrightarrow> same_answer cr src (v, a) (v, b)"
  by (simp add: same_answer_def)

lemma multisig_loop_agree:
  assumes "agree cr src a b"
  shows "rel_out (same_answer cr src) (multisig_loop cr ecdsa sigs keys a) (multisig_loop cr ecdsa sigs keys b)"
  using assms
proof (induction sigs arbitrary: keys a b)
  case (Cons s sigs)
  have "rel_out (same_answer cr src)
      (case p of (left, vm') \<Rightarrow> case left of None \<Rightarrow> Ok (True, vm') | Some rest \<Rightarrow> multisig_loop cr ecdsa sigs rest vm')
      (case q of (left, vm') \<Rightarrow> case left of None \<Rightarrow> Ok (True, vm') | Some rest \<Rightarrow> multisig_loop cr ecdsa sigs rest vm')"
    if "fst p = fst q \<and> agree cr src (snd p) (snd q)" for p q
    using that by (auto intro!: Cons.IH same_answerI split: prod.splits option.splits)
  note step = rel_out_bind [OF multisig_advance_agree [OF Cons.prems zero_less_Suc] this]
  show ?case
    using Cons.prems by (auto simp: multisig_loop_Cons ok_or_iff intro!: same_answerI rel_out_same step)
qed (simp add: same_answer_def)

lemma push_answer:
  "same_answer cr src p q \<Longrightarrow>
   rel_out (agree cr src) (case p of (v, vm) \<Rightarrow> on_dstack (push_item serialize_bool v) vm)
                      (case q of (v, vm) \<Rightarrow> on_dstack (push_item serialize_bool v) vm)"
  using respectsD [OF respects_on_dstack] by (auto simp: same_answer_def no_panic split: prod.splits)

lemma num_keys_ops:
  assumes "agree cr src a b" and "\<not> (k < 0 \<or> MAX_PUB_KEYS_PER_MUTLTISIG < k)"
  shows "in_i32 (num_ops a + k)" "0 \<le> num_ops a + k"
  using assms
  by (auto simp: agree_def state_ok_def in_i32_def MAX_PUB_KEYS_PER_MUTLTISIG_def MAX_OPS_PER_SCRIPT_def)

lemma respects_multisig: "respectful cr (op_check_multisig_schnorr_or_ecdsa cr ecdsa)"
proof (rule respectsI)
  fix src a b assume ab: "agree cr src a b"
  have loop: "rel_out (agree cr src)
      (rbind (multisig_loop cr ecdsa sigs keys (a\<lparr>num_ops := n, dstack := st\<rparr>)) (\<lambda>(failed, vm').
        rbind (fail_if (failed \<and> list_ex (\<lambda>s. s \<noteq> []) sigs) NullFail) (\<lambda>_.
        rbind (push_item serialize_bool (\<not> failed) (dstack vm')) (\<lambda>st. Ok (vm'\<lparr>dstack := st\<rparr>)))))
      (rbind (multisig_loop cr ecdsa sigs keys (b\<lparr>num_ops := n, dstack := st\<rparr>)) (\<lambda>(failed, vm').
        rbind (fail_if (failed \<and> list_ex (\<lambda>s. s \<noteq> []) sigs) NullFail) (\<lambda>_.
        rbind (push_item serialize_bool (\<not> failed) (dstack vm')) (\<lambda>st. Ok (vm'\<lparr>dstack := st\<rparr>)))))"
    if "0 \<le> n" "n \<le> MAX_OPS_PER_SCRIPT" for sigs keys n st
    by (rule rel_out_bind [OF multisig_loop_agree])
      (use that ab in \<open>auto simp: same_answer_def fail_if_iff no_panic agreeD(1) intro!: rel_out_same agree_updates\<close>)
  show "rel_out (agree cr src) (op_check_multisig_schnorr_or_ecdsa cr ecdsa a) (op_check_multisig_schnorr_or_ecdsa cr ecdsa b)"
    unfolding op_check_multisig_schnorr_or_ecdsa_def agreeD(1,5) [OF ab] Let_def
    using num_keys_ops [OF ab]
    by (auto simp: no_panic fail_if_iff expect_iff intro!: rel_out_same loop)
qed

lemma respects_check_sig:
  assumes "\<And>src a b ht key sg. agree cr src a b \<Longrightarrow> rel_out (same_answer cr src) (check ht key sg a) (check ht key sg b)"
  shows "respectful cr (check_sig_with check)"
proof (rule respectsI)
  fix src a b assume ab: "agree cr src a b"
  note push = rel_out_bind [OF assms push_answer]
  show "rel_out (agree cr src) (check_sig_with check a) (check_sig_with check b)"
    unfolding check_sig_with_def agreeD(1) [OF ab] Let_def
    using ab
    by (auto simp: no_panic ok_or_iff
        intro!: rel_out_same push agree_updates respectsD [OF respects_on_dstack])
qed

lemma respects_signatures:
  "respectful cr (op_check_sig cr)" "respectful cr (op_check_sig_ecdsa cr)"
  "respectful cr (op_check_sig_mldsa cr)" "respectful cr (op_check_sig_verify cr)"
  "respectful cr (op_check_multisig cr)" "respectful cr (op_check_multisig_ecdsa cr)"
  "respectful cr (op_check_multisig_verify cr)"
proof -
  show sig: "respectful cr (op_check_sig cr)" "respectful cr (op_check_sig_ecdsa cr)"
    "respectful cr (op_check_sig_mldsa cr)"
    unfolding op_check_sig_def op_check_sig_ecdsa_def op_check_sig_mldsa_def
    by (rule respects_check_sig, rule check_schnorr_agree check_ecdsa_agree check_mldsa_agree, assumption)+
  show multi: "respectful cr (op_check_multisig cr)" "respectful cr (op_check_multisig_ecdsa cr)"
    by (simp_all add: op_check_multisig_def op_check_multisig_ecdsa_def respects_multisig)
  show "respectful cr (op_check_sig_verify cr)" "respectful cr (op_check_multisig_verify cr)"
    using respects_bind [OF sig(1) respects_verify_top] respects_bind [OF multi(1) respects_verify_top]
    by (simp_all add: op_check_sig_verify_def [abs_def] op_check_multisig_verify_def [abs_def])
qed

section \<open>Whole executions\<close>

lemma table_respects: "map_of (opcode_table cr) v = Some f \<Longrightarrow> respectful cr f"
proof -
  have "respectful cr (\<lambda>vm. Ok vm)" "respectful cr (\<lambda>vm. Err EarlyReturn)"
    by (simp_all add: respectful_def)
  then have "list_all (\<lambda>(v, f). respectful cr f) (opcode_table cr)"
    by (simp add: opcode_table_def respects_numbers respects_stack respects_reorder respects_pick_roll respects_control respects_depth
        respects_lock_time respects_introspection respects_signatures)
  then show "map_of (opcode_table cr) v = Some f \<Longrightarrow> respectful cr f"
    by (auto simp: list_all_iff dest!: map_of_SomeD)
qed

lemma respects_execute_op: "respectful cr (execute_op cr op)"
proof -
  have "respectful cr (execute_push op)"
    using respects_push by (auto simp: respectful_def execute_push_def Let_def)
  then show ?thesis
    using table_respects by (auto simp: respectful_def execute_op_def split: option.split)
qed

lemma check_minimal_data_push_no_panic [no_panic]: "check_minimal_data_push op \<noteq> Panic"
proof -
  have "OP_SMALL_INT_MIN_VAL \<le> d \<Longrightarrow> d \<le> OP_SMALL_INT_MAX_VAL \<Longrightarrow>
      add_w OpTrue d = Ok x \<Longrightarrow> checked_sub x 1 \<noteq> None" for d x :: u8
    by (auto simp: OpTrue_def outcome_simps checked_add_Some_iff checked_None_iff)
  moreover have "d \<le> OP_SMALL_INT_MAX_VAL \<Longrightarrow> checked_add OpTrue d \<noteq> None" for d :: u8
    by (auto simp: OpTrue_def OP_SMALL_INT_MAX_VAL_def checked_None_iff word_le_nat_alt)
  ultimately show ?thesis
    unfolding check_minimal_data_push_eq Let_def
    by (auto simp: rbind_Panic_iff fail_if_iff expect_iff)
qed

lemma respects_execute_opcode: "respectful cr (execute_opcode cr op)"
proof (rule respectsI)
  fix src a b assume ab: "agree cr src a b"
  have n: "0 \<le> num_ops a + 1" "in_i32 (num_ops a + 1)"
    using ab by (auto simp: agree_def state_ok_def in_i32_def MAX_OPS_PER_SCRIPT_def)
  have tail: "rel_out (agree cr src)
      (if is_executing x \<or> is_conditional op then rbind (if 0 < op_value op \<and> op_value op \<le> OpPushData4
         then check_minimal_data_push op else Ok ()) (\<lambda>_. execute_op cr op x) else Ok x)
      (if is_executing y \<or> is_conditional op then rbind (if 0 < op_value op \<and> op_value op \<le> OpPushData4
         then check_minimal_data_push op else Ok ()) (\<lambda>_. execute_op cr op y) else Ok y)"
    if "agree cr src x y" for x y
    using that respectsD [OF respects_execute_op that]
    by (auto simp: agreeD(7) no_panic intro!: rel_out_same)
  show "rel_out (agree cr src) (execute_opcode cr op a) (execute_opcode cr op b)"
    unfolding execute_opcode_def agreeD(5) [OF ab]
    by (rule rel_out_bind [OF _ tail]) (use ab n in \<open>auto intro!: agree_updates(4)\<close>)
qed

lemma next_opcode_no_panic: "deserialize_next_opcode s = Some (r, rest) \<Longrightarrow> r \<noteq> Panic"
proof -
  have "fst (deserialize_fixed v n it) \<noteq> Panic" "fst (deserialize_var v n it) \<noteq> Panic" for v n it
    by (simp_all add: deserialize_fixed_def deserialize_var_def Let_def)
  then show "deserialize_next_opcode s = Some (r, rest) \<Longrightarrow> r \<noteq> Panic"
    by (cases s) (auto simp: deserialize_next_opcode_def split: op_length.splits, metis fst_conv, metis fst_conv)
qed

lemma parse_script_no_panic: "item \<in> set (parse_script s) \<Longrightarrow> item \<noteq> Panic"
proof (induction s rule: length_induct)
  case (1 s)
  show ?case
  proof (cases "deserialize_next_opcode s")
    case None
    with 1 show ?thesis by (simp add: parse_script.simps [of s])
  next
    case (Some p)
    obtain r rest where p: "p = (r, rest)" by fastforce
    have "parse_script s = r # parse_script rest" using Some p by (simp add: parse_script.simps [of s])
    moreover have "r \<noteq> Panic" using Some p next_opcode_no_panic by blast
    moreover have "length rest < length s" using Some p deserialize_next_opcode_shorter by blast
    ultimately show ?thesis using 1 by (metis set_ConsD)
  qed
qed

lemma execute_item_agree:
  assumes "agree cr src a b" and "item \<noteq> Panic"
  shows "rel_out (agree cr src) (execute_item cr v item a) (execute_item cr v item b)"
  unfolding execute_item_def Let_def
  by (intro rel_out_same rel_out_bind [OF respectsD [OF respects_execute_opcode assms(1)]])
    (use assms in \<open>auto simp: fail_if_iff agreeD\<close>)

lemma respects_execute_script: "respectful cr (execute_script cr s v)"
proof (rule respectsI)
  fix src a b assume ab: "agree cr src a b"
  have "rel_out (agree cr src) (rfold (execute_item cr v) (parse_script s) a) (rfold (execute_item cr v) (parse_script s) b)"
    by (rule rel_out_fold [where R = "agree cr src", OF ab]) (auto intro!: execute_item_agree dest: parse_script_no_panic)
  then show "rel_out (agree cr src) (execute_script cr s v a) (execute_script cr s v b)"
    unfolding execute_script_def
    by (rule rel_out_bind) (auto simp: agreeD(4) MAX_OPS_PER_SCRIPT_def intro!: agree_updates)
qed

lemma respects_check_error: "respectful cr (check_error_condition fin)"
  unfolding check_error_condition_def
  by (intro respectsI) (auto simp: agreeD(1) intro!: rel_out_same rel_out_bind [OF pop_bool_rel])

lemma respects_p2sh: "respectful cr (execute_p2sh cr saved)"
  unfolding execute_p2sh_def
  by (intro respectsI rel_out_bind [OF respectsD [OF respects_check_error]] rel_out_same)
    (auto simp: ok_or_iff fail_if_iff intro!: respectsD [OF respects_execute_script])

lemma respects_execute_scripts: "respectful cr (execute_scripts cr scripts p2sh inp)"
proof (rule respectsI)
  fix src a b assume ab: "agree cr src a b"
  let ?R = "\<lambda>p q. fst p = (fst q :: stack option) \<and> agree cr src (snd p) (snd q)"
  have turn: "rel_out ?R (script_turn cr p2sh inp x u) (script_turn cr p2sh inp x v)" if "?R u v" for x u v
    using that
    by (auto simp: script_turn_def Let_def agreeD(1) split: prod.splits
        intro!: rel_out_bind [OF respectsD [OF respects_execute_script]])
  have loop: "rel_out ?R (rfold (script_turn cr p2sh inp) xs (None, a)) (rfold (script_turn cr p2sh inp) xs (None, b))"
    for xs by (rule rel_out_fold) (use ab turn in auto)
  note tail = respectsD [OF respects_bind [OF respects_p2sh respects_check_error]] respectsD [OF respects_check_error]
  show "rel_out (agree cr src) (execute_scripts cr scripts p2sh inp a) (execute_scripts cr scripts p2sh inp b)"
    unfolding execute_scripts_def
    by (intro rel_out_same rel_out_bind [OF loop])
      (auto simp: fail_if_iff split: option.split prod.splits intro!: tail)
qed

lemma consume_agree:
  "agree cr src a b \<Longrightarrow> consume_sig_op (counter a) = Ok c \<Longrightarrow> agree cr src (a\<lparr>counter := c\<rparr>) (b\<lparr>counter := c\<rparr>)"
  using consume_sig_op_keeps [of "counter a" c]
  by (intro agree_updates(5)) (auto simp: agree_def state_ok_def)

lemma stealth_agree:
  assumes "agree cr src a b" and "source a = TxInput tx inp idx entry p2sh"
  shows "rel_out (agree cr src) (execute_stealth_spend cr tx idx inp entry a) (execute_stealth_spend cr tx idx inp entry b)"
proof -
  have tail: "rel_out (agree cr src)
      (case u of (msg, rv) \<Rightarrow> rbind (consume_sig_op (counter a)) (\<lambda>c.
        case cached_verify cr \<lparr>key_sig = SigSecp256k1 sg, key_pub = KeySchnorr pk, key_msg = msg\<rparr>
          (schnorr_verify cr sg msg pk) (a\<lparr>reused_values := rv, counter := c\<rparr>) of
          (valid, vm') \<Rightarrow> if valid then Ok vm' else Err EvalFalse))
      (case v of (msg, rv) \<Rightarrow> rbind (consume_sig_op (counter b)) (\<lambda>c.
        case cached_verify cr \<lparr>key_sig = SigSecp256k1 sg, key_pub = KeySchnorr pk, key_msg = msg\<rparr>
          (schnorr_verify cr sg msg pk) (b\<lparr>reused_values := rv, counter := c\<rparr>) of
          (valid, vm') \<Rightarrow> if valid then Ok vm' else Err EvalFalse))"
    if uv: "case u of (h, r) \<Rightarrow> case v of (h', r') \<Rightarrow> h = h' \<and>
      agree cr src (a\<lparr>reused_values := r\<rparr>) (b\<lparr>reused_values := r'\<rparr>)" for u v sg pk
  proof -
    obtain h r r' where u: "u = (h, r)" "v = (h, r')"
      and ag: "agree cr src (a\<lparr>reused_values := r\<rparr>) (b\<lparr>reused_values := r'\<rparr>)" using uv by (cases u; cases v) auto
    let ?k = "\<lparr>key_sig = SigSecp256k1 sg, key_pub = KeySchnorr pk, key_msg = h\<rparr>"
    have "same_answer cr src (cached_verify cr ?k (schnorr_verify cr sg h pk) (a\<lparr>reused_values := r, counter := c\<rparr>))
        (cached_verify cr ?k (schnorr_verify cr sg h pk) (b\<lparr>reused_values := r', counter := c\<rparr>))"
      if "consume_sig_op (counter a) = Ok c" for c
      using consume_agree [OF ag, of c] that by (intro cached_verify_same) (simp_all add: cache_answer_def)
    then show ?thesis
      unfolding u by (auto simp: agreeD(6) [OF assms(1)] no_panic same_answer_def intro!: rel_out_same split: prod.splits)
  qed
  show ?thesis
    unfolding execute_stealth_spend_def Let_def
    by (intro rel_out_same rel_out_bind [OF sighash_agree [OF assms] tail])
      (auto simp: no_panic fail_if_iff ok_or_iff STEALTH_OUTPUT_SIZE_def)
qed

lemma respects_execute: "respectful cr (execute cr)"
proof (rule respectsI)
  fix src a b assume ab: "agree cr src a b"
  show "rel_out (agree cr src) (execute cr a) (execute cr b)"
    unfolding execute_def agreeD(3) [OF ab] Let_def
    using ab stealth_agree [OF ab] respectsD [OF respects_execute_scripts ab]
    by (auto split: script_source.split)
qed

section \<open>Properties\<close>

text \<open>The engine run that validates input \<open>i\<close> of a populated transaction.\<close>

definition run_input ::
    "crypto \<Rightarrow> populated_tx \<Rightarrow> nat \<Rightarrow> sighash_reused_values \<Rightarrow> sig_cache \<Rightarrow> result" where
  "run_input cr tx i rv cache =
     rbind (from_transaction_input tx (inputs (ptx tx) ! i) i (entries tx ! i) rv cache) (execute cr)"

lemma run_input_agree:
  assumes "i < length (inputs (ptx tx))" and "i < length (entries tx)"
    and "reused_sound cr (ptx tx) rv" and "reused_sound cr (ptx tx) rv'"
    and "cache_sound cr c" and "cache_sound cr c'"
  shows "rel_out (agree cr (TxInput tx (inputs (ptx tx) ! i) i (entries tx ! i)
      (is_pay_to_script_hash (script (entry_spk (entries tx ! i)))))) (run_input cr tx i rv c) (run_input cr tx i rv' c')"
  unfolding run_input_def from_transaction_input_def
  using assms
  by (auto simp: assert_that_def intro!: respectsD [OF respects_execute])
    (auto simp: agree_def state_ok_def core_eq_iff source_ok_def reused_ok_def MAX_OPS_PER_SCRIPT_def
      new_sig_op_counter_def)

text \<open>What a successful run leaves behind: the next input may reuse the hashes and the cache.\<close>

lemma run_input_keeps:
  assumes "run_input cr tx i rv c = Ok vm" "i < length (inputs (ptx tx))" "i < length (entries tx)"
    and "reused_sound cr (ptx tx) rv" "cache_sound cr c"
  shows "reused_sound cr (ptx tx) (reused_values vm) \<and> cache_sound cr (sig_cache_of vm)"
  using run_input_agree [OF assms(2,3,4,4,5,5)] assms(1) by (auto simp: agree_def state_ok_def reused_ok_def)

lemma empty_caches: "reused_sound cr tx new_reused_values" "cache_sound cr (new_cache n)"
  by (simp_all add: reused_sound_def new_reused_values_def cache_sound_def new_cache_def)

text \<open>
  C16. No script can crash the node: for every transaction with its entries, whatever bytes
  the signature script and the spent script hold, and from any sound signature cache and sound
  reused hashes, running the engine on an input never panics -- no arithmetic overflow, no
  access to a stack or a script out of range, no failed \<^verbatim>\<open>expect\<close> or \<^verbatim>\<open>unwrap\<close>.
\<close>

theorem script_execution_never_panics:
  assumes "i < length (inputs (ptx tx))" and "i < length (entries tx)"
    and "reused_sound cr (ptx tx) rv" and "cache_sound cr c"
  shows "run_input cr tx i rv c \<noteq> Panic"
  using run_input_agree [OF assms(1,2,3,3,4,4)] by (cases "run_input cr tx i rv c") auto

text \<open>
  C17. The signature cache and the reused hashes are transparent: from any sound cache and any
  sound store, an input is accepted, or rejected with an error, exactly as it is with empty
  ones, the final states differ at most in the caches, and the cache left behind is sound
  again.
\<close>

theorem caches_are_transparent:
  assumes "i < length (inputs (ptx tx))" and "i < length (entries tx)"
    and "reused_sound cr (ptx tx) rv" and "cache_sound cr c"
  shows "case run_input cr tx i rv c of
      Ok vm \<Rightarrow> (\<exists>vm'. run_input cr tx i new_reused_values (new_cache 0) = Ok vm' \<and> core vm = core vm' \<and>
                 cache_sound cr (sig_cache_of vm))
    | Err e \<Rightarrow> run_input cr tx i new_reused_values (new_cache 0) = Err e
    | Panic \<Rightarrow> False"
  using run_input_agree [OF assms(1,2,3) empty_caches(1) assms(4) empty_caches(2) [of cr 0]]
  by (cases "run_input cr tx i rv c"; cases "run_input cr tx i new_reused_values (new_cache 0)")
    (auto simp: agree_def state_ok_def)

text \<open>Example: spending a pay-to-pubkey output with the signature the example primitives accept.\<close>

definition ex_p2pk_tx :: populated_tx where
  "ex_p2pk_tx = (ex_populated (0x41 # replicate 64 0 @ [1]))
     \<lparr>entries := [\<lparr>amount = 100, entry_spk = \<lparr>spk_version = 0, script = 0x20 # replicate 32 0 @ [0xac]\<rparr>,
                   block_daa_score = 5, entry_is_coinbase = False\<rparr>]\<rparr>"

lemma ex_p2pk_sizes: "length (inputs (ptx ex_p2pk_tx)) = 1" "length (entries ex_p2pk_tx) = 1"
  by (simp_all add: ex_p2pk_tx_def ex_populated_def)

theorem script_execution_never_panics_witness:
  "run_input ex_crypto ex_p2pk_tx 0 new_reused_values (new_cache 10) \<noteq> Panic"
  using script_execution_never_panics [of 0 ex_p2pk_tx ex_crypto new_reused_values "new_cache 10"] empty_caches
  by (simp add: ex_p2pk_sizes)

theorem caches_are_transparent_witness:
  "case run_input ex_crypto ex_p2pk_tx 0 new_reused_values (new_cache 10) of
      Ok vm \<Rightarrow> (\<exists>vm'. run_input ex_crypto ex_p2pk_tx 0 new_reused_values (new_cache 0) = Ok vm' \<and>
                 core vm = core vm' \<and> cache_sound ex_crypto (sig_cache_of vm))
    | Err e \<Rightarrow> run_input ex_crypto ex_p2pk_tx 0 new_reused_values (new_cache 0) = Err e
    | Panic \<Rightarrow> False"
  using caches_are_transparent [of 0 ex_p2pk_tx ex_crypto new_reused_values "new_cache 10"] empty_caches
  by (simp add: ex_p2pk_sizes)

end
