(* ===== verification/Address.thy ===== *)
theory Address
  imports Script_Data
begin

text \<open>
  Addresses (\<^verbatim>\<open>crypto/addresses/src/lib.rs\<close>, \<^verbatim>\<open>bech32.rs\<close>): prefixes, versions, and the
  bech32-style text form with its 40-bit checksum.

  The regrouping loops write into a vector of fixed length, so an index out of range is a
  panic of the model. The test-only prefixes are left out, and a \<^verbatim>\<open>debug_assert\<close> is not
  executed in the release profile.
\<close>

section \<open>Data\<close>

datatype address_prefix = Mainnet | Testnet | Simnet | Devnet | StealthMainnet | StealthTestnet

datatype address_version = VPubKey | VPubKeyECDSA | VPubKeyMLDSA | VScriptHash | VStealth

datatype address_error =
    InvalidPrefix string
  | MissingPrefix
  | InvalidVersion u8
  | DecodingError u8
  | BadChecksumSize
  | BadChecksum
  | BadPayload

record address =
  addr_prefix :: address_prefix
  addr_version :: address_version
  addr_payload :: "u8 list"

fun prefix_as_str :: "address_prefix \<Rightarrow> string" where
  "prefix_as_str Mainnet = ''kaspa''"
| "prefix_as_str Testnet = ''kaspatest''"
| "prefix_as_str Simnet = ''kaspasim''"
| "prefix_as_str Devnet = ''kaspadev''"
| "prefix_as_str StealthMainnet = ''qs''"
| "prefix_as_str StealthTestnet = ''qstest''"

definition is_stealth :: "address_prefix \<Rightarrow> bool" where
  "is_stealth p = (p = StealthMainnet \<or> p = StealthTestnet)"

definition to_stealth :: "address_prefix \<Rightarrow> address_prefix option" where
  "to_stealth p = (case p of Mainnet \<Rightarrow> Some StealthMainnet
     | Testnet \<Rightarrow> Some StealthTestnet | Simnet \<Rightarrow> Some StealthTestnet | Devnet \<Rightarrow> Some StealthTestnet
     | _ \<Rightarrow> None)"

definition to_regular :: "address_prefix \<Rightarrow> address_prefix option" where
  "to_regular p = (case p of StealthMainnet \<Rightarrow> Some Mainnet | StealthTestnet \<Rightarrow> Some Testnet | _ \<Rightarrow> None)"

definition prefix_try_from :: "string \<Rightarrow> (address_prefix, address_error) outcome" where
  "prefix_try_from s =
     (if s = ''kaspa'' \<or> s = ''qaspa'' then Ok Mainnet
      else if s = ''kaspatest'' \<or> s = ''qaspatest'' then Ok Testnet
      else if s = ''kaspasim'' \<or> s = ''qaspasim'' then Ok Simnet
      else if s = ''kaspadev'' \<or> s = ''qaspadev'' then Ok Devnet
      else if s = ''qs'' then Ok StealthMainnet
      else if s = ''qstest'' then Ok StealthTestnet
      else Err (InvalidPrefix s))"

fun version_byte :: "address_version \<Rightarrow> u8" where
  "version_byte VPubKey = 0"
| "version_byte VPubKeyECDSA = 1"
| "version_byte VPubKeyMLDSA = 2"
| "version_byte VScriptHash = 8"
| "version_byte VStealth = 16"

fun address_key_len :: "address_version \<Rightarrow> nat" where
  "address_key_len VPubKey = 32"
| "address_key_len VPubKeyECDSA = 33"
| "address_key_len VPubKeyMLDSA = 1312"
| "address_key_len VScriptHash = 32"
| "address_key_len VStealth = 64"

definition version_try_from :: "u8 \<Rightarrow> (address_version, address_error) outcome" where
  "version_try_from b =
     (if b = 0 then Ok VPubKey
      else if b = 1 then Ok VPubKeyECDSA
      else if b = 2 then Ok VPubKeyMLDSA
      else if b = 8 then Ok VScriptHash
      else if b = 16 then Ok VStealth
      else Err (InvalidVersion b))"

definition new_address :: "address_prefix \<Rightarrow> address_version \<Rightarrow> u8 list \<Rightarrow> address" where
  "new_address p v bs = \<lparr>addr_prefix = p, addr_version = v, addr_payload = bs\<rparr>"

section \<open>Checksum\<close>

definition polymod_step :: "u8 \<Rightarrow> u64 \<Rightarrow> u64" where
  "polymod_step d c =
     (let c0 = drop_bit 35 c;
          c = push_bit 5 (c AND 0x07ffffffff) XOR ucast d;
          c = (if c0 AND 0x01 \<noteq> 0 then c XOR 0x98f2bc8e61 else c);
          c = (if c0 AND 0x02 \<noteq> 0 then c XOR 0x79b76d99e2 else c);
          c = (if c0 AND 0x04 \<noteq> 0 then c XOR 0xf33e5fb3c4 else c);
          c = (if c0 AND 0x08 \<noteq> 0 then c XOR 0xae2eabe2a8 else c);
          c = (if c0 AND 0x10 \<noteq> 0 then c XOR 0x1e4f43e470 else c)
      in c)"

definition polymod :: "u8 list \<Rightarrow> u64" where
  "polymod values = fold polymod_step values 1 XOR 1"

definition checksum :: "u8 list \<Rightarrow> u8 list \<Rightarrow> u64" where
  "checksum pl prefix = polymod (prefix @ [0] @ pl @ replicate 8 0)"

section \<open>Regrouping bits\<close>

type_synonym conv_state = "u8 list \<times> nat \<times> nat \<times> nat"

definition vec_set :: "'a list \<Rightarrow> nat \<Rightarrow> 'a \<Rightarrow> ('a list, 'e) outcome" where
  "vec_set xs i x = (if i < length xs then Ok (xs[i := x]) else Panic)"

text \<open>
  The inner \<^verbatim>\<open>while\<close> of both conversions: it writes groups of \<open>w\<close> bits while the buffer
  holds one. The buffer is a \<^verbatim>\<open>u16\<close>; the state is the vector, the index, the buffer and
  the number of bits in it.
\<close>

function conv_drain :: "nat \<Rightarrow> conv_state \<Rightarrow> (conv_state, address_error) outcome" where
  "conv_drain w (arr, idx, buff, bits) =
     (if 0 < w \<and> w \<le> bits
      then rbind (vec_set arr idx (of_nat (buff div 2 ^ (bits - w)))) (\<lambda>arr'.
             conv_drain w (arr', idx + 1, buff mod 2 ^ (bits - w), bits - w))
      else Ok (arr, idx, buff, bits))"
  by pat_completeness auto
termination by (relation "measure (\<lambda>(w, arr, idx, buff, bits). bits)") auto

declare conv_drain.simps [simp del]

definition conv_step :: "nat \<Rightarrow> nat \<Rightarrow> u8 \<Rightarrow> conv_state \<Rightarrow> (conv_state, address_error) outcome" where
  "conv_step v w c = (\<lambda>(arr, idx, buff, bits).
     conv_drain w (arr, idx, (buff * 2 ^ v mod 2 ^ 16) OR unat c, bits + v))"

definition conv8to5 :: "u8 list \<Rightarrow> (u8 list, address_error) outcome" where
  "conv8to5 pl =
     (let padding = (if length pl mod 5 = 0 then 0 else 1) in
      rbind (rfold (conv_step 8 5) pl (replicate (length pl * 8 div 5 + padding) 0, 0, 0, 0))
        (\<lambda>(arr, idx, buff, bits).
          if bits > 0 then vec_set arr idx (of_nat (buff * 2 ^ (5 - bits) mod 2 ^ 16)) else Ok arr))"

definition conv5to8 :: "u8 list \<Rightarrow> (u8 list, address_error) outcome" where
  "conv5to8 pl =
     rbind (rfold (conv_step 5 8) pl (replicate (length pl * 5 div 8) 0, 0, 0, 0))
       (\<lambda>(arr, idx, buff, bits). Ok arr)"

section \<open>Text form\<close>

definition CHARSET :: string where
  "CHARSET = ''qpzry9x8gf2tvdw0s3jn54khce6mua7l''"

definition REV_CHARSET :: "u8 list" where
  "REV_CHARSET = replicate 48 100 @
     [15, 100, 10, 17, 21, 20, 26, 30, 7, 5] @ replicate 39 100 @
     [29, 100, 24, 13, 25, 9, 8, 23, 100, 18, 22, 31, 27, 19, 100, 1, 0, 3, 16, 11, 28, 12, 14, 6, 4, 2]"

definition fivebit_prefix :: "address_prefix \<Rightarrow> u8 list" where
  "fivebit_prefix p = map (\<lambda>c. of_char c AND 0x1f) (prefix_as_str p)"

definition charset_at :: "u8 \<Rightarrow> (char, address_error) outcome" where
  "charset_at c = (if unat c < length CHARSET then Ok (CHARSET ! unat c) else Panic)"

definition encode_payload :: "address \<Rightarrow> (string, address_error) outcome" where
  "encode_payload a =
     rbind (conv8to5 (version_byte (addr_version a) # addr_payload a)) (\<lambda>fivebit_payload.
       let c = checksum fivebit_payload (fivebit_prefix (addr_prefix a)) in
       rbind (conv8to5 (drop 3 (rev (to_le_bytes 8 (unat c))))) (\<lambda>five_check.
         rmap charset_at (fivebit_payload @ five_check)))"

definition char_value :: "char \<Rightarrow> (u8, address_error) outcome" where
  "char_value ch =
     (let b = of_char ch :: nat;
          v = (if b < length REV_CHARSET then REV_CHARSET ! b else 100)
      in if v = 100 then Err (DecodingError (of_nat b)) else Ok v)"

definition decode_payload :: "address_prefix \<Rightarrow> string \<Rightarrow> (address, address_error) outcome" where
  "decode_payload p s =
     rbind (rmap char_value s) (\<lambda>address_u5.
     rbind (fail_if (length address_u5 < 8) BadPayload) (\<lambda>_.
     let payload_u5 = take (length address_u5 - 8) address_u5;
         checksum_u5 = drop (length address_u5 - 8) address_u5 in
     rbind (conv5to8 checksum_u5) (\<lambda>check_bytes.
     rbind (fail_if (3 + length check_bytes \<noteq> 8) BadChecksumSize) (\<lambda>_.
     rbind (fail_if (checksum payload_u5 (fivebit_prefix p) \<noteq>
                     of_nat (le_value (rev (replicate 3 0 @ check_bytes)))) BadChecksum) (\<lambda>_.
     rbind (conv5to8 payload_u5) (\<lambda>payload_u8.
     case payload_u8 of [] \<Rightarrow> Err BadPayload
     | vbyte # bytes \<Rightarrow>
         rbind (version_try_from vbyte) (\<lambda>v.
         rbind (fail_if (is_stealth p \<noteq> (v = VStealth)) BadPayload) (\<lambda>_.
         rbind (conv8to5 (vbyte # bytes)) (\<lambda>canonical_u5.
         rbind (fail_if (canonical_u5 \<noteq> payload_u5) BadPayload) (\<lambda>_.
         rbind (fail_if (length bytes \<noteq> address_key_len v) BadPayload) (\<lambda>_.
           Ok (new_address p v bytes))))))))))))"

definition address_to_string :: "address \<Rightarrow> (string, address_error) outcome" where
  "address_to_string a = rbind (encode_payload a) (\<lambda>s. Ok (prefix_as_str (addr_prefix a) @ '':'' @ s))"

text \<open>\<^verbatim>\<open>split_once(':')\<close>.\<close>

definition split_once :: "char \<Rightarrow> string \<Rightarrow> (string \<times> string) option" where
  "split_once c s =
     (if c \<in> set s then Some (takeWhile (\<lambda>x. x \<noteq> c) s, tl (dropWhile (\<lambda>x. x \<noteq> c) s)) else None)"

definition address_try_from :: "string \<Rightarrow> (address, address_error) outcome" where
  "address_try_from s =
     (case split_once (CHR '':'') s of
        Some (p, pl) \<Rightarrow> rbind (prefix_try_from p) (\<lambda>p. decode_payload p pl)
      | None \<Rightarrow> Err MissingPrefix)"

section \<open>Lemmas on digit strings\<close>

definition digits_val :: "nat \<Rightarrow> u8 list \<Rightarrow> nat" where
  "digits_val B ds = foldl (\<lambda>a d. a * B + unat d) 0 ds"

lemma digits_val_simps [simp]:
  "digits_val B [] = 0" "digits_val B (ds @ [d]) = digits_val B ds * B + unat d"
  by (simp_all add: digits_val_def)

lemma digits_unique:
  assumes "length xs = length ys" and "\<forall>d\<in>set xs. unat d < B" and "\<forall>d\<in>set ys. unat d < B"
    and "digits_val B xs = digits_val B ys"
  shows "xs = ys"
  using assms
proof (induction xs arbitrary: ys rule: rev_induct)
  case (snoc x xs)
  obtain zs y where ys: "ys = zs @ [y]" using snoc.prems(1) by (cases ys rule: rev_cases) auto
  have B: "unat x < B" "unat y < B" using snoc.prems ys by auto
  have "digits_val B xs * B + unat x = digits_val B zs * B + unat y" using snoc.prems(4) ys by simp
  then have "(digits_val B xs * B + unat x) mod B = (digits_val B zs * B + unat y) mod B"
    "(digits_val B xs * B + unat x) div B = (digits_val B zs * B + unat y) div B" by simp_all
  with B have "unat x = unat y" "digits_val B xs = digits_val B zs" by simp_all
  then show ?case using snoc ys by (simp add: word_unat_eq_iff)
qed simp

lemma nat_or_disjoint: "c < 2 ^ v \<Longrightarrow> (a * 2 ^ v) OR c = a * 2 ^ v + c" for a c :: nat
proof -
  assume c: "c < 2 ^ v"
  have "(a * 2 ^ v) AND c = 0"
  proof (rule bit_eqI)
    fix n
    have "\<not> bit c n" if "v \<le> n"
    proof -
      have "c < 2 ^ n" using c that by (meson order_less_le_trans power_increasing one_le_numeral)
      then show ?thesis by (simp add: bit_iff_odd)
    qed
    moreover have "\<not> bit (a * 2 ^ v) n" if "n < v"
      using that by (simp add: bit_push_bit_iff flip: push_bit_eq_mult)
    ultimately show "bit ((a * 2 ^ v) AND c) n = bit 0 n"
      unfolding bit_and_iff bit_0_eq by (cases "n < v") (auto simp: not_less)
  qed
  then show ?thesis by (simp add: disjunctive_add_eq_or)
qed

section \<open>Lemmas on regrouping\<close>

text \<open>
  The groups written so far followed by the buffer are the bits read so far.
\<close>

definition conv_inv :: "nat \<Rightarrow> nat \<Rightarrow> conv_state \<Rightarrow> bool" where
  "conv_inv w N = (\<lambda>(arr, idx, buff, bits).
     idx \<le> length arr \<and> (\<forall>d\<in>set (take idx arr). unat d < 2 ^ w) \<and> buff < 2 ^ bits \<and>
     digits_val (2 ^ w) (take idx arr) * 2 ^ bits + buff = N)"

lemma conv_drain_inv:
  assumes "0 < w" and "w \<le> 8" and "conv_inv w N (arr, idx, buff, bits)" and "idx + bits div w \<le> length arr"
  shows "\<exists>arr' buff'. conv_drain w (arr, idx, buff, bits) = Ok (arr', idx + bits div w, buff', bits mod w) \<and>
    conv_inv w N (arr', idx + bits div w, buff', bits mod w) \<and> length arr' = length arr"
  using assms(3,4)
proof (induction bits arbitrary: arr idx buff rule: less_induct)
  case (less bits)
  show ?case
  proof (cases "w \<le> bits")
    case False
    with less.prems show ?thesis by (subst conv_drain.simps) simp
  next
    case True
    let ?b = "bits - w"
    let ?q = "buff div 2 ^ ?b"
    have step: "bits div w = Suc (?b div w)" "bits mod w = ?b mod w"
      using True assms(1) by (simp_all add: le_div_geq le_mod_geq)
    then have idx: "idx < length arr" using less.prems(2) by simp
    have buff: "buff < 2 ^ w * 2 ^ ?b"
      using less.prems(1) True by (simp add: conv_inv_def flip: power_add)
    then have q: "?q < 2 ^ w" by (simp add: less_mult_imp_div_less)
    also have "(2 :: nat) ^ w \<le> 2 ^ 8" using assms(2) by (intro power_increasing) auto
    finally have uq: "unat (of_nat ?q :: u8) = ?q" by simp
    let ?arr = "arr[idx := of_nat ?q]"
    have take: "take (Suc idx) ?arr = take idx arr @ [of_nat ?q]"
      using idx by (simp add: take_Suc_conv_app_nth)
    have "digits_val (2 ^ w) (take idx arr) * 2 ^ bits + buff = N" using less.prems(1) by (simp add: conv_inv_def)
    moreover have "(2 :: nat) ^ bits = 2 ^ w * 2 ^ ?b" using True by (simp flip: power_add)
    moreover have "buff = ?q * 2 ^ ?b + buff mod 2 ^ ?b" by (rule div_mult_mod_eq [symmetric])
    ultimately have "(digits_val (2 ^ w) (take idx arr) * 2 ^ w + ?q) * 2 ^ ?b + buff mod 2 ^ ?b = N"
      by (simp add: algebra_simps)
    then have "conv_inv w N (?arr, idx + 1, buff mod 2 ^ ?b, ?b)"
      using less.prems(1) idx take q uq by (auto simp: conv_inv_def)
    moreover have "idx + 1 + ?b div w \<le> length ?arr" using less.prems(2) step by simp
    ultimately obtain arr' buff' where
      "conv_drain w (?arr, idx + 1, buff mod 2 ^ ?b, ?b) = Ok (arr', idx + 1 + ?b div w, buff', ?b mod w)"
      "conv_inv w N (arr', idx + 1 + ?b div w, buff', ?b mod w)" "length arr' = length ?arr"
      using less.IH [of ?b ?arr "idx + 1" "buff mod 2 ^ ?b"] assms(1) True by auto
    moreover have "conv_drain w (arr, idx, buff, bits) = conv_drain w (?arr, idx + 1, buff mod 2 ^ ?b, ?b)"
      using True assms(1) idx by (subst conv_drain.simps) (simp add: vec_set_def)
    ultimately show ?thesis using step by auto
  qed
qed

lemma conv_fold_inv:
  assumes "0 < w" and "w \<le> 8" and "v + w \<le> 16" and "\<forall>c\<in>set cs. unat c < 2 ^ v"
    and "conv_inv w N (arr, idx, buff, bits)" and "bits < w" and "w * idx + bits = v * k"
    and "v * (k + length cs) div w \<le> length arr"
  shows "\<exists>arr' idx' buff' bits'. rfold (conv_step v w) cs (arr, idx, buff, bits) = Ok (arr', idx', buff', bits') \<and>
    conv_inv w (N * 2 ^ (v * length cs) + digits_val (2 ^ v) cs) (arr', idx', buff', bits') \<and>
    bits' < w \<and> w * idx' + bits' = v * (k + length cs) \<and> length arr' = length arr"
  using assms(4,8)
proof (induction cs rule: rev_induct)
  case Nil
  then show ?case using assms by auto
next
  case (snoc c cs)
  have "v * (k + length cs) div w \<le> v * (k + length (cs @ [c])) div w" by (intro div_le_mono) simp
  with snoc obtain arr1 idx1 buff1 bits1
    where run: "rfold (conv_step v w) cs (arr, idx, buff, bits) = Ok (arr1, idx1, buff1, bits1)"
      and inv: "conv_inv w (N * 2 ^ (v * length cs) + digits_val (2 ^ v) cs) (arr1, idx1, buff1, bits1)"
      and b1: "bits1 < w" and pos: "w * idx1 + bits1 = v * (k + length cs)" and len: "length arr1 = length arr"
    by auto
  let ?M = "N * 2 ^ (v * length cs) + digits_val (2 ^ v) cs"
  have c: "unat c < 2 ^ v" using snoc.prems(1) by simp
  have bb: "buff1 < 2 ^ bits1" using inv by (simp add: conv_inv_def)
  then have "buff1 * 2 ^ v < 2 ^ (bits1 + v)" by (simp add: power_add)
  also have "\<dots> \<le> 2 ^ 16" using b1 assms(3) by (intro power_increasing) auto
  finally have "(buff1 * 2 ^ v mod 2 ^ 16) OR unat c = buff1 * 2 ^ v + unat c"
    using c by (simp add: nat_or_disjoint)
  then have stp: "conv_step v w c (arr1, idx1, buff1, bits1) = conv_drain w (arr1, idx1, buff1 * 2 ^ v + unat c, bits1 + v)"
    by (simp add: conv_step_def)
  have "buff1 * 2 ^ v + unat c < 2 ^ (bits1 + v)"
  proof -
    have "(buff1 + 1) * 2 ^ v \<le> 2 ^ bits1 * 2 ^ v" using bb by (intro mult_right_mono) auto
    then show ?thesis using c by (simp add: power_add algebra_simps)
  qed
  then have inv2: "conv_inv w (?M * 2 ^ v + unat c) (arr1, idx1, buff1 * 2 ^ v + unat c, bits1 + v)"
  proof -
    have "digits_val (2 ^ w) (take idx1 arr1) * 2 ^ bits1 + buff1 = ?M" using inv by (simp add: conv_inv_def)
    then have "(digits_val (2 ^ w) (take idx1 arr1) * 2 ^ bits1 + buff1) * 2 ^ v + unat c = ?M * 2 ^ v + unat c"
      by simp
    then have "digits_val (2 ^ w) (take idx1 arr1) * 2 ^ (bits1 + v) + (buff1 * 2 ^ v + unat c) = ?M * 2 ^ v + unat c"
      by (simp add: power_add algebra_simps)
    with inv show ?thesis
      using \<open>buff1 * 2 ^ v + unat c < 2 ^ (bits1 + v)\<close> unfolding conv_inv_def by blast
  qed
  have total: "v * (k + length (cs @ [c])) = w * idx1 + (bits1 + v)" using pos by (simp add: algebra_simps)
  have "idx1 + (bits1 + v) div w = v * (k + length (cs @ [c])) div w"
    unfolding total using assms(1) by simp
  then have room: "idx1 + (bits1 + v) div w \<le> length arr1" using snoc.prems(2) len by simp
  from conv_drain_inv [OF assms(1,2) inv2 room] obtain arr' buff' where
    "conv_drain w (arr1, idx1, buff1 * 2 ^ v + unat c, bits1 + v) =
       Ok (arr', idx1 + (bits1 + v) div w, buff', (bits1 + v) mod w)"
    "conv_inv w (?M * 2 ^ v + unat c) (arr', idx1 + (bits1 + v) div w, buff', (bits1 + v) mod w)"
    "length arr' = length arr1" by blast
  moreover have "?M * 2 ^ v + unat c = N * 2 ^ (v * length (cs @ [c])) + digits_val (2 ^ v) (cs @ [c])"
    by (simp add: algebra_simps power_add)
  moreover have "w * (idx1 + (bits1 + v) div w) + (bits1 + v) mod w = v * (k + length (cs @ [c]))"
    using total by (simp add: algebra_simps)
  ultimately show ?case
    using run stp len assms(1) by (simp add: rfold_append)
qed

lemma conv_start: "conv_inv w 0 (replicate n 0, 0, 0, 0)"
  by (simp add: conv_inv_def)

lemma byte_lt: "unat (c :: u8) < 2 ^ 8"
  using unat_bound [of c] by simp

lemma update_last: "length xs = Suc i \<Longrightarrow> xs[i := x] = take i xs @ [x]"
  by (cases xs rule: rev_cases) auto

lemma div_mod_of: "k * q + r = m \<Longrightarrow> r < k \<Longrightarrow> q = m div k \<and> r = m mod k" for k q r m :: nat
  by auto

lemma conv8to5_spec:
  "\<exists>r. conv8to5 bs = Ok r \<and> 5 * length r = 8 * length bs + (5 * length r - 8 * length bs) \<and>
     5 * length r - 8 * length bs < 5 \<and> (\<forall>d\<in>set r. unat d < 2 ^ 5) \<and>
     digits_val (2 ^ 5) r = digits_val (2 ^ 8) bs * 2 ^ (5 * length r - 8 * length bs)"
proof -
  let ?n = "length bs"
  let ?pad = "if ?n mod 5 = 0 then 0 else (1 :: nat)"
  obtain arr idx buff bits
    where run: "rfold (conv_step 8 5) bs (replicate (?n * 8 div 5 + ?pad) 0, 0, 0, 0) = Ok (arr, idx, buff, bits)"
      and inv: "conv_inv 5 (digits_val (2 ^ 8) bs) (arr, idx, buff, bits)"
      and bits: "bits < 5" and pos: "5 * idx + bits = 8 * ?n" and len: "length arr = ?n * 8 div 5 + ?pad"
  proof -
    have "\<forall>c\<in>set bs. unat c < 2 ^ 8" using byte_lt by blast
    moreover have "8 * (0 + ?n) div 5 \<le> length (replicate (?n * 8 div 5 + ?pad) (0 :: u8))"
      by (simp add: mult.commute)
    ultimately have "\<exists>arr idx buff bits.
        rfold (conv_step 8 5) bs (replicate (?n * 8 div 5 + ?pad) 0, 0, 0, 0) = Ok (arr, idx, buff, bits) \<and>
        conv_inv 5 (0 * 2 ^ (8 * ?n) + digits_val (2 ^ 8) bs) (arr, idx, buff, bits) \<and> bits < 5 \<and>
        5 * idx + bits = 8 * (0 + ?n) \<and> length arr = length (replicate (?n * 8 div 5 + ?pad) (0 :: u8))"
      by (intro conv_fold_inv conv_start) simp_all
    then show ?thesis using that unfolding mult_0 add_0 length_replicate by blast
  qed
  have idx: "idx = ?n * 8 div 5" and bm: "bits = ?n * 8 mod 5"
    using div_mod_of [OF pos bits] by (simp_all only: mult.commute)
  have "5 dvd m * 8 \<longleftrightarrow> 5 dvd m" for m :: nat by presburger
  then have b0: "bits = 0 \<longleftrightarrow> ?n mod 5 = 0" unfolding bm dvd_eq_mod_eq_0 .
  show ?thesis
  proof (cases "bits = 0")
    case True
    then have "take idx arr = arr" using len idx b0 by simp
    moreover have "conv8to5 bs = Ok arr" using run True by (simp add: conv8to5_def Let_def)
    moreover have "5 * length arr = 8 * ?n" using pos True len idx b0 by simp
    ultimately show ?thesis using inv True by (auto simp: conv_inv_def)
  next
    case False
    let ?x = "of_nat (buff * 2 ^ (5 - bits) mod 2 ^ 16) :: u8"
    have la: "length arr = Suc idx" using len idx b0 False by simp
    then have arr: "arr[idx := ?x] = take idx arr @ [?x]" by (rule update_last)
    define y where "y = buff * 2 ^ (5 - bits)"
    have "buff * 2 ^ (5 - bits) < 2 ^ bits * 2 ^ (5 - bits)"
      using inv by (simp add: conv_inv_def)
    also have "\<dots> = 2 ^ 5" using bits by (simp flip: power_add)
    finally have "y < 32" by (simp add: y_def)
    then have x: "unat ?x = buff * 2 ^ (5 - bits)" "unat ?x < 2 ^ 5" unfolding y_def [symmetric] by simp_all
    have "digits_val (2 ^ 5) (take idx arr) * 2 ^ bits + buff = digits_val (2 ^ 8) bs"
      using inv by (simp add: conv_inv_def)
    then have "(digits_val (2 ^ 5) (take idx arr) * 2 ^ bits + buff) * 2 ^ (5 - bits) = digits_val (2 ^ 8) bs * 2 ^ (5 - bits)"
      by simp
    moreover have "(2 :: nat) ^ bits * 2 ^ (5 - bits) = 2 ^ 5" using bits by (simp flip: power_add)
    ultimately have "digits_val (2 ^ 5) (take idx arr @ [?x]) = digits_val (2 ^ 8) bs * 2 ^ (5 - bits)"
      unfolding digits_val_simps x(1) by (metis add_mult_distrib mult.assoc)
    moreover have "conv8to5 bs = Ok (take idx arr @ [?x])"
      using run False la arr by (simp add: conv8to5_def Let_def vec_set_def)
    moreover have "5 * length (take idx arr @ [?x]) - 8 * ?n = 5 - bits" "8 * ?n \<le> 5 * length (take idx arr @ [?x])"
      using pos la bits by simp_all
    ultimately show ?thesis using inv x(2) False by (auto simp: conv_inv_def)
  qed
qed

lemma conv5to8_spec:
  assumes "\<forall>d\<in>set ds. unat d < 2 ^ 5"
  shows "\<exists>r. conv5to8 ds = Ok r \<and> length r = 5 * length ds div 8 \<and>
    digits_val (2 ^ 8) r = digits_val (2 ^ 5) ds div 2 ^ (5 * length ds mod 8)"
proof -
  let ?n = "length ds"
  obtain arr idx buff bits
    where run: "rfold (conv_step 5 8) ds (replicate (?n * 5 div 8) 0, 0, 0, 0) = Ok (arr, idx, buff, bits)"
      and inv: "conv_inv 8 (digits_val (2 ^ 5) ds) (arr, idx, buff, bits)"
      and bits: "bits < 8" and pos: "8 * idx + bits = 5 * ?n" and len: "length arr = ?n * 5 div 8"
  proof -
    have "5 * (0 + ?n) div 8 \<le> length (replicate (?n * 5 div 8) (0 :: u8))"
      by (simp add: mult.commute)
    then have "\<exists>arr idx buff bits.
        rfold (conv_step 5 8) ds (replicate (?n * 5 div 8) 0, 0, 0, 0) = Ok (arr, idx, buff, bits) \<and>
        conv_inv 8 (0 * 2 ^ (5 * ?n) + digits_val (2 ^ 5) ds) (arr, idx, buff, bits) \<and> bits < 8 \<and>
        8 * idx + bits = 5 * (0 + ?n) \<and> length arr = length (replicate (?n * 5 div 8) (0 :: u8))"
      using assms by (intro conv_fold_inv conv_start) simp_all
    then show ?thesis using that unfolding mult_0 add_0 length_replicate by blast
  qed
  have idx: "idx = 5 * ?n div 8" "bits = 5 * ?n mod 8"
    using div_mod_of [OF pos bits] by simp_all
  have "length arr = idx" unfolding idx(1) len by (simp only: mult.commute)
  then have "take idx arr = arr" by simp
  then have "digits_val (2 ^ 8) arr * 2 ^ bits + buff = digits_val (2 ^ 5) ds" "buff < 2 ^ bits"
    using inv by (simp_all add: conv_inv_def)
  then have "digits_val (2 ^ 8) arr = digits_val (2 ^ 5) ds div 2 ^ bits"
    using div_mod_of [of "2 ^ bits" "digits_val (2 ^ 8) arr" buff] by (simp only: mult.commute)
  moreover have "conv5to8 ds = Ok arr" using run by (simp add: conv5to8_def)
  ultimately show ?thesis using \<open>length arr = idx\<close> unfolding idx by blast
qed

text \<open>Regrouping to five bits and back is the identity, and the other way for whole groups.\<close>

lemma conv5to8_conv8to5: "conv8to5 bs = Ok r \<Longrightarrow> conv5to8 r = Ok bs"
proof -
  assume r: "conv8to5 bs = Ok r"
  define p where "p = 5 * length r - 8 * length bs"
  from conv8to5_spec [of bs] r have p: "5 * length r = 8 * length bs + p" "p < 5"
    and five: "\<forall>d\<in>set r. unat d < 2 ^ 5" and v: "digits_val (2 ^ 5) r = digits_val (2 ^ 8) bs * 2 ^ p"
    by (auto simp: p_def)
  have "5 * length r div 8 = length bs" "5 * length r mod 8 = p" using p by simp_all
  with conv5to8_spec [OF five] v obtain q
    where q: "conv5to8 r = Ok q" "length q = length bs" "digits_val (2 ^ 8) q = digits_val (2 ^ 8) bs" by auto
  moreover have "q = bs" by (rule digits_unique [OF q(2) _ _ q(3)]) (use byte_lt in blast)+
  ultimately show ?thesis by simp
qed

lemma conv8to5_conv5to8:
  assumes "\<forall>d\<in>set ds. unat d < 2 ^ 5" and "length ds = 8" and "conv5to8 ds = Ok bs"
  shows "conv8to5 bs = Ok ds"
proof -
  have bs: "length bs = 5" "digits_val (2 ^ 8) bs = digits_val (2 ^ 5) ds"
    using conv5to8_spec [OF assms(1)] assms(2,3) by auto
  obtain r where r: "conv8to5 bs = Ok r" "5 * length r - 8 * length bs < 5" "8 * length bs \<le> 5 * length r"
    "\<forall>d\<in>set r. unat d < 2 ^ 5" "digits_val (2 ^ 5) r = digits_val (2 ^ 8) bs * 2 ^ (5 * length r - 8 * length bs)"
    using conv8to5_spec [of bs] by auto
  have "length r = 8" using r(2,3) bs(1) by simp
  then have "r = ds" using r bs assms(1,2) by (intro digits_unique [of r ds "2 ^ 5"]) auto
  with r(1) show ?thesis by simp
qed

section \<open>Lemmas on the text form\<close>

lemma charset_roundtrip: "unat c < 2 ^ 5 \<Longrightarrow> \<exists>ch. charset_at c = Ok ch \<and> char_value ch = Ok c"
proof -
  have "list_all (\<lambda>n. charset_at (of_nat n) = Ok (CHARSET ! n) \<and> char_value (CHARSET ! n) = Ok (of_nat n)) [0..<32]"
    by code_simp
  then have *: "charset_at (of_nat n) = Ok (CHARSET ! n) \<and> char_value (CHARSET ! n) = Ok (of_nat n)" if "n < 32" for n
    using that by (simp add: list_all_iff)
  assume "unat c < 2 ^ 5"
  then show ?thesis using * [of "unat c"] by simp
qed

lemma char_value_inverse: "char_value ch = Ok c \<Longrightarrow> unat c < 2 ^ 5 \<and> charset_at c = Ok ch"
proof -
  have "list_all (\<lambda>(n, v). v = 100 \<or> unat v < 32 \<and> of_char (CHARSET ! unat v) = n)
      (zip [0..<length REV_CHARSET] REV_CHARSET)"
    by code_simp
  then have *: "REV_CHARSET ! n = 100 \<or> unat (REV_CHARSET ! n) < 32 \<and> of_char (CHARSET ! unat (REV_CHARSET ! n)) = n"
    if "n < length REV_CHARSET" for n
    using that by (simp add: list_all_length)
  have "length CHARSET = 32" by code_simp
  moreover assume "char_value ch = Ok c"
  ultimately show ?thesis
    using * [of "of_char ch"] by (auto simp: char_value_def charset_at_def Let_def split: if_splits)
qed

lemma rmap_charset: "\<forall>d\<in>set ds. unat d < 2 ^ 5 \<Longrightarrow> \<exists>s. rmap charset_at ds = Ok s \<and> rmap char_value s = Ok ds"
proof (induction ds)
  case (Cons d ds)
  then obtain s where "rmap charset_at ds = Ok s" "rmap char_value s = Ok ds" by auto
  moreover obtain ch where "charset_at d = Ok ch" "char_value ch = Ok d"
    using charset_roundtrip [of d] Cons.prems by auto
  ultimately show ?case by simp
qed simp

lemma rmap_char_value:
  "rmap char_value s = Ok ds \<Longrightarrow> (\<forall>d\<in>set ds. unat d < 2 ^ 5) \<and> rmap charset_at ds = Ok s"
proof (induction s arbitrary: ds)
  case (Cons ch s)
  then show ?case using char_value_inverse by (fastforce simp: outcome_simps)
qed simp

text \<open>The checksum is a 40-bit number.\<close>

lemma polymod_step_bound: "take_bit 40 (polymod_step d c) = polymod_step d c"
proof -
  have "take_bit 40 (push_bit 5 (c AND 0x07ffffffff)) = push_bit 5 (c AND 0x07ffffffff)"
  proof -
    have "(0x07ffffffff :: u64) = mask 35" by (simp add: mask_eq_exp_minus_1)
    then have "c AND 0x07ffffffff = take_bit 35 c" by (simp only: take_bit_eq_mask)
    then show ?thesis by (simp add: take_bit_push_bit)
  qed
  moreover have "take_bit 40 (ucast d :: u64) = ucast d"
    by (rule bit_word_eqI) (auto simp: bit_take_bit_iff bit_unsigned_iff dest: bit_imp_le_length)
  ultimately have "take_bit 40 (push_bit 5 (c AND 0x07ffffffff) XOR ucast d) = push_bit 5 (c AND 0x07ffffffff) XOR ucast d"
    by (simp only: take_bit_xor)
  moreover have "take_bit 40 (x XOR k) = x XOR k" if "take_bit 40 x = x" "take_bit 40 k = k" for x k :: u64
    using that by (simp only: take_bit_xor)
  ultimately show ?thesis
    unfolding polymod_step_def Let_def by (auto split: if_splits)
qed

lemma polymod_bound: "unat (polymod vs) < 256 ^ 5"
proof -
  have fold: "take_bit 40 (fold polymod_step vs c) = fold polymod_step vs c" if "take_bit 40 c = c" for c
    using that by (induction vs arbitrary: c) (simp_all add: polymod_step_bound)
  have one: "take_bit 40 (1 :: u64) = 1" by simp
  have "take_bit 40 (polymod vs) = polymod vs"
    unfolding polymod_def take_bit_xor fold [OF one] one ..
  then have "unat (polymod vs) = take_bit 40 (unat (polymod vs))" by (metis unsigned_take_bit_eq)
  also have "\<dots> < 2 ^ 40" by (rule take_bit_nat_less_exp)
  finally show ?thesis by simp
qed

lemma checksum_bound: "unat (checksum pl prefix) < 256 ^ 5"
  unfolding checksum_def by (rule polymod_bound)

text \<open>The five big-endian checksum bytes and the number they stand for.\<close>

definition check_bytes_of :: "u64 \<Rightarrow> u8 list" where
  "check_bytes_of c = drop 3 (rev (to_le_bytes 8 (unat c)))"

lemma to_le_bytes_app: "to_le_bytes (j + k) n = to_le_bytes j n @ to_le_bytes k (n div 256 ^ j)"
  by (induction j arbitrary: n) (simp_all add: to_le_bytes_Suc div_mult2_eq, simp add: to_le_bytes_def)

lemma to_le_bytes_zero: "to_le_bytes k 0 = replicate k 0"
  by (induction k) (simp_all add: to_le_bytes_Suc, simp add: to_le_bytes_def)

lemma le_value_zeros: "le_value (bs @ replicate n 0) = le_value bs"
proof (induction bs)
  case Nil
  show ?case by (induction n) simp_all
qed simp

lemma check_bytes_of_eq: "unat c < 256 ^ 5 \<Longrightarrow> check_bytes_of c = rev (to_le_bytes 5 (unat c))"
  using to_le_bytes_app [of 5 3 "unat c"] by (simp add: check_bytes_of_def to_le_bytes_zero)

lemma check_bytes_number:
  assumes "length bs = 5" "unat c < 256 ^ 5"
  shows "c = of_nat (le_value (rev (replicate 3 0 @ bs))) \<longleftrightarrow> bs = check_bytes_of c"
proof -
  have z: "le_value (rev (replicate 3 0 @ bs)) = le_value (rev bs)"
    using le_value_zeros [of "rev bs" 3] by simp
  have "le_value (rev bs) < 256 ^ 5" using le_value_bound [of "rev bs"] assms(1) by simp
  then have "unat (of_nat (le_value (rev bs)) :: u64) = le_value (rev bs)"
    by (simp add: unat_of_nat)
  then have "c = of_nat (le_value (rev bs)) \<longleftrightarrow> unat c = le_value (rev bs)"
    by (metis word_eq_iff_unsigned)
  also have "\<dots> \<longleftrightarrow> rev bs = to_le_bytes 5 (unat c)"
    using le_value_to_le_bytes [OF assms(2)] to_le_bytes_le_value [of "rev bs"] assms(1) by auto
  finally show ?thesis unfolding z check_bytes_of_eq [OF assms(2)] by (simp add: rev_swap)
qed

lemma version_byte_inverse: "version_try_from b = Ok v \<longleftrightarrow> b = version_byte v"
  by (cases v) (auto simp: version_try_from_def)

lemma conv8to5_ok: "\<exists>r. conv8to5 bs = Ok r \<and> (\<forall>d\<in>set r. unat d < 2 ^ 5)"
  using conv8to5_spec [of bs] by blast

lemma conv8to5_five: "length bs = 5 \<Longrightarrow> conv8to5 bs = Ok r \<Longrightarrow> length r = 8"
  using conv8to5_spec [of bs] by auto

section \<open>Properties\<close>

text \<open>The addresses the node builds: the payload has the length of its version, and the stealth
  version goes with the stealth prefixes.\<close>

definition address_wf :: "address \<Rightarrow> bool" where
  "address_wf a = (length (addr_payload a) = address_key_len (addr_version a) \<and>
     is_stealth (addr_prefix a) = (addr_version a = VStealth))"

lemma encode_payload_iff:
  "encode_payload a = Ok s \<longleftrightarrow>
     (\<exists>pl ck. conv8to5 (version_byte (addr_version a) # addr_payload a) = Ok pl \<and>
        conv8to5 (check_bytes_of (checksum pl (fivebit_prefix (addr_prefix a)))) = Ok ck \<and>
        rmap charset_at (pl @ ck) = Ok s)"
  by (auto simp: encode_payload_def check_bytes_of_def Let_def outcome_simps)

lemma list_case_Ok:
  "(case xs of [] \<Rightarrow> Err e | x # ys \<Rightarrow> f x ys) = Ok y \<longleftrightarrow> (\<exists>x ys. xs = x # ys \<and> f x ys = Ok y)"
  by (cases xs) auto

lemma decode_payload_iff_steps:
  "decode_payload p s = Ok a \<longleftrightarrow>
     (\<exists>u5 cb u8. rmap char_value s = Ok u5 \<and> 8 \<le> length u5 \<and>
        conv5to8 (drop (length u5 - 8) u5) = Ok cb \<and> length cb = 5 \<and>
        checksum (take (length u5 - 8) u5) (fivebit_prefix p) = of_nat (le_value (rev (replicate 3 0 @ cb))) \<and>
        conv5to8 (take (length u5 - 8) u5) = Ok u8 \<and> u8 = version_byte (addr_version a) # addr_payload a \<and>
        conv8to5 u8 = Ok (take (length u5 - 8) u5) \<and> addr_prefix a = p \<and> address_wf a)"
proof -
  have *: "new_address p v bs = a \<longleftrightarrow> addr_prefix a = p \<and> addr_version a = v \<and> addr_payload a = bs" for v bs
    by (cases a) (auto simp: new_address_def)
  have five: "3 + n = 8 \<longleftrightarrow> n = 5" for n :: nat by simp
  show ?thesis
    unfolding decode_payload_def Let_def address_wf_def
    by (auto simp: outcome_simps version_byte_inverse * five list_case_Ok
      simp del: replicate.simps rev_append)
qed

lemma conv8to5_fivebit: "conv8to5 bs = Ok r \<Longrightarrow> \<forall>d\<in>set r. unat d < 2 ^ 5"
  using conv8to5_ok [of bs] by auto

lemma check_bytes_of_length: "length (check_bytes_of c) = 5"
  by (simp add: check_bytes_of_def)

lemma decode_encode_payload: 
  assumes "encode_payload a = Ok s" "address_wf a"
  shows "decode_payload (addr_prefix a) s = Ok a"
proof -
  obtain pl ck where pl: "conv8to5 (version_byte (addr_version a) # addr_payload a) = Ok pl"
    and ck: "conv8to5 (check_bytes_of (checksum pl (fivebit_prefix (addr_prefix a)))) = Ok ck"
    and s: "rmap charset_at (pl @ ck) = Ok s" using assms(1) unfolding encode_payload_iff by blast
  have "\<forall>d\<in>set (pl @ ck). unat d < 2 ^ 5" using conv8to5_fivebit [OF pl] conv8to5_fivebit [OF ck] by auto
  then have u: "rmap char_value s = Ok (pl @ ck)" using rmap_charset s by fastforce
  have l: "length ck = 8" by (rule conv8to5_five [OF check_bytes_of_length ck])
  then have t: "take (length (pl @ ck) - 8) (pl @ ck) = pl" "drop (length (pl @ ck) - 8) (pl @ ck) = ck" by simp_all
  have c: "checksum pl (fivebit_prefix (addr_prefix a)) =
      of_nat (le_value (rev (replicate 3 0 @ check_bytes_of (checksum pl (fivebit_prefix (addr_prefix a))))))"
    using check_bytes_number [OF check_bytes_of_length checksum_bound] by blast
  show ?thesis
    unfolding decode_payload_iff_steps
    by (rule exI [of _ "pl @ ck"])
       (use u l conv5to8_conv8to5 [OF ck] conv5to8_conv8to5 [OF pl] c pl assms(2) in
          \<open>simp add: t check_bytes_of_length del: replicate.simps rev_append\<close>)
qed

lemma encode_decode_payload:
  assumes "decode_payload p s = Ok a"
  shows "encode_payload a = Ok s \<and> addr_prefix a = p \<and> address_wf a"
proof -
  obtain u5 cb u8 where u: "rmap char_value s = Ok u5" "8 \<le> length u5"
    and cb: "conv5to8 (drop (length u5 - 8) u5) = Ok cb" "length cb = 5"
    and c: "checksum (take (length u5 - 8) u5) (fivebit_prefix p) = of_nat (le_value (rev (replicate 3 0 @ cb)))"
    and u8: "u8 = version_byte (addr_version a) # addr_payload a" "conv8to5 u8 = Ok (take (length u5 - 8) u5)"
    and p: "addr_prefix a = p" and wf: "address_wf a"
    using assms unfolding decode_payload_iff_steps by blast
  have five: "\<forall>d\<in>set u5. unat d < 2 ^ 5" and s: "rmap charset_at u5 = Ok s"
    using rmap_char_value [OF u(1)] by auto
  then have "\<forall>d\<in>set (drop (length u5 - 8) u5). unat d < 2 ^ 5" by (meson in_set_dropD)
  then have "conv8to5 cb = Ok (drop (length u5 - 8) u5)"
    using conv8to5_conv5to8 [OF _ _ cb(1)] u(2) by simp
  moreover have "cb = check_bytes_of (checksum (take (length u5 - 8) u5) (fivebit_prefix p))"
    using check_bytes_number [OF cb(2) checksum_bound] c by blast
  moreover have "take (length u5 - 8) u5 @ drop (length u5 - 8) u5 = u5" by simp
  ultimately show ?thesis
    unfolding encode_payload_iff using u8 s p wf by auto
qed

lemma encode_payload_total: "\<exists>s. encode_payload a = Ok s"
proof -
  obtain pl where pl: "conv8to5 (version_byte (addr_version a) # addr_payload a) = Ok pl" using conv8to5_ok by blast
  obtain ck where ck: "conv8to5 (check_bytes_of (checksum pl (fivebit_prefix (addr_prefix a)))) = Ok ck"
    using conv8to5_ok by blast
  have "\<forall>d\<in>set (pl @ ck). unat d < 2 ^ 5" using conv8to5_fivebit [OF pl] conv8to5_fivebit [OF ck] by auto
  then show ?thesis unfolding encode_payload_iff using rmap_charset pl ck by blast
qed

lemma prefix_colon_free: "prefix_try_from p = Ok q \<Longrightarrow> CHR '':'' \<notin> set p"
proof
  assume p: "CHR '':'' \<in> set p" and q: "prefix_try_from p = Ok q"
  have ne: "CHR '':'' \<notin> set w \<Longrightarrow> p = w \<longleftrightarrow> False" for w using p by auto
  from q show False by (simp add: prefix_try_from_def ne)
qed

lemma prefix_as_str_inverse: "prefix_try_from (prefix_as_str p) = Ok p"
  by (cases p) (simp_all add: prefix_try_from_def)

lemma split_once_iff: "split_once c s = Some (p, q) \<longleftrightarrow> s = p @ c # q \<and> c \<notin> set p"
proof
  assume "split_once c s = Some (p, q)"
  then have c: "c \<in> set s" and p: "p = takeWhile (\<lambda>x. x \<noteq> c) s" and q: "q = tl (dropWhile (\<lambda>x. x \<noteq> c) s)"
    by (auto simp: split_once_def split: if_splits)
  have "dropWhile (\<lambda>x. x \<noteq> c) s \<noteq> []" using c by (simp add: dropWhile_eq_Nil_conv)
  then have "dropWhile (\<lambda>x. x \<noteq> c) s = c # q"
    using hd_dropWhile [of "\<lambda>x. x \<noteq> c" s] unfolding q by (metis list.collapse)
  then show "s = p @ c # q \<and> c \<notin> set p"
    using takeWhile_dropWhile_id [of "\<lambda>x. x \<noteq> c" s] unfolding p by (auto dest: set_takeWhileD)
next
  assume s: "s = p @ c # q \<and> c \<notin> set p"
  then have "\<And>x. x \<in> set p \<Longrightarrow> x \<noteq> c" by blast
  then have "takeWhile (\<lambda>x. x \<noteq> c) (p @ c # q) = p @ takeWhile (\<lambda>x. x \<noteq> c) (c # q)"
    "dropWhile (\<lambda>x. x \<noteq> c) (p @ c # q) = dropWhile (\<lambda>x. x \<noteq> c) (c # q)"
    using takeWhile_append2 [of p "\<lambda>x. x \<noteq> c" "c # q"] dropWhile_append2 [of p "\<lambda>x. x \<noteq> c" "c # q"] by blast+
  with s show "split_once c s = Some (p, q)" by (simp add: split_once_def)
qed

lemma address_try_from_iff:
  "address_try_from s = Ok a \<longleftrightarrow>
     (\<exists>p pl. s = p @ CHR '':'' # pl \<and> prefix_try_from p = Ok (addr_prefix a) \<and>
        decode_payload (addr_prefix a) pl = Ok a)"
proof -
  have "address_try_from s = Ok a \<longleftrightarrow>
    (\<exists>p pl. split_once (CHR '':'') s = Some (p, pl) \<and> (\<exists>q. prefix_try_from p = Ok q \<and> decode_payload q pl = Ok a))"
    unfolding address_try_from_def by (auto simp: outcome_simps split: option.split)
  also have "\<dots> \<longleftrightarrow> (\<exists>p pl. s = p @ CHR '':'' # pl \<and> CHR '':'' \<notin> set p \<and>
      (\<exists>q. prefix_try_from p = Ok q \<and> decode_payload q pl = Ok a))"
    unfolding split_once_iff by blast
  also have "\<dots> \<longleftrightarrow> (\<exists>p pl. s = p @ CHR '':'' # pl \<and> prefix_try_from p = Ok (addr_prefix a) \<and>
      decode_payload (addr_prefix a) pl = Ok a)"
    using prefix_colon_free encode_decode_payload by blast
  finally show ?thesis .
qed

text \<open>C21. The text form of an address is exact: parsing accepts a string and returns an address
  exactly when the address is well formed and the string is a prefix name of its network, a colon
  and the one encoding of its version, payload and checksum. So decoding inverts encoding, no two
  addresses share a text, and beside the alternative prefix names an address has only one text.\<close>

theorem address_text_exact:
  "address_try_from s = Ok a \<longleftrightarrow>
     address_wf a \<and> (\<exists>p pl. s = p @ '':'' @ pl \<and> prefix_try_from p = Ok (addr_prefix a) \<and> encode_payload a = Ok pl)"
proof -
  have "decode_payload (addr_prefix a) pl = Ok a \<longleftrightarrow> address_wf a \<and> encode_payload a = Ok pl" for pl
    using decode_encode_payload encode_decode_payload by blast
  then show ?thesis unfolding address_try_from_iff append_Cons append_Nil by blast
qed

text \<open>Every well-formed address prints, and parsing the printed text gives the address back.\<close>

theorem address_string_roundtrip:
  assumes "address_wf a"
  shows "\<exists>s. address_to_string a = Ok s \<and> address_try_from s = Ok a"
proof -
  obtain pl where pl: "encode_payload a = Ok pl" using encode_payload_total by blast
  then have "address_try_from (prefix_as_str (addr_prefix a) @ CHR '':'' # pl) = Ok a"
    unfolding address_try_from_iff using decode_encode_payload assms prefix_as_str_inverse by blast
  with pl show ?thesis by (simp add: address_to_string_def)
qed

theorem address_string_roundtrip_witness:
  "address_wf (new_address StealthMainnet VStealth (replicate 64 7)) \<and>
   (\<exists>s. address_to_string (new_address StealthMainnet VStealth (replicate 64 7)) = Ok s \<and>
        address_try_from s = Ok (new_address StealthMainnet VStealth (replicate 64 7)))"
proof -
  have wf: "address_wf (new_address StealthMainnet VStealth (replicate 64 7))"
    by (simp add: address_wf_def new_address_def is_stealth_def)
  with address_string_roundtrip [OF wf] show ?thesis by blast
qed

text \<open>Neither printing an address nor parsing any string panics: every index of the regrouping
  loops and of the character tables is in range.\<close>

theorem address_text_never_panics: "address_to_string a \<noteq> Panic \<and> address_try_from s \<noteq> Panic"
proof
  show "address_to_string a \<noteq> Panic"
    using encode_payload_total [of a] by (auto simp: address_to_string_def)
  have five: "decode_payload p pl \<noteq> Panic" for p pl
  proof (cases "rmap char_value pl")
    case (Ok u5)
    then have "\<forall>d\<in>set u5. unat d < 2 ^ 5" using rmap_char_value by blast
    then have "\<forall>d\<in>set (take n u5). unat d < 2 ^ 5" "\<forall>d\<in>set (drop n u5). unat d < 2 ^ 5" for n
      by (meson in_set_takeD in_set_dropD)+
    then have c5: "conv5to8 (take n u5) \<noteq> Panic" "conv5to8 (drop n u5) \<noteq> Panic" for n
      using conv5to8_spec by (metis outcome.distinct(3))+
    have c8: "conv8to5 bs \<noteq> Panic" for bs using conv8to5_ok [of bs] by auto
    have v: "version_try_from b \<noteq> Panic" for b by (simp add: version_try_from_def)
    show ?thesis
      unfolding decode_payload_def Ok Let_def by (simp add: outcome_simps c5 c8 v split: list.split)
  next
    case Panic
    have "char_value ch \<noteq> Panic" for ch by (simp add: char_value_def Let_def)
    then show ?thesis using Panic rmap_no_panic by metis
  qed (simp add: decode_payload_def)
  have "prefix_try_from p \<noteq> Panic" for p by (simp add: prefix_try_from_def)
  then show "address_try_from s \<noteq> Panic"
    using five by (auto simp: address_try_from_def outcome_simps split: option.split)
qed

end
