(* ===== verification/Script_Standard.thy ===== *)
theory Script_Standard
  imports Script_Safety Address
begin

text \<open>
  Building scripts (\<^verbatim>\<open>crypto/txscript/src/script_builder.rs\<close>, \<^verbatim>\<open>standard.rs\<close>,
  \<^verbatim>\<open>standard/multisig.rs\<close>): the script builder, the scripts that pay to an address, and the
  way back from a script to its address.

  A builder is the script it has collected. An operation returns the builder after it, or the error,
  in which case the caller has no use of the builder.
\<close>

section \<open>The script builder\<close>

datatype script_builder_error =
    OpCodeRejected u8
  | OpCodesRejected nat
  | DataRejected nat
  | ElementExceedsMaxSize nat
  | IntegerRejected int
  | BuilderSerialization serialization_error

record script_builder =
  builder_script :: "u8 list"

type_synonym builder_result = "(script_builder, script_builder_error) outcome"

definition new_builder :: script_builder where
  "new_builder = \<lparr>builder_script = []\<rparr>"

definition drain :: "script_builder \<Rightarrow> u8 list" where
  "drain b = builder_script b"

definition builder_extend :: "u8 list \<Rightarrow> script_builder \<Rightarrow> script_builder" where
  "builder_extend bs b = b\<lparr>builder_script := builder_script b @ bs\<rparr>"

definition add_op :: "u8 \<Rightarrow> script_builder \<Rightarrow> builder_result" where
  "add_op opcode b =
     rbind (fail_if (length (builder_script b) \<ge> MAX_SCRIPTS_SIZE) (OpCodeRejected opcode)) (\<lambda>_.
       Ok (builder_extend [opcode] b))"

definition add_ops :: "u8 list \<Rightarrow> script_builder \<Rightarrow> builder_result" where
  "add_ops opcodes b =
     rbind (fail_if (length (builder_script b) + length opcodes > MAX_SCRIPTS_SIZE)
              (OpCodesRejected (length opcodes))) (\<lambda>_. Ok (builder_extend opcodes b))"

definition canonical_data_size :: "u8 list \<Rightarrow> nat" where
  "canonical_data_size d =
     (let data_len = length d
      in if data_len = 0 \<or> data_len = 1 \<and> (d ! 0 \<le> OP_SMALL_INT_MAX_VAL \<or> d ! 0 = OP_1_NEGATE_VAL) then 1
         else data_len +
           (if data_len \<le> unat OP_DATA_MAX_VAL then 1
            else if data_len \<le> 255 then 2
            else if data_len \<le> 65535 then 3
            else 5))"

definition add_raw_data :: "u8 list \<Rightarrow> script_builder \<Rightarrow> script_builder" where
  "add_raw_data d b =
     (let data_len = length d
      in if data_len = 0 then builder_extend [OpFalse] b
         else if data_len = 1 \<and> OP_SMALL_INT_MIN_VAL \<le> d ! 0 \<and> d ! 0 \<le> OP_SMALL_INT_MAX_VAL
         then builder_extend [(OpTrue - 1) + d ! 0] b
         else if data_len = 1 \<and> d ! 0 = OP_1_NEGATE_VAL then builder_extend [Op1Negate] b
         else builder_extend
           ((if data_len \<le> unat OP_DATA_MAX_VAL then [(OP_DATA_MIN_VAL - 1) + of_nat data_len]
             else if data_len \<le> 255 then [OpPushData1, of_nat data_len]
             else if data_len \<le> 65535 then OpPushData2 # to_le_bytes 2 data_len
             else OpPushData4 # to_le_bytes 4 data_len) @ d) b)"

definition add_data :: "u8 list \<Rightarrow> script_builder \<Rightarrow> builder_result" where
  "add_data d b =
     (let data_size = canonical_data_size d in
      rbind (fail_if (length (builder_script b) + data_size > MAX_SCRIPTS_SIZE) (DataRejected data_size)) (\<lambda>_.
      rbind (fail_if (length d > MAX_SCRIPT_ELEMENT_SIZE) (ElementExceedsMaxSize (length d))) (\<lambda>_.
        Ok (add_raw_data d b))))"

definition add_i64 :: "int \<Rightarrow> script_builder \<Rightarrow> builder_result" where
  "add_i64 val b =
     rbind (fail_if (length (builder_script b) + 1 > MAX_SCRIPTS_SIZE) (IntegerRejected val)) (\<lambda>_.
       if val = 0 then Ok (builder_extend [OpFalse] b)
       else if val = - 1 \<or> 1 \<le> val \<and> val \<le> 16 then Ok (builder_extend [word_of_int (uint OpTrue - 1 + val)] b)
       else case serialize_num val of
              Ok bytes \<Rightarrow> add_data bytes b
            | Err e \<Rightarrow> Err (BuilderSerialization e)
            | Panic \<Rightarrow> Panic)"

definition add_i64_min :: "script_builder \<Rightarrow> builder_result" where
  "add_i64_min b =
     (case serialize_sized 9 I64_MIN of Ok bytes \<Rightarrow> add_data bytes b | _ \<Rightarrow> Panic)"

text \<open>\<^verbatim>\<open>8 - buffer.iter().rev().position(|x| *x != 0).unwrap_or(8)\<close> drops the high zero bytes.\<close>

definition add_u64 :: "u64 \<Rightarrow> script_builder \<Rightarrow> builder_result" where
  "add_u64 val b =
     (let buffer = to_le_bytes 8 (unat val);
          trimmed_size = 8 - length (takeWhile (\<lambda>x. x = 0) (rev buffer))
      in add_data (take trimmed_size buffer) b)"

definition add_lock_time :: "u64 \<Rightarrow> script_builder \<Rightarrow> builder_result" where
  "add_lock_time val = add_u64 val"

definition add_sequence :: "u64 \<Rightarrow> script_builder \<Rightarrow> builder_result" where
  "add_sequence val = add_u64 val"

section \<open>Standard scripts\<close>

definition pay_to_pub_key :: "u8 list \<Rightarrow> (u8 list, script_error) outcome" where
  "pay_to_pub_key pl =
     (if length pl \<noteq> 32 then Err (InvalidPublicKeyLen (length pl)) else Ok (OpData32 # pl @ [OpCheckSig]))"

definition pay_to_pub_key_ecdsa :: "u8 list \<Rightarrow> (u8 list, script_error) outcome" where
  "pay_to_pub_key_ecdsa pl =
     (if length pl \<noteq> 33 then Err (InvalidPublicKeyLen (length pl)) else Ok (OpData33 # pl @ [OpCheckSigECDSA]))"

definition pay_to_pub_key_mldsa :: "u8 list \<Rightarrow> (u8 list, script_error) outcome" where
  "pay_to_pub_key_mldsa pl =
     (if length pl \<noteq> 1312 then Err (InvalidPublicKeyLen (length pl))
      else Ok (OpPushData2 # 0x20 # 0x05 # pl @ [OpCheckSigMLDSA]))"

definition pay_to_script_hash :: "u8 list \<Rightarrow> (u8 list, script_error) outcome" where
  "pay_to_script_hash h =
     (if length h \<noteq> 32 then Err (InvalidPublicKeyLen (length h)) else Ok ([OpBlake2b, OpData32] @ h @ [OpEqual]))"

fun class_of_version :: "address_version \<Rightarrow> script_class" where
  "class_of_version VPubKey = PubKey"
| "class_of_version VPubKeyECDSA = PubKeyECDSA"
| "class_of_version VPubKeyMLDSA = PubKeyMLDSA"
| "class_of_version VScriptHash = ScriptHash"
| "class_of_version VStealth = Stealth"

definition pay_to_address_script :: "address \<Rightarrow> (script_public_key, script_error) outcome" where
  "pay_to_address_script a =
     rbind (case addr_version a of
              VPubKey \<Rightarrow> pay_to_pub_key (addr_payload a)
            | VPubKeyECDSA \<Rightarrow> pay_to_pub_key_ecdsa (addr_payload a)
            | VPubKeyMLDSA \<Rightarrow> pay_to_pub_key_mldsa (addr_payload a)
            | VScriptHash \<Rightarrow> pay_to_script_hash (addr_payload a)
            | VStealth \<Rightarrow> Err PubKeyFormat) (\<lambda>s.
       Ok \<lparr>spk_version = class_version (class_of_version (addr_version a)), script = s\<rparr>)"

definition pay_to_script_hash_script :: "crypto \<Rightarrow> u8 list \<Rightarrow> script_public_key" where
  "pay_to_script_hash_script cr redeem_script =
     \<lparr>spk_version = class_version ScriptHash,
      script = [OpBlake2b, OpData32] @ hash_bytes (blake2b cr '''' redeem_script) @ [OpEqual]\<rparr>"

definition pay_to_script_hash_signature_script ::
    "u8 list \<Rightarrow> u8 list \<Rightarrow> (u8 list, script_builder_error) outcome" where
  "pay_to_script_hash_signature_script redeem_script sig =
     rbind (add_data redeem_script new_builder) (\<lambda>b. Ok (sig @ drain b))"

definition extract_script_pub_key_address ::
    "script_public_key \<Rightarrow> address_prefix \<Rightarrow> (address, script_error) outcome" where
  "extract_script_pub_key_address spk prefix =
     rbind (fail_if (is_stealth prefix) PubKeyFormat) (\<lambda>_.
       let cls = from_script spk; s = script spk in
       rbind (fail_if (spk_version spk > class_version cls) PubKeyFormat) (\<lambda>_.
         case cls of
           NonStandard \<Rightarrow> Err PubKeyFormat
         | PubKey \<Rightarrow> rbind (slice_at s 1 33) (\<lambda>k. Ok (new_address prefix VPubKey k))
         | PubKeyECDSA \<Rightarrow> rbind (slice_at s 1 34) (\<lambda>k. Ok (new_address prefix VPubKeyECDSA k))
         | PubKeyMLDSA \<Rightarrow> rbind (slice_at s 3 1315) (\<lambda>k. Ok (new_address prefix VPubKeyMLDSA k))
         | ScriptHash \<Rightarrow> rbind (slice_at s 2 34) (\<lambda>k. Ok (new_address prefix VScriptHash k))
         | Stealth \<Rightarrow> Err PubKeyFormat))"

section \<open>Multisig redeem scripts\<close>

datatype multisig_create_error =
    ErrTooManyRequiredSigs
  | ScriptBuilderError script_builder_error
  | EmptyKeys

definition in_builder ::
    "('a, script_builder_error) outcome \<Rightarrow> ('a, multisig_create_error) outcome" where
  "in_builder r = (case r of Ok x \<Rightarrow> Ok x | Err e \<Rightarrow> Err (ScriptBuilderError e) | Panic \<Rightarrow> Panic)"

text \<open>
  The two functions differ in the key length and the opcode. The iterator's size hint is exact or
  absent; the argument \<open>hint\<close> is its upper bound. \<^verbatim>\<open>required as i64\<close> is read as the number,
  which it is for every count of keys that fits in memory.
\<close>

definition multisig_redeem ::
    "u8 \<Rightarrow> nat option \<Rightarrow> u8 list list \<Rightarrow> nat \<Rightarrow> (u8 list, multisig_create_error) outcome" where
  "multisig_redeem opcode hint pub_keys required =
     rbind (fail_if (case hint of Some upper \<Rightarrow> upper < required | None \<Rightarrow> False) ErrTooManyRequiredSigs) (\<lambda>_.
     rbind (in_builder (add_i64 (int required) new_builder)) (\<lambda>b.
     rbind (in_builder (rfold add_data pub_keys b)) (\<lambda>b.
     rbind (fail_if (length pub_keys < required) ErrTooManyRequiredSigs) (\<lambda>_.
     rbind (fail_if (pub_keys = []) EmptyKeys) (\<lambda>_.
     rbind (in_builder (add_i64 (int (length pub_keys)) b)) (\<lambda>b.
     rbind (in_builder (add_op opcode b)) (\<lambda>b.
       Ok (drain b))))))))"

definition multisig_redeem_script ::
    "nat option \<Rightarrow> u8 list list \<Rightarrow> nat \<Rightarrow> (u8 list, multisig_create_error) outcome" where
  "multisig_redeem_script = multisig_redeem OpCheckMultiSig"

definition multisig_redeem_script_ecdsa ::
    "nat option \<Rightarrow> u8 list list \<Rightarrow> nat \<Rightarrow> (u8 list, multisig_create_error) outcome" where
  "multisig_redeem_script_ecdsa = multisig_redeem OpCheckMultiSigECDSA"

section \<open>Parsing and serialising\<close>

text \<open>The data of an opcode has the length its length column asks for.\<close>

definition opcode_wf :: "opcode \<Rightarrow> bool" where
  "opcode_wf op =
     (case opcode_length (op_value op) of
        FixedData n \<Rightarrow> length (op_data op) = n
      | VarData w \<Rightarrow> length (op_data op) < 256 ^ w)"

lemma deserialize_serialize:
  "opcode_wf op \<Longrightarrow> deserialize_next_opcode (serialize_opcode op @ rest) = Some (Ok op, rest)"
  by (cases op)
     (auto simp: opcode_wf_def serialize_opcode_def deserialize_next_opcode_def deserialize_fixed_def
        deserialize_var_def Let_def le_value_to_le_bytes split: op_length.splits)

lemma serialize_deserialize:
  assumes "deserialize_next_opcode s = Some (Ok op, rest)"
  shows "s = serialize_opcode op @ rest \<and> opcode_wf op"
proof -
  obtain v it where s: "s = v # it"
    using assms by (cases s) (simp_all add: deserialize_next_opcode_def)
  show ?thesis
  proof (cases "opcode_length v")
    case (FixedData n)
    then show ?thesis using assms
      by (auto simp: s deserialize_next_opcode_def deserialize_fixed_def serialize_opcode_def opcode_wf_def
          Let_def split: if_splits)
  next
    case (VarData w)
    have w: "to_le_bytes w (le_value (take w it)) = take w it" "le_value (take w it) < 256 ^ w"
      if "w \<le> length it"
      using to_le_bytes_le_value [of "take w it"] le_value_bound [of "take w it"] that by simp_all
    have "op = \<lparr>op_value = v, op_data = take (le_value (take w it)) (drop w it)\<rparr>"
      "rest = drop (le_value (take w it)) (drop w it)" "w \<le> length it"
      "le_value (take w it) \<le> length (drop w it)"
      using assms VarData
      by (auto simp: s deserialize_next_opcode_def deserialize_var_def Let_def split: if_splits)
    moreover have "it = take w it @ take n (drop w it) @ drop n (drop w it)" for n
      unfolding append_take_drop_id ..
    ultimately show ?thesis using VarData w
      by (simp add: s serialize_opcode_def opcode_wf_def del: drop_drop)
  qed
qed

lemma parse_script_Cons:
  "opcode_wf op \<Longrightarrow> parse_script (serialize_opcode op @ rest) = Ok op # parse_script rest"
  by (subst parse_script.simps) (simp add: deserialize_serialize)

lemma parse_script_Nil [simp]: "parse_script [] = []"
  by (subst parse_script.simps) (simp add: deserialize_next_opcode_def)

lemma parse_script_iff:
  "parse_script s = map Ok ops \<longleftrightarrow> s = concat (map serialize_opcode ops) \<and> list_all opcode_wf ops"
proof (induction ops arbitrary: s)
  case Nil
  have "parse_script s \<noteq> []" if "s \<noteq> []"
    using that by (subst parse_script.simps) (auto simp: deserialize_next_opcode_def split: list.split option.split prod.split)
  then show ?case by auto
next
  case (Cons op ops)
  show ?case
  proof
    assume p: "parse_script s = map Ok (op # ops)"
    then obtain rest where "deserialize_next_opcode s = Some (Ok op, rest)" "parse_script rest = map Ok ops"
      by (subst (asm) parse_script.simps) (auto split: option.splits)
    then show "s = concat (map serialize_opcode (op # ops)) \<and> list_all opcode_wf (op # ops)"
      using serialize_deserialize Cons.IH by auto
  next
    assume "s = concat (map serialize_opcode (op # ops)) \<and> list_all opcode_wf (op # ops)"
    then show "parse_script s = map Ok (op # ops)"
      using Cons.IH [of "concat (map serialize_opcode ops)"] by (simp add: parse_script_Cons)
  qed
qed

section \<open>What the builder writes\<close>

text \<open>The opcode that pushes the given data in the canonical way.\<close>

definition push_of :: "u8 list \<Rightarrow> opcode" where
  "push_of d =
     (if d = [] then \<lparr>op_value = OpFalse, op_data = []\<rparr>
      else if length d = 1 \<and> 1 \<le> d ! 0 \<and> d ! 0 \<le> 16 then \<lparr>op_value = 0x50 + d ! 0, op_data = []\<rparr>
      else if d = [0x81] then \<lparr>op_value = Op1Negate, op_data = []\<rparr>
      else \<lparr>op_value = (if length d \<le> 75 then of_nat (length d) else if length d \<le> 255 then OpPushData1
                        else if length d \<le> 65535 then OpPushData2 else OpPushData4), op_data = d\<rparr>)"

lemmas opcode_numbers =
  OpFalse_def OpTrue_def Op16_def Op1Negate_def OpPushData1_def OpPushData2_def OpPushData4_def
  OP_SMALL_INT_MIN_VAL_def OP_SMALL_INT_MAX_VAL_def OP_DATA_MIN_VAL_def OP_DATA_MAX_VAL_def
  OP_1_NEGATE_VAL_def NO_COST_OPCODE_def

lemma small_byte_cases:
  fixes b :: u8
  assumes "1 \<le> b" "b \<le> 16"
  shows "b \<in> set [1, 2, 3, 4, 5, 6, 7, 8, 9, 10, 11, 12, 13, 14, 15, 16]"
proof -
  have "unat b \<in> set [1..<17]" using assms by (auto simp: word_le_nat_alt)
  also have "[1..<17] = [1, 2, 3, 4, 5, 6, 7, 8, 9, 10, 11, 12, 13, 14, 15, 16 :: nat]" by code_simp
  finally have "(of_nat (unat b) :: u8) \<in> of_nat ` set [1, 2, 3, 4, 5, 6, 7, 8, 9, 10, 11, 12, 13, 14, 15, 16]" by blast
  then show ?thesis by simp
qed

lemma data_length_byte:
  assumes "1 \<le> n" "n \<le> 75"
  shows "1 \<le> (of_nat n :: u8)" "(of_nat n :: u8) \<le> 75" "unat (of_nat n :: u8) = n" "(of_nat n :: u8) \<noteq> 0"
    "(of_nat n :: u8) \<le> 0x4e" "(of_nat n :: u8) \<le> 0x60"
proof -
  show u: "unat (of_nat n :: u8) = n" using assms by (simp add: unat_of_nat)
  show "1 \<le> (of_nat n :: u8)" "(of_nat n :: u8) \<le> 75" "(of_nat n :: u8) \<le> 0x4e"
    "(of_nat n :: u8) \<le> 0x60" unfolding word_le_nat_alt u using assms by simp_all
  show "(of_nat n :: u8) \<noteq> 0"
  proof
    assume z: "(of_nat n :: u8) = 0"
    show False using u assms unfolding z by simp
  qed
qed

lemma opcode_length_simps:
  "opcode_length 0 = FixedData 0" "opcode_length 1 = FixedData 1" "opcode_length 0x4c = VarData 1" "opcode_length 0x4d = VarData 2"
  "opcode_length 0x4e = VarData 4" "opcode_length 0x4f = FixedData 0"
  by (simp_all add: opcode_length_def opcode_numbers)

lemma opcode_length_high: "0x4f \<le> v \<Longrightarrow> opcode_length v = FixedData 0"
  by (auto simp: opcode_length_def opcode_numbers word_le_nat_alt)

lemma opcode_length_data: "1 \<le> n \<Longrightarrow> n \<le> 75 \<Longrightarrow> opcode_length (of_nat n) = FixedData n"
  using data_length_byte [of n] by (simp add: opcode_length_def opcode_numbers)

lemma small_int_opcode:
  assumes "1 \<le> b" "b \<le> (16 :: u8)"
  shows "0x51 \<le> 0x50 + b" "0x50 + b \<le> 0x60" "uint (0x50 + b) - 0x50 = uint b" "0x50 + b \<noteq> 0x50"
    "0x4f \<le> 0x50 + b" "\<not> 0x50 + b \<le> 0x4e" "0x50 + b \<noteq> 0" "0x50 + b \<noteq> 0x4f"
  using small_byte_cases [OF assms] by auto

lemma push_of_cases [case_names empty small negate data]:
  assumes "d = [] \<Longrightarrow> push_of d = \<lparr>op_value = 0, op_data = []\<rparr> \<Longrightarrow> P"
    and "\<And>b. d = [b] \<Longrightarrow> 1 \<le> b \<Longrightarrow> b \<le> 16 \<Longrightarrow> push_of d = \<lparr>op_value = 0x50 + b, op_data = []\<rparr> \<Longrightarrow> P"
    and "d = [0x81] \<Longrightarrow> push_of d = \<lparr>op_value = 0x4f, op_data = []\<rparr> \<Longrightarrow> P"
    and "\<And>v. d \<noteq> [] \<Longrightarrow> \<not> (length d = 1 \<and> 1 \<le> d ! 0 \<and> d ! 0 \<le> 16) \<Longrightarrow> d \<noteq> [0x81] \<Longrightarrow>
           v = (if length d \<le> 75 then of_nat (length d) else if length d \<le> 255 then 0x4c
                else if length d \<le> 65535 then 0x4d else 0x4e) \<Longrightarrow>
           push_of d = \<lparr>op_value = v, op_data = d\<rparr> \<Longrightarrow> P"
  shows P
proof -
  consider "d = []" | b where "d = [b]" "1 \<le> b" "b \<le> 16" | "d = [0x81]"
    | "d \<noteq> []" "\<not> (length d = 1 \<and> 1 \<le> d ! 0 \<and> d ! 0 \<le> 16)" "d \<noteq> [0x81]"
    by (cases d) fastforce+
  then show P using assms by cases (simp_all add: push_of_def opcode_numbers)
qed

lemma push_of_wf: "length d < 2 ^ 32 \<Longrightarrow> opcode_wf (push_of d)"
  by (cases d rule: push_of_cases)
     (auto simp: opcode_wf_def opcode_length_simps opcode_length_data opcode_length_high small_int_opcode
        order_trans [OF _ small_int_opcode(1)] Suc_le_eq)

lemma singleton_nth: "length d = 1 \<Longrightarrow> d ! 0 = b \<longleftrightarrow> d = [b]"
  by (cases d) auto

lemma add_raw_data_writes:
  "length d < 2 ^ 32 \<Longrightarrow> builder_script (add_raw_data d b) = builder_script b @ serialize_opcode (push_of d)"
proof (cases d rule: push_of_cases)
  case (data v)
  assume l: "length d < 2 ^ 32"
  have "add_raw_data d b = builder_extend
      ((if length d \<le> 75 then [of_nat (length d)] else if length d \<le> 255 then [0x4c, of_nat (length d)]
        else if length d \<le> 65535 then 0x4d # to_le_bytes 2 (length d) else 0x4e # to_le_bytes 4 (length d)) @ d) b"
    using data(1-3) by (auto simp: add_raw_data_def Let_def opcode_numbers singleton_nth)
  moreover have "serialize_opcode (push_of d) =
      (if length d \<le> 75 then [of_nat (length d)] else if length d \<le> 255 then [0x4c, of_nat (length d)]
        else if length d \<le> 65535 then 0x4d # to_le_bytes 2 (length d) else 0x4e # to_le_bytes 4 (length d)) @ d"
    using data(1,4) unfolding data(5)
    by (simp add: serialize_opcode_def opcode_length_data opcode_length_simps Suc_le_eq to_le_bytes_def)
  ultimately show ?thesis by (simp add: builder_extend_def)
next
  case (small b)
  then show ?thesis
    by (simp add: add_raw_data_def builder_extend_def serialize_opcode_def opcode_numbers opcode_length_high
        order_trans [OF _ small_int_opcode(1)])
qed (simp_all add: add_raw_data_def builder_extend_def serialize_opcode_def opcode_numbers opcode_length_simps)

lemma serialize_num_small:
  assumes "1 \<le> b" "b \<le> (16 :: u8)"
  shows "serialize_num (uint b) = Ok [b]"
proof -
  have "list_all (\<lambda>b :: u8. serialize_num (uint b) = Ok [b]) [1, 2, 3, 4, 5, 6, 7, 8, 9, 10, 11, 12, 13, 14, 15, 16]"
    by code_simp
  with small_byte_cases [OF assms] show ?thesis unfolding list_all_iff by blast
qed

lemma serialize_num_minus_one: "serialize_num (- 1) = Ok [0x81]"
  by code_simp

lemma push_of_is_push: "is_push_opcode (push_of d)"
proof (cases d rule: push_of_cases)
  case (data v)
  then show ?thesis
    using data_length_byte [of "length d"]
    by (simp add: is_push_opcode_def opcode_numbers Suc_le_eq)
qed (simp_all add: is_push_opcode_def opcode_numbers small_int_opcode)

lemma push_of_minimal: "d \<noteq> [] \<Longrightarrow> op_data (push_of d) = d \<Longrightarrow> check_minimal_data_push (push_of d) = Ok ()"
proof (cases d rule: push_of_cases)
  case (data v)
  then show ?thesis
    using data_length_byte(3) [of "length d"]
    by (auto simp: check_minimal_data_push_eq Let_def op_len_def opcode_numbers singleton_nth Suc_le_eq)
qed simp_all

lemma execute_push_of: "execute_push (push_of d) vm = push_data d vm"
proof (cases d rule: push_of_cases)
  case (small b)
  then show ?thesis
    using small small_int_opcode [OF small(2,3)]
    by (simp add: execute_push_def Let_def opcode_numbers push_number_def on_dstack_def push_item_def
        from_serialization_def serialize_num_small push_data_def)
next
  case (data v)
  have "v \<le> 0x4e" "v \<noteq> 0"
    using data(1,4) data_length_byte [of "length d"]
    by (auto simp: Suc_le_eq)
  with data show ?thesis by (simp add: execute_push_def Let_def opcode_numbers)
qed (simp_all add: execute_push_def Let_def opcode_numbers push_number_def on_dstack_def push_item_def
      from_serialization_def serialize_num_minus_one push_data_def)

lemma execute_push_opcode:
  assumes "length d \<le> MAX_SCRIPT_ELEMENT_SIZE" "is_executing vm"
  shows "execute_opcode cr (push_of d) vm = Ok (vm\<lparr>dstack := dstack vm @ [d]\<rparr>)"
proof -
  have "op_len (push_of d) \<le> MAX_SCRIPT_ELEMENT_SIZE"
    using assms(1) by (cases d rule: push_of_cases) (simp_all add: op_len_def)
  moreover have "(if 0 < op_value (push_of d) \<and> op_value (push_of d) \<le> OpPushData4
      then check_minimal_data_push (push_of d) else Ok ()) = Ok ()"
  proof (cases d rule: push_of_cases)
    case (small b)
    with small_int_opcode(6) [OF small(2,3)] show ?thesis by (simp add: opcode_numbers)
  next
    case (data v)
    then show ?thesis using push_of_minimal [of d] by simp
  qed (simp_all add: opcode_numbers)
  ultimately show ?thesis
    using push_of_is_push [of d] assms(2) execute_push_of [of d vm]
    by (simp add: execute_opcode_def execute_op_def push_data_def)
qed

lemma add_data_Ok_iff:
  "add_data d b = Ok b' \<longleftrightarrow>
     length (builder_script b) + canonical_data_size d \<le> MAX_SCRIPTS_SIZE \<and> length d \<le> MAX_SCRIPT_ELEMENT_SIZE \<and>
     b' = builder_extend (serialize_opcode (push_of d)) b"
proof -
  have "add_raw_data d b = builder_extend (serialize_opcode (push_of d)) b" if "length d \<le> 2500"
    using add_raw_data_writes [of d b] that by (simp add: builder_extend_def script_builder.equality)
  then show ?thesis
    by (auto simp: add_data_def Let_def outcome_simps MAX_SCRIPT_ELEMENT_SIZE_def)
qed

lemma add_i64_writes:
  assumes "add_i64 v b = Ok b'"
  shows "\<exists>bytes. serialize_num v = Ok bytes \<and> length bytes \<le> 8 \<and> b' = builder_extend (serialize_opcode (push_of bytes)) b"
proof -
  consider "v = 0" | "v = - 1" | "1 \<le> v" "v \<le> 16" | "v \<noteq> 0" "\<not> (v = - 1 \<or> 1 \<le> v \<and> v \<le> 16)" by linarith
  then show ?thesis
  proof cases
    case 1
    have "serialize_num 0 = Ok []" by code_simp
    with 1 assms show ?thesis
      by (auto simp: add_i64_def outcome_simps push_of_def serialize_opcode_def opcode_numbers opcode_length_simps)
  next
    case 2
    with assms show ?thesis
      by (auto simp: add_i64_def outcome_simps push_of_def serialize_opcode_def opcode_numbers opcode_length_simps
          serialize_num_minus_one)
  next
    case 3
    define w :: u8 where "w = word_of_int v"
    have w: "uint w = v" "1 \<le> w" "w \<le> 16"
      using 3 by (simp_all add: w_def word_le_def uint_word_of_int)
    have "word_of_int (80 + v) = 0x50 + w" by (simp add: w_def)
    moreover have "b' = builder_extend [word_of_int (80 + v)] b"
      using 3 assms by (auto simp: add_i64_def outcome_simps opcode_numbers)
    moreover have "serialize_opcode (push_of [w]) = [0x50 + w]"
      using w small_int_opcode(5) [OF w(2,3)]
      by (simp add: push_of_def serialize_opcode_def opcode_length_high)
    ultimately show ?thesis using serialize_num_small [OF w(2,3)] w(1) by auto
  next
    case 4
    then have "\<exists>bytes. serialize_num v = Ok bytes \<and> add_data bytes b = Ok b'"
      using assms by (auto simp: add_i64_def outcome_simps split: outcome.splits)
    then show ?thesis
      by (auto simp: add_data_Ok_iff serialize_num_def serialize_sized_def outcome_simps split: if_splits)
  qed
qed

lemma builder_extend_append: "builder_extend ys (builder_extend xs b) = builder_extend (xs @ ys) b"
  by (simp add: builder_extend_def)

lemma add_data_all:
  assumes "rfold add_data ds b = Ok b'"
  shows "b' = builder_extend (concat (map (serialize_opcode \<circ> push_of) ds)) b \<and>
         (\<forall>d\<in>set ds. length d \<le> MAX_SCRIPT_ELEMENT_SIZE)"
  using assms
proof (induction ds arbitrary: b)
  case Nil
  then show ?case by (simp add: builder_extend_def)
next
  case (Cons d ds)
  from Cons.prems obtain b1 where "add_data d b = Ok b1" "rfold add_data ds b1 = Ok b'" by (auto simp: outcome_simps)
  with Cons.IH [of b1] show ?case by (simp add: add_data_Ok_iff builder_extend_append)
qed

lemma in_builder_Ok [simp]: "in_builder r = Ok x \<longleftrightarrow> r = Ok x"
  by (cases r) (simp_all add: in_builder_def)

text \<open>The opcodes of a multisig redeem script.\<close>

lemma multisig_redeem_opcodes:
  assumes "multisig_redeem opcode hint keys required = Ok s"
  shows "\<exists>r n. serialize_num (int required) = Ok r \<and> serialize_num (int (length keys)) = Ok n \<and>
    length r \<le> 8 \<and> length n \<le> 8 \<and> (\<forall>k\<in>set keys. length k \<le> MAX_SCRIPT_ELEMENT_SIZE) \<and>
    s = concat (map serialize_opcode (push_of r # map push_of keys @ [push_of n])) @ [opcode]"
proof -
  obtain b1 b2 b3 b4 where b: "add_i64 (int required) new_builder = Ok b1" "rfold add_data keys b1 = Ok b2"
    "add_i64 (int (length keys)) b2 = Ok b3" "add_op opcode b3 = Ok b4" and s: "s = drain b4"
    using assms by (auto simp: multisig_redeem_def outcome_simps)
  obtain r where r: "serialize_num (int required) = Ok r" "length r \<le> 8"
    "b1 = builder_extend (serialize_opcode (push_of r)) new_builder" using add_i64_writes [OF b(1)] by blast
  obtain n where n: "serialize_num (int (length keys)) = Ok n" "length n \<le> 8"
    "b3 = builder_extend (serialize_opcode (push_of n)) b2" using add_i64_writes [OF b(3)] by blast
  have "b4 = builder_extend [opcode] b3" using b(4) by (auto simp: add_op_def outcome_simps)
  then show ?thesis
    using add_data_all [OF b(2)] r n s
    by (auto simp: builder_extend_append drain_def) (simp add: builder_extend_def new_builder_def)
qed

lemma plain_opcode:
  assumes "0x4f \<le> v"
  shows "opcode_wf \<lparr>op_value = v, op_data = []\<rparr>" "serialize_opcode \<lparr>op_value = v, op_data = []\<rparr> = [v]"
  using opcode_length_high [OF assms] by (simp_all add: opcode_wf_def serialize_opcode_def)

lemma multisig_redeem_parses:
  assumes "multisig_redeem opcode hint keys required = Ok s" "0x4f \<le> opcode"
  shows "\<exists>r n. serialize_num (int (length keys)) = Ok n \<and>
    parse_script s = map Ok (push_of r # map push_of keys @ [push_of n, \<lparr>op_value = opcode, op_data = []\<rparr>])"
proof -
  obtain r n where rn: "serialize_num (int (length keys)) = Ok n" "length r \<le> 8" "length n \<le> 8"
    and keys: "\<forall>k\<in>set keys. length k \<le> MAX_SCRIPT_ELEMENT_SIZE"
    and s: "s = concat (map serialize_opcode (push_of r # map push_of keys @ [push_of n])) @ [opcode]"
    using multisig_redeem_opcodes [OF assms(1)] by blast
  have "\<forall>k\<in>set keys. opcode_wf (push_of k)" using keys push_of_wf by (fastforce simp: MAX_SCRIPT_ELEMENT_SIZE_def)
  moreover have "opcode_wf (push_of r)" "opcode_wf (push_of n)" using rn(2,3) by (simp_all add: push_of_wf)
  moreover have "s = concat (map serialize_opcode
      (push_of r # map push_of keys @ [push_of n, \<lparr>op_value = opcode, op_data = []\<rparr>]))"
    using s plain_opcode(2) [OF assms(2)] by simp
  ultimately have "parse_script s =
      map Ok (push_of r # map push_of keys @ [push_of n, \<lparr>op_value = opcode, op_data = []\<rparr>])"
    using plain_opcode(1) [OF assms(2)] unfolding parse_script_iff by (simp add: list_all_iff)
  with rn(1) show ?thesis by blast
qed

definition counts_no_sigs :: "opcode \<Rightarrow> bool" where
  "counts_no_sigs op = (op_value op < OpCheckSigMLDSA)"

lemma sig_op_loop_skip:
  "list_all counts_no_sigs ops \<Longrightarrow>
   sig_op_loop prev (map Ok ops @ rest) n = sig_op_loop (if ops = [] then prev else Some (Ok (last ops))) rest n"
proof (induction ops arbitrary: prev)
  case (Cons op ops)
  then have "op_value op \<notin> {OpCheckSig, OpCheckSigVerify, OpCheckSigECDSA, OpCheckSigMLDSA}"
    "op_value op \<notin> {OpCheckMultiSig, OpCheckMultiSigVerify, OpCheckMultiSigECDSA}"
    by (auto simp: counts_no_sigs_def OpCheckSigMLDSA_def OpCheckSig_def OpCheckSigVerify_def OpCheckSigECDSA_def
        OpCheckMultiSig_def OpCheckMultiSigVerify_def OpCheckMultiSigECDSA_def)
  with Cons show ?case by simp
qed simp

lemma push_of_counts_none: "counts_no_sigs (push_of d)"
  using push_of_is_push [of d]
  by (simp add: counts_no_sigs_def is_push_opcode_def opcode_numbers OpCheckSigMLDSA_def word_le_nat_alt word_less_nat_alt)

lemma serialize_num_Ok: "serialize_num v = Ok n \<Longrightarrow> serialize_i64 v = Ok n \<and> length n \<le> 8"
  by (auto simp: serialize_num_def serialize_sized_def outcome_simps split: if_splits)

text \<open>The opcode that pushes a count: a small integer, or the length of the encoded number.\<close>

lemma number_push_value:
  assumes "serialize_num (int k) = Ok n" "0 < k"
  shows "op_value (push_of n) = (if k \<le> 16 then 0x50 + of_nat k else of_nat (length n))" "1 \<le> length n" "length n \<le> 8"
proof -
  note dec = serialize_i64_decodes [OF conjunct1 [OF serialize_num_Ok [OF assms(1)]]]
  have ne: "n \<noteq> []" and mag: "magnitude n = k" and sign: "unat (last n) < 128" using dec assms(2) by simp_all
  from ne show "1 \<le> length n" by (simp add: Suc_le_eq)
  show l: "length n \<le> 8" using serialize_num_Ok [OF assms(1)] by simp
  show "op_value (push_of n) = (if k \<le> 16 then 0x50 + of_nat k else of_nat (length n))"
  proof (cases "k \<le> 16")
    case True
    then have u: "unat (of_nat k :: u8) = k" using assms(2) data_length_byte(3) [of k] by simp
    have b: "1 \<le> (of_nat k :: u8)" "(of_nat k :: u8) \<le> 16" "uint (of_nat k :: u8) = int k"
      unfolding word_le_nat_alt uint_nat u using True assms(2) by simp_all
    then have "n = [of_nat k]" using serialize_num_small [OF b(1,2)] assms(1) by simp
    with b True show ?thesis by (simp add: push_of_def)
  next
    case False
    have "unat b = k" if b: "n = [b]" "1 \<le> b" "b \<le> 16" for b
    proof -
      have "serialize_i64 (uint b) = Ok n" using serialize_num_Ok [OF serialize_num_small [OF b(2,3)]] b(1) by simp
      moreover have "uint b \<noteq> 0" using b(2) by (auto simp: word_le_def)
      ultimately have "magnitude n = nat \<bar>uint b\<bar>" by (rule serialize_i64_decodes(3))
      with mag show ?thesis by simp
    qed
    then have "\<not> (length n = 1 \<and> 1 \<le> n ! 0 \<and> n ! 0 \<le> 16)"
      using False by (cases n) (auto simp: word_le_nat_alt)
    moreover have "n \<noteq> [0x81]" using sign by auto
    ultimately have "op_value (push_of n) = of_nat (length n)"
      using ne l unfolding push_of_def by auto
    with False show ?thesis by simp
  qed
qed

section \<open>Addresses\<close>

lemma ends_split: "length s = Suc (n + k) \<Longrightarrow> s = take k s @ take n (drop k s) @ [s ! (n + k)]"
proof -
  assume l: "length s = Suc (n + k)"
  then have "drop k s = take (Suc n) (drop k s)" by simp
  also have "\<dots> = take n (drop k s) @ [drop k s ! n]" using l by (intro take_Suc_conv_app_nth) simp
  also have "drop k s ! n = s ! (n + k)" using l by (simp add: add.commute)
  finally show ?thesis using append_take_drop_id [of k s] by simp
qed

lemmas class_defs =
  is_pay_to_pubkey_def is_pay_to_pubkey_ecdsa_def is_pay_to_pubkey_mldsa_def is_pay_to_script_hash_def
  is_pay_to_stealth_def

lemma class_scripts:
  "is_pay_to_pubkey s \<longleftrightarrow> (\<exists>pl. length pl = 32 \<and> s = OpData32 # pl @ [OpCheckSig])"
  "is_pay_to_pubkey_ecdsa s \<longleftrightarrow> (\<exists>pl. length pl = 33 \<and> s = OpData33 # pl @ [OpCheckSigECDSA])"
  "is_pay_to_script_hash s \<longleftrightarrow> (\<exists>pl. length pl = 32 \<and> s = OpBlake2b # OpData32 # pl @ [OpEqual])"
  "is_pay_to_pubkey_mldsa s \<longleftrightarrow> (\<exists>pl. length pl = 1312 \<and> s = OpPushData2 # 0x20 # 0x05 # pl @ [OpCheckSigMLDSA])"
proof -
  have one: "take 1 s = [s ! 0]" if "length s = Suc n" for n using that by (cases s) simp_all
  have two: "take 2 s = [s ! 0, s ! 1]" if "length s = Suc (Suc n)" for n
    using that by (cases s; cases "tl s") (simp_all add: numeral_2_eq_2)
  have three: "take 3 s = [s ! 0, s ! 1, s ! 2]" if "length s = Suc (Suc (Suc n))" for n
    using that by (cases s; cases "tl s"; cases "tl (tl s)") (simp_all add: numeral_2_eq_2 numeral_3_eq_3)
  show "is_pay_to_pubkey s \<longleftrightarrow> (\<exists>pl. length pl = 32 \<and> s = OpData32 # pl @ [OpCheckSig])"
    using ends_split [of s 32 1] one [of 33] by (auto simp: class_defs nth_append intro!: exI [of _ "take 32 (drop 1 s)"])
  show "is_pay_to_pubkey_ecdsa s \<longleftrightarrow> (\<exists>pl. length pl = 33 \<and> s = OpData33 # pl @ [OpCheckSigECDSA])"
    using ends_split [of s 33 1] one [of 34] by (auto simp: class_defs nth_append intro!: exI [of _ "take 33 (drop 1 s)"])
  show "is_pay_to_script_hash s \<longleftrightarrow> (\<exists>pl. length pl = 32 \<and> s = OpBlake2b # OpData32 # pl @ [OpEqual])"
    using ends_split [of s 32 2] two [of 33] by (auto simp: class_defs nth_append intro!: exI [of _ "take 32 (drop 2 s)"])
  show "is_pay_to_pubkey_mldsa s \<longleftrightarrow> (\<exists>pl. length pl = 1312 \<and> s = OpPushData2 # 0x20 # 0x05 # pl @ [OpCheckSigMLDSA])"
    using ends_split [of s 1312 3] three [of 1313]
    by (auto simp: class_defs nth_append intro!: exI [of _ "take 1312 (drop 3 s)"])
qed

section \<open>Properties\<close>

text \<open>C25. A script parses to a list of opcodes without an error exactly when it is the concatenation
  of their serialisations, each opcode with data of the length it announces.\<close>

theorem script_parse_exact:
  "parse_script s = map Ok ops \<longleftrightarrow> s = concat (map serialize_opcode ops) \<and> list_all opcode_wf ops"
  by (rule parse_script_iff)

text \<open>C26. When the builder accepts data, what it appends parses to one push opcode, and the engine
  accepts that opcode as a minimal push and puts exactly the data on the stack.\<close>

theorem add_data_pushes:
  assumes "add_data d b = Ok b'"
  shows "\<exists>op. builder_script b' = builder_script b @ serialize_opcode op \<and>
    parse_script (serialize_opcode op) = [Ok op] \<and> is_push_opcode op \<and>
    (\<forall>cr vm. is_executing vm \<longrightarrow> execute_opcode cr op vm = Ok (vm\<lparr>dstack := dstack vm @ [d]\<rparr>))"
proof -
  have d: "length d \<le> MAX_SCRIPT_ELEMENT_SIZE" "b' = builder_extend (serialize_opcode (push_of d)) b"
    using assms by (simp_all add: add_data_Ok_iff)
  have "parse_script (serialize_opcode (push_of d)) = [Ok (push_of d)]"
    using parse_script_Cons [of "push_of d" "[]"] d(1) by (simp add: push_of_wf MAX_SCRIPT_ELEMENT_SIZE_def)
  then show ?thesis
    using d execute_push_opcode push_of_is_push by (intro exI [of _ "push_of d"]) (simp add: builder_extend_def)
qed

theorem add_data_pushes_witness:
  "\<exists>op. [2, 7, 9] = serialize_opcode op \<and> parse_script (serialize_opcode op) = [Ok op] \<and> is_push_opcode op \<and>
    (\<forall>cr vm. is_executing vm \<longrightarrow> execute_opcode cr op vm = Ok (vm\<lparr>dstack := dstack vm @ [[7, 9]]\<rparr>))"
proof -
  have "add_data [7, 9] new_builder = Ok \<lparr>builder_script = [2, 7, 9]\<rparr>"
    by (simp add: add_data_def canonical_data_size_def MAX_SCRIPTS_SIZE_def MAX_SCRIPT_ELEMENT_SIZE_def
        opcode_numbers add_raw_data_def builder_extend_def new_builder_def)
  from add_data_pushes [OF this] show ?thesis by (simp add: new_builder_def)
qed

text \<open>What paying to an address and reading the address of a script compute, case by case.\<close>

lemma pay_to_address_script_iff:
  "pay_to_address_script a = Ok spk \<longleftrightarrow>
     spk_version spk = 0 \<and>
     (addr_version a = VPubKey \<and> length (addr_payload a) = 32 \<and> script spk = OpData32 # addr_payload a @ [OpCheckSig] \<or>
      addr_version a = VPubKeyECDSA \<and> length (addr_payload a) = 33 \<and>
        script spk = OpData33 # addr_payload a @ [OpCheckSigECDSA] \<or>
      addr_version a = VPubKeyMLDSA \<and> length (addr_payload a) = 1312 \<and>
        script spk = OpPushData2 # 0x20 # 0x05 # addr_payload a @ [OpCheckSigMLDSA] \<or>
      addr_version a = VScriptHash \<and> length (addr_payload a) = 32 \<and>
        script spk = OpBlake2b # OpData32 # addr_payload a @ [OpEqual])"
  by (cases spk; cases "addr_version a")
     (auto simp: pay_to_address_script_def outcome_simps pay_to_pub_key_def pay_to_pub_key_ecdsa_def
        pay_to_pub_key_mldsa_def pay_to_script_hash_def split: if_splits)

lemma from_script_iff:
  "from_script spk = PubKey \<longleftrightarrow> spk_version spk = 0 \<and> is_pay_to_pubkey (script spk)"
  "from_script spk = PubKeyECDSA \<longleftrightarrow> spk_version spk = 0 \<and> is_pay_to_pubkey_ecdsa (script spk)"
  "from_script spk = PubKeyMLDSA \<longleftrightarrow> spk_version spk = 0 \<and> is_pay_to_pubkey_mldsa (script spk)"
  "from_script spk = ScriptHash \<longleftrightarrow> spk_version spk = 0 \<and> is_pay_to_script_hash (script spk)"
  by (auto simp: from_script_def Let_def class_defs OpBlake2b_def OpData33_def STEALTH_SCRIPT_VERSION_def)

lemma extract_address_iff:
  "extract_script_pub_key_address spk p = Ok a \<longleftrightarrow>
     \<not> is_stealth p \<and> addr_prefix a = p \<and>
     (from_script spk = PubKey \<and> addr_version a = VPubKey \<and> addr_payload a = take 32 (drop 1 (script spk)) \<or>
      from_script spk = PubKeyECDSA \<and> addr_version a = VPubKeyECDSA \<and> addr_payload a = take 33 (drop 1 (script spk)) \<or>
      from_script spk = PubKeyMLDSA \<and> addr_version a = VPubKeyMLDSA \<and> addr_payload a = take 1312 (drop 3 (script spk)) \<or>
      from_script spk = ScriptHash \<and> addr_version a = VScriptHash \<and> addr_payload a = take 32 (drop 2 (script spk)))"
proof -
  have new: "new_address p v bs = a \<longleftrightarrow> addr_prefix a = p \<and> addr_version a = v \<and> addr_payload a = bs" for v bs
    by (cases a) (auto simp: new_address_def)
  have v: "from_script spk \<in> {PubKey, PubKeyECDSA, PubKeyMLDSA, ScriptHash} \<Longrightarrow> spk_version spk = 0"
    by (auto simp: from_script_iff)
  have len: "from_script spk = PubKey \<Longrightarrow> length (script spk) = 34"
    "from_script spk = PubKeyECDSA \<Longrightarrow> length (script spk) = 35"
    "from_script spk = PubKeyMLDSA \<Longrightarrow> length (script spk) = 1316"
    "from_script spk = ScriptHash \<Longrightarrow> length (script spk) = 35"
    by (simp_all add: from_script_iff is_pay_to_pubkey_def is_pay_to_pubkey_ecdsa_def
        is_pay_to_pubkey_mldsa_def is_pay_to_script_hash_def)
  show ?thesis
    using v len by (cases "from_script spk") (auto simp: extract_script_pub_key_address_def Let_def outcome_simps new)
qed

lemma to_small_int_eq:
  "0x51 \<le> op_value op \<Longrightarrow> op_value op < 0x60 \<Longrightarrow> to_small_int op = Ok (op_value op - 0x50)"
  "op_value op = 0x60 \<Longrightarrow> to_small_int op = Panic"
proof -
  assume v: "0x51 \<le> op_value op" "op_value op < 0x60"
  then have "0x50 \<le> op_value op" "op_value op \<noteq> 0" by (auto simp: word_le_nat_alt)
  with v show "to_small_int op = Ok (op_value op - 0x50)"
    by (simp add: to_small_int_def opcode_numbers checked_sub_def)
qed (simp add: to_small_int_def opcode_numbers)

lemma multisig_turn:
  "sig_op_loop (Some (Ok op)) [Ok \<lparr>op_value = OpCheckMultiSig, op_data = []\<rparr>] 0 =
     (if op_value op = 0x60 then Panic
      else if 0x51 \<le> op_value op \<and> op_value op < 0x60 then Ok (ucast (op_value op - 0x50)) else Ok 20)"
proof -
  have add0: "checked_add 0 x = Some x" for x :: u64 using unat_bound [of x] by (simp add: checked_add_def)
  have "op_value op \<le> 0x60 \<longleftrightarrow> op_value op < 0x60 \<or> op_value op = 0x60" by auto
  then show ?thesis
    by (auto simp: OpCheckMultiSig_def OpCheckSig_def OpCheckSigVerify_def OpCheckSigECDSA_def OpCheckSigMLDSA_def
        opcode_numbers add0 to_small_int_eq)
qed

lemma small_count_opcode:
  assumes "0 < k" "k \<le> 16"
  shows "0x50 + of_nat k = (0x60 :: u8) \<longleftrightarrow> k = 16" "0x51 \<le> (0x50 + of_nat k :: u8)"
    "(0x50 + of_nat k :: u8) < 0x60 \<longleftrightarrow> k < 16" "(ucast (of_nat k :: u8) :: u64) = of_nat k"
proof -
  have "k \<in> set [1..<17]" using assms by simp
  also have "[1..<17] = [1, 2, 3, 4, 5, 6, 7, 8, 9, 10, 11, 12, 13, 14, 15, 16 :: nat]" by code_simp
  finally show "0x50 + of_nat k = (0x60 :: u8) \<longleftrightarrow> k = 16" "0x51 \<le> (0x50 + of_nat k :: u8)"
    "(0x50 + of_nat k :: u8) < 0x60 \<longleftrightarrow> k < 16" "(ucast (of_nat k :: u8) :: u64) = of_nat k" by auto
qed

text \<open>C27. Paying to an address and reading the address of a script are inverse to each other: a
  script has an address under a prefix exactly when it is the script that pays to that address,
  and stealth prefixes have none. The payload may be any bytes of the right length: unlike the
  comment on \<^verbatim>\<open>extract_script_pub_key_address\<close> says, an invalid public key is not an error.\<close>

theorem address_script_exact:
  "extract_script_pub_key_address spk p = Ok a \<longleftrightarrow>
     \<not> is_stealth p \<and> addr_prefix a = p \<and> pay_to_address_script a = Ok spk"
  unfolding extract_address_iff pay_to_address_script_iff from_script_iff class_scripts
  by (auto simp: append_eq_conv_conj)

text \<open>C28. The static signature count of a multisig redeem script is its number of keys up to 15 and
  the cap of 20 from 17 on. At 16 keys, the largest count with an opcode of its own, counting
  panics: the assertion of \<^verbatim>\<open>to_small_int\<close> leaves \<^verbatim>\<open>Op16\<close> out.\<close>

theorem multisig_static_sig_ops:
  assumes "multisig_redeem_script hint keys required = Ok s"
  shows "get_sig_op_count_by_opcodes (parse_script s) =
    (if length keys = 16 then Panic else Ok (if length keys < 16 then of_nat (length keys) else 20))"
proof -
  let ?cms = "\<lparr>op_value = OpCheckMultiSig, op_data = []\<rparr>" and ?k = "length keys"
  have hi: "0x4f \<le> OpCheckMultiSig" by (simp add: OpCheckMultiSig_def)
  obtain r n where n: "serialize_num (int ?k) = Ok n"
    and p: "parse_script s = map Ok (push_of r # map push_of keys @ [push_of n]) @ [Ok ?cms]"
    using multisig_redeem_parses [OF assms [unfolded multisig_redeem_script_def] hi] by auto
  have "0 < ?k" using assms by (auto simp: multisig_redeem_script_def multisig_redeem_def outcome_simps)
  note num = number_push_value [OF n \<open>0 < ?k\<close>]
  have "get_sig_op_count_by_opcodes (parse_script s) = sig_op_loop (Some (Ok (push_of n))) [Ok ?cms] 0"
    unfolding get_sig_op_count_by_opcodes_def p
    by (subst sig_op_loop_skip) (simp_all add: push_of_counts_none list_all_iff)
  also have "\<dots> = (if ?k = 16 then Panic else Ok (if ?k < 16 then of_nat ?k else 20))"
  proof (cases "?k \<le> 16")
    case True
    with num(1) \<open>0 < ?k\<close> show ?thesis
      unfolding multisig_turn by (simp add: small_count_opcode)
  next
    case False
    have "\<not> 0x51 \<le> (of_nat (length n) :: u8)"
      using data_length_byte(3) [of "length n"] num(2,3) by (auto simp: word_le_nat_alt)
    moreover from this have "(of_nat (length n) :: u8) \<noteq> 0x60" by auto
    ultimately show ?thesis using num(1) False unfolding multisig_turn by simp
  qed
  finally show ?thesis .
qed

lemma add_keys_Ok:
  "\<forall>k\<in>set ks. length k = 32 \<Longrightarrow> length (builder_script b) + 33 * length ks \<le> MAX_SCRIPTS_SIZE \<Longrightarrow>
   \<exists>b'. rfold add_data ks b = Ok b' \<and> length (builder_script b') = length (builder_script b) + 33 * length ks"
proof (induction ks arbitrary: b)
  case (Cons k ks)
  have k: "length k = 32" using Cons.prems(1) by simp
  then have "canonical_data_size k = 33" "length (serialize_opcode (push_of k)) = 33"
    using opcode_length_data [of 32]
    by (simp_all add: canonical_data_size_def opcode_numbers push_of_def serialize_opcode_def) (auto simp: opcode_length_def opcode_numbers)
  then have "add_data k b = Ok (builder_extend (serialize_opcode (push_of k)) b)"
    "length (builder_script (builder_extend (serialize_opcode (push_of k)) b)) = length (builder_script b) + 33"
    using Cons.prems(2) k by (simp_all add: add_data_Ok_iff MAX_SCRIPT_ELEMENT_SIZE_def builder_extend_def)
  with Cons.IH [of "builder_extend (serialize_opcode (push_of k)) b"] Cons.prems show ?case by (auto simp: outcome_simps)
qed simp

theorem multisig_static_sig_ops_witness:
  "\<exists>s. multisig_redeem_script None (replicate 16 (replicate 32 7)) 2 = Ok s \<and>
       get_sig_op_count_by_opcodes (parse_script s) = (Panic :: (u64, script_error) outcome)"
proof -
  define keys where "keys = replicate 16 (replicate 32 (7 :: u8))"
  have two: "add_i64 2 new_builder = Ok (builder_extend [0x52] new_builder)"
    by (simp add: add_i64_def MAX_SCRIPTS_SIZE_def new_builder_def OpTrue_def)
  obtain b where b: "rfold add_data keys (builder_extend [0x52] new_builder) = Ok b" "length (builder_script b) = 529"
    using add_keys_Ok [of keys "builder_extend [0x52] new_builder"]
    by (auto simp: keys_def builder_extend_def new_builder_def MAX_SCRIPTS_SIZE_def)
  have "add_i64 (int (length keys)) b = Ok (builder_extend [0x60] b)"
    using b(2) by (simp add: keys_def add_i64_def MAX_SCRIPTS_SIZE_def OpTrue_def)
  then have "\<exists>s. multisig_redeem_script None keys 2 = Ok s"
    using two b by (auto simp: multisig_redeem_script_def multisig_redeem_def in_builder_def keys_def add_op_def
        builder_extend_def MAX_SCRIPTS_SIZE_def)
  then show ?thesis using multisig_static_sig_ops [of None keys 2] by (auto simp: keys_def)
qed

text \<open>The builder keeps the size limit, except that the size it reckons for the single byte 0
  is one too small: that byte is written as two bytes, so a script can grow to one byte over the
  limit, and then only by that push.\<close>

theorem add_data_size:
  assumes "add_data d b = Ok b'"
  shows "length (builder_script b') = length (builder_script b) + canonical_data_size d + (if d = [0] then 1 else 0)"
proof -
  have l: "length d \<le> 2500" and b': "b' = builder_extend (serialize_opcode (push_of d)) b"
    using assms by (simp_all add: add_data_Ok_iff MAX_SCRIPT_ELEMENT_SIZE_def)
  have "length (serialize_opcode (push_of d)) = canonical_data_size d + (if d = [0] then 1 else 0)"
  proof (cases d rule: push_of_cases)
    case (small b)
    with small_int_opcode(5) [OF small(2,3)] show ?thesis
      by (auto simp: serialize_opcode_def canonical_data_size_def opcode_length_high opcode_numbers)
  next
    case (data v)
    have one: "length d = 1 \<and> (d ! 0 \<le> 16 \<or> d ! 0 = 0x81) \<longleftrightarrow> d = [0]"
    proof -
      have "1 \<le> x" if "x \<noteq> 0" for x :: u8 using that by (simp add: word_le_nat_alt Suc_le_eq unat_gt_0)
      then show ?thesis using data(2,3) singleton_nth [of d] by (cases d) auto
    qed
    show ?thesis
      using data(1,4) l one unfolding data(5)
      by (auto simp: serialize_opcode_def canonical_data_size_def Let_def opcode_length_data opcode_length_simps
          opcode_numbers Suc_le_eq)
  qed (simp_all add: serialize_opcode_def canonical_data_size_def opcode_length_simps opcode_numbers)
  then show ?thesis by (simp add: b' builder_extend_def)
qed

theorem add_data_size_witness:
  "add_data [0] \<lparr>builder_script = replicate 9999 7\<rparr> = Ok \<lparr>builder_script = replicate 9999 7 @ [1, 0]\<rparr> \<and>
   length (replicate 9999 (7 :: u8) @ [1, 0]) = MAX_SCRIPTS_SIZE + 1"
proof -
  have "add_data [0] \<lparr>builder_script = replicate 9999 7\<rparr> = Ok \<lparr>builder_script = replicate 9999 7 @ [1, 0]\<rparr>"
    by (simp add: add_data_def canonical_data_size_def MAX_SCRIPTS_SIZE_def MAX_SCRIPT_ELEMENT_SIZE_def
        opcode_numbers add_raw_data_def builder_extend_def)
  with add_data_size [OF this] show ?thesis by (simp add: MAX_SCRIPTS_SIZE_def canonical_data_size_def opcode_numbers)
qed

end
