(* ===== verification/Script_Spend.thy ===== *)
theory Script_Spend
  imports Script_Standard "HOL-Library.Sublist"
begin

text \<open>
  Who can spend what: the verdict of the script engine on the standard outputs, stated without the
  engine. The definitions here are specifications; the code they speak about is
  \<^verbatim>\<open>TxScriptEngine::execute\<close> and the signature checks of \<^verbatim>\<open>crypto/txscript/src/lib.rs\<close>.
\<close>

section \<open>Specification\<close>

text \<open>
  What a signature check of each kind of key comes to: no verdict when the signature or the key has
  the wrong length or does not parse, and otherwise whether the signature verifies over the
  signature hash of the input.
\<close>

fun key_verdict :: "crypto \<Rightarrow> populated_tx \<Rightarrow> nat \<Rightarrow> address_version \<Rightarrow> u8 \<Rightarrow> u8 list \<Rightarrow> u8 list \<Rightarrow> bool option" where
  "key_verdict cr tx i VPubKey ht key sg =
     (if length sg = 64 \<and> length key = 32
      then case (xonly_from_slice cr key, schnorr_from_slice cr sg) of
             (Inr k, Inr s) \<Rightarrow> Some (schnorr_verify cr s (sighash cr tx i ht) k) | _ \<Rightarrow> None
      else None)"
| "key_verdict cr tx i VPubKeyECDSA ht key sg =
     (if length sg = 64 \<and> length key = 33
      then case (pubkey_from_slice cr key, ecdsa_from_compact cr sg) of
             (Inr k, Inr s) \<Rightarrow>
               Some (ecdsa_verify cr s (TransactionSigningHashECDSA cr (hash_bytes (sighash cr tx i ht))) k)
           | _ \<Rightarrow> None
      else None)"
| "key_verdict cr tx i VPubKeyMLDSA ht key sg =
     (if length sg = 2420 \<and> length key = 1312
      then case (public_key_from_bytes key Level2, signature_from_bytes sg Level2) of
             (Ok k, Ok s) \<Rightarrow> Some (mldsa_verify (ml_dsa cr) (hash_bytes (sighash cr tx i ht)) s k) | _ \<Rightarrow> None
      else None)"
| "key_verdict cr tx i _ ht key sg = None"

text \<open>A stack item authorizes a spend when it is such a signature followed by its sighash type.\<close>

definition authorizes :: "crypto \<Rightarrow> populated_tx \<Rightarrow> nat \<Rightarrow> address_version \<Rightarrow> u8 list \<Rightarrow> u8 list \<Rightarrow> bool" where
  "authorizes cr tx i v key item =
     (item \<noteq> [] \<and> (\<exists>ht. sighash_from_u8 (last item) = Some ht \<and>
        key_verdict cr tx i v ht key (butlast item) = Some True))"

section \<open>Push-only scripts\<close>

lemma push_value_cases:
  fixes v :: u8
  assumes "v \<le> 0x60"
  obtains "v = 0" | "0 < v" "v \<le> 0x4e" | "v = 0x4f" | "v = 0x50" | "0x51 \<le> v"
proof -
  have n: "v = of_nat k \<longleftrightarrow> unat v = k" if "k < 256" for k
    using that by (auto simp: word_eq_iff_unsigned unat_of_nat)
  have "unat v = 0 \<or> 0 < unat v \<and> unat v \<le> 0x4e \<or> unat v = 0x4f \<or> unat v = 0x50 \<or> 0x51 \<le> unat v"
    by linarith
  then show thesis
    using that n [of 0] n [of "0x4f"] n [of "0x50"] by (auto simp: word_le_nat_alt word_less_nat_alt)
qed

lemma plain_push_of:
  "opcode_wf op \<Longrightarrow> op_value op = 0 \<Longrightarrow> op = push_of []"
  "opcode_wf op \<Longrightarrow> op_value op = 0x4f \<Longrightarrow> op = push_of [0x81]"
  by (cases op; simp add: opcode_wf_def opcode_length_simps push_of_def opcode_numbers)+

lemma small_push_of:
  assumes "opcode_wf op" "0x51 \<le> op_value op" "op_value op \<le> 0x60"
  shows "\<exists>b. op = push_of [b]"
proof (intro exI)
  define b where "b = op_value op - 0x50"
  have "unat b = unat (op_value op) - 0x50" "unat (op_value op) \<ge> 0x51" "unat (op_value op) \<le> 0x60"
    using assms(2,3) by (auto simp: b_def word_le_nat_alt unat_sub)
  then have "1 \<le> b" "b \<le> 16" by (simp_all add: word_le_nat_alt)
  moreover have "op_data op = []"
    using assms(1) opcode_length_high [of "op_value op"] assms(2)
    by (simp add: opcode_wf_def word_le_nat_alt)
  ultimately show "op = push_of [b]" by (cases op) (simp add: push_of_def b_def)
qed

lemma of_unat_eq: "unat v = n \<Longrightarrow> v = of_nat n"
  by auto

lemma minimal_push_of:
  assumes "check_minimal_data_push op = Ok ()" "0 < op_value op" "op_value op \<le> 0x4e" "length (op_data op) \<le> 2500"
  shows "op = push_of (op_data op)"
proof -
  let ?d = "op_data op" and ?v = "op_value op"
  have ne: "?d \<noteq> []"
    using assms(1,2) by (auto simp: check_minimal_data_push_eq op_len_def opcode_numbers outcome_simps)
  have "\<not> (length ?d = 1 \<and> 1 \<le> ?d ! 0 \<and> ?d ! 0 \<le> 16)"
  proof
    assume b: "length ?d = 1 \<and> 1 \<le> ?d ! 0 \<and> ?d ! 0 \<le> 16"
    have "checked_add (0x51 :: u8) (?d ! 0) = Some (0x51 + ?d ! 0)"
      "checked_sub (0x51 + ?d ! 0) (1 :: u8) = Some (0x50 + ?d ! 0)"
      using small_byte_cases [of "?d ! 0"] b by (auto simp: checked_add_def checked_sub_def)
    then have "?v = 0x50 + ?d ! 0"
      using assms(1) b by (simp add: check_minimal_data_push_eq op_len_def opcode_numbers outcome_simps Let_def)
    then show False using small_int_opcode(6) [of "?d ! 0"] b assms(3) by simp
  qed
  moreover have "?d \<noteq> [0x81]"
    using assms(1,3) by (auto simp: check_minimal_data_push_eq op_len_def opcode_numbers outcome_simps Let_def)
  moreover have "?v = (if length ?d \<le> 75 then of_nat (length ?d) else if length ?d \<le> 255 then 0x4c else 0x4d)"
    using assms(1,4) ne calculation singleton_nth [of ?d]
    by (auto simp: check_minimal_data_push_eq op_len_def opcode_numbers outcome_simps Let_def
        intro!: of_unat_eq split: if_splits)
  ultimately have "push_of ?d = \<lparr>op_value = ?v, op_data = ?d\<rparr>"
    using ne assms(4) unfolding push_of_def opcode_numbers by auto
  then show ?thesis by simp
qed

lemma execute_push_inv:
  assumes "is_push_opcode op" "opcode_wf op" "is_executing vm" "execute_opcode cr op vm = Ok vm'"
  shows "\<exists>d. op = push_of d \<and> length d \<le> MAX_SCRIPT_ELEMENT_SIZE \<and> vm' = vm\<lparr>dstack := dstack vm @ [d]\<rparr>"
proof -
  let ?v = "op_value op" and ?d = "op_data op"
  have size: "length ?d \<le> 2500"
    and min: "0 < ?v \<Longrightarrow> ?v \<le> 0x4e \<Longrightarrow> check_minimal_data_push op = Ok ()"
    and ex: "execute_push op vm = Ok vm'"
    using assms(1,3,4)
    by (auto simp: execute_opcode_def execute_op_def outcome_simps op_len_def MAX_SCRIPT_ELEMENT_SIZE_def opcode_numbers
        split: if_splits)
  have "?v \<le> 0x60" using assms(1) by (simp add: is_push_opcode_def opcode_numbers)
  then have "\<exists>d. op = push_of d \<and> length d \<le> 2500"
  proof (cases ?v rule: push_value_cases)
    case 1
    with plain_push_of(1) [OF assms(2)] show ?thesis by (intro exI [of _ "[]"]) simp
  next
    case 2
    with minimal_push_of [OF min] size show ?thesis by blast
  next
    case 3
    with plain_push_of(2) [OF assms(2)] show ?thesis by (intro exI [of _ "[0x81]"]) simp
  next
    case 4
    with ex show ?thesis by (simp add: execute_push_def opcode_numbers)
  next
    case 5
    with small_push_of [OF assms(2)] \<open>?v \<le> 0x60\<close> obtain b where "op = push_of [b]" by blast
    then show ?thesis by (intro exI [of _ "[b]"]) simp
  qed
  then obtain d where "op = push_of d" "length d \<le> 2500" by blast
  moreover from this have "vm' = vm\<lparr>dstack := dstack vm @ [d]\<rparr>"
    using ex execute_push_of [of d vm] by (simp add: push_data_def)
  ultimately show ?thesis by (auto simp: MAX_SCRIPT_ELEMENT_SIZE_def)
qed

text \<open>A signature script is a sequence of canonical pushes, and leaves what they push.\<close>

definition push_script :: "u8 list list \<Rightarrow> u8 list" where
  "push_script ds = concat (map (serialize_opcode \<circ> push_of) ds)"

lemma push_of_legal: "\<not> is_disabled (push_of d)" "\<not> always_illegal (push_of d)"
  using push_of_is_push [of d]
  by (auto simp: is_push_opcode_def is_disabled_def always_illegal_def opcode_numbers word_le_nat_alt)

lemma parse_items_wf:
  "Ok op \<in> set (parse_script s) \<Longrightarrow> opcode_wf op"
proof (induction s rule: parse_script.induct)
  case (1 s)
  show ?case
  proof (cases "deserialize_next_opcode s")
    case None
    with 1(2) show ?thesis by (subst (asm) parse_script.simps) simp
  next
    case (Some p)
    obtain r rest where p: "p = (r, rest)" by fastforce
    have "Ok op = r \<or> Ok op \<in> set (parse_script rest)"
      using 1(2) Some p by (subst (asm) parse_script.simps) simp
    then show ?thesis using serialize_deserialize 1(1) Some p by blast
  qed
qed

lemma execute_item_Ok_iff:
  "execute_item cr vop item vm = Ok vm' \<longleftrightarrow>
     (\<exists>op. item = Ok op \<and> \<not> is_disabled op \<and> \<not> always_illegal op \<and> (vop \<longrightarrow> is_push_opcode op) \<and>
        execute_opcode cr op vm = Ok vm' \<and> length (astack vm') + length (dstack vm') \<le> MAX_STACK_SIZE)"
proof -
  have guard: "rbind m (\<lambda>v. if P v then Err e else Ok v) = Ok y \<longleftrightarrow> m = Ok y \<and> \<not> P y" for m :: result and P e y
    by (cases m) auto
  show ?thesis unfolding execute_item_def Let_def by (auto simp: guard outcome_simps not_less)
qed

lemma run_pushes_inv:
  assumes "rfold (execute_item cr True) items vm = Ok vm'" "cond_stack vm = []"
    and "\<And>op. Ok op \<in> set items \<Longrightarrow> opcode_wf op"
  shows "\<exists>ds. items = map (Ok \<circ> push_of) ds \<and> (\<forall>d\<in>set ds. length d \<le> MAX_SCRIPT_ELEMENT_SIZE) \<and>
    vm' = vm\<lparr>dstack := dstack vm @ ds\<rparr> \<and>
    (ds \<noteq> [] \<longrightarrow> length (astack vm) + length (dstack vm) + length ds \<le> MAX_STACK_SIZE)"
  using assms
proof (induction items arbitrary: vm)
  case (Cons item items)
  from Cons.prems(1) obtain vm1 where "execute_item cr True item vm = Ok vm1"
    and rest: "rfold (execute_item cr True) items vm1 = Ok vm'" by (auto simp: outcome_simps)
  then obtain op where item: "item = Ok op" "is_push_opcode op" "execute_opcode cr op vm = Ok vm1"
    and st: "length (astack vm1) + length (dstack vm1) \<le> MAX_STACK_SIZE"
    by (auto simp: execute_item_Ok_iff)
  obtain d where d: "op = push_of d" "length d \<le> MAX_SCRIPT_ELEMENT_SIZE" "vm1 = vm\<lparr>dstack := dstack vm @ [d]\<rparr>"
    using execute_push_inv [OF item(2) _ _ item(3)] Cons.prems(2,3) item(1) by (auto simp: is_executing_def)
  obtain ds where "items = map (Ok \<circ> push_of) ds" "\<forall>d\<in>set ds. length d \<le> MAX_SCRIPT_ELEMENT_SIZE"
    "vm' = vm1\<lparr>dstack := dstack vm1 @ ds\<rparr>"
    "ds \<noteq> [] \<longrightarrow> length (astack vm1) + length (dstack vm1) + length ds \<le> MAX_STACK_SIZE"
  proof -
    have "cond_stack vm1 = []" "\<And>op. Ok op \<in> set items \<Longrightarrow> opcode_wf op" using Cons.prems(2,3) d(3) by simp_all
    then show thesis using Cons.IH [OF rest] that by blast
  qed
  with d item(1) st show ?case by (intro exI [of _ "d # ds"]) (cases ds; simp)
qed simp

lemma run_pushes:
  assumes "cond_stack vm = []" "\<forall>d\<in>set ds. length d \<le> MAX_SCRIPT_ELEMENT_SIZE"
    and "length (astack vm) + length (dstack vm) + length ds \<le> MAX_STACK_SIZE"
  shows "rfold (execute_item cr vop) (map (Ok \<circ> push_of) ds) vm = Ok (vm\<lparr>dstack := dstack vm @ ds\<rparr>)"
  using assms
proof (induction ds arbitrary: vm)
  case (Cons d ds)
  have "execute_item cr vop (Ok (push_of d)) vm = Ok (vm\<lparr>dstack := dstack vm @ [d]\<rparr>)"
    using Cons.prems execute_push_opcode [of d vm cr]
    by (simp add: execute_item_def push_of_legal push_of_is_push is_executing_def)
  with Cons.IH [of "vm\<lparr>dstack := dstack vm @ [d]\<rparr>"] Cons.prems show ?case by simp
qed simp

lemma parse_push_script:
  "\<forall>d\<in>set ds. length d \<le> MAX_SCRIPT_ELEMENT_SIZE \<Longrightarrow> parse_script (push_script ds) = map (Ok \<circ> push_of) ds"
proof -
  assume "\<forall>d\<in>set ds. length d \<le> MAX_SCRIPT_ELEMENT_SIZE"
  then have "\<forall>d\<in>set ds. opcode_wf (push_of d)" using push_of_wf by (fastforce simp: MAX_SCRIPT_ELEMENT_SIZE_def)
  then show ?thesis
    using parse_script_iff [of "push_script ds" "map push_of ds"] by (simp add: push_script_def list_all_iff comp_def)
qed

lemma execute_push_script_iff:
  assumes "cond_stack vm = []" "astack vm = []" "dstack vm = []"
  shows "execute_script cr s True vm = Ok vm' \<longleftrightarrow>
    (\<exists>ds. s = push_script ds \<and> (\<forall>d\<in>set ds. length d \<le> MAX_SCRIPT_ELEMENT_SIZE) \<and> length ds \<le> MAX_STACK_SIZE \<and>
       vm' = vm\<lparr>dstack := ds, num_ops := 0\<rparr>)" (is "?L \<longleftrightarrow> ?R")
proof
  assume ?L
  then obtain vm1 where run: "rfold (execute_item cr True) (parse_script s) vm = Ok vm1"
    and vm': "vm' = vm1\<lparr>astack := [], num_ops := 0\<rparr>"
    by (auto simp: execute_script_def outcome_simps split: if_splits)
  obtain ds where ds: "parse_script s = map (Ok \<circ> push_of) ds" "\<forall>d\<in>set ds. length d \<le> MAX_SCRIPT_ELEMENT_SIZE"
    "vm1 = vm\<lparr>dstack := dstack vm @ ds\<rparr>" "ds \<noteq> [] \<longrightarrow> length ds \<le> MAX_STACK_SIZE"
    using run_pushes_inv [OF run assms(1) parse_items_wf [of _ s]] assms(2,3)
    by (simp only: append_Nil list.size add_0) blast
  have "s = push_script ds"
    using parse_script_iff [of s "map push_of ds"] ds(1) by (simp add: push_script_def)
  with ds vm' assms show ?R by (intro exI [of _ ds]) (cases ds; simp)
next
  assume ?R
  then obtain ds where s: "s = push_script ds" and ds: "\<forall>d\<in>set ds. length d \<le> MAX_SCRIPT_ELEMENT_SIZE"
    "length ds \<le> MAX_STACK_SIZE" and vm': "vm' = vm\<lparr>dstack := ds, num_ops := 0\<rparr>" by blast
  have "rfold (execute_item cr True) (map (Ok \<circ> push_of) ds) vm = Ok (vm\<lparr>dstack := ds\<rparr>)"
    using run_pushes [OF assms(1) ds(1)] ds(2) assms(2,3) by simp
  then show ?L
    using assms parse_push_script [OF ds(1)] by (simp add: execute_script_def s vm')
qed

section \<open>Signature checks\<close>

fun check_of :: "crypto \<Rightarrow> address_version \<Rightarrow>
    u8 \<Rightarrow> u8 list \<Rightarrow> u8 list \<Rightarrow> engine \<Rightarrow> (bool \<times> engine, script_error) outcome" where
  "check_of cr VPubKeyECDSA = check_ecdsa_signature cr"
| "check_of cr VPubKeyMLDSA = check_mldsa_signature cr"
| "check_of cr _ = check_schnorr_signature cr"

lemma of_sum_Ok [simp]: "of_sum f x = Ok y \<longleftrightarrow> x = Inr y"
  by (simp add: of_sum_def split: sum.split)

lemma map_err_Ok [simp]: "map_err f x = Ok y \<longleftrightarrow> x = Ok y"
  by (simp add: map_err_def split: outcome.split)

lemma key_encoding_Ok [simp]:
  "check_pub_key_encoding k = Ok u \<longleftrightarrow> length k = 32" "check_pub_key_encoding_ecdsa k = Ok u \<longleftrightarrow> length k = 33"
  by (simp_all add: check_pub_key_encoding_def check_pub_key_encoding_ecdsa_def)

lemma cached_verify_answer:
  assumes "state_ok cr vm" "v = cache_answer cr k"
  shows "\<exists>c. cached_verify cr k v vm = (v, vm\<lparr>sig_cache_of := c\<rparr>) \<and> cache_sound cr c"
  using vc.lookup_answer [of cr "sig_cache_of vm" k] assms
  by (auto simp: cached_verify_def state_ok_def split: prod.splits option.splits)

lemma sighash_value:
  assumes "state_ok cr vm" "source vm = TxInput tx inp i entry p2sh"
  shows "\<exists>rv. calc_schnorr_signature_hash cr tx i ht (reused_values vm) = Ok (sighash cr tx i ht, rv) \<and>
    state_ok cr (vm\<lparr>reused_values := rv\<rparr>)"
  using calc_schnorr_signature_hash_eq [of cr tx "reused_values vm" i ht] assms
  by (auto simp: state_ok_def source_ok_def reused_ok_def)

definition verdict_of :: "crypto \<Rightarrow> engine \<Rightarrow> bool option \<Rightarrow> (bool \<times> engine, script_error) outcome \<Rightarrow> bool" where
  "verdict_of cr vm v r =
     ((\<forall>b vm'. r = Ok (b, vm') \<longrightarrow> v = Some b \<and> state_ok cr vm' \<and>
         (\<exists>c. consume_sig_op (counter vm) = Ok c \<and> core vm' = core (vm\<lparr>counter := c\<rparr>))) \<and>
      (\<forall>c b. consume_sig_op (counter vm) = Ok c \<longrightarrow> v = Some b \<longrightarrow> (\<exists>vm'. r = Ok (b, vm'))))"

lemma verdict_cached:
  assumes "state_ok cr vm1" "consume_sig_op (counter vm) = Ok c" "core vm1 = core (vm\<lparr>counter := c\<rparr>)"
    and "\<And>b vm'. r = Ok (b, vm') \<longleftrightarrow> (\<exists>k. ks = Some k \<and> cached_verify cr k (cache_answer cr k) vm1 = (b, vm'))"
    and "v = map_option (cache_answer cr) ks"
  shows "verdict_of cr vm v r"
proof -
  have "\<exists>c'. cached_verify cr k (cache_answer cr k) vm1 = (cache_answer cr k, vm1\<lparr>sig_cache_of := c'\<rparr>) \<and> cache_sound cr c'"
    for k using cached_verify_answer [OF assms(1)] by blast
  then have v: "\<exists>vm'. cached_verify cr k (cache_answer cr k) vm1 = (cache_answer cr k, vm') \<and> state_ok cr vm' \<and>
      core vm' = core (vm\<lparr>counter := c\<rparr>)" for k
    using assms(1,3) by (fastforce simp: state_ok_def core_eq_iff)
  show ?thesis
  proof (cases ks)
    case None
    then show ?thesis unfolding verdict_of_def assms(4,5) by simp
  next
    case (Some k)
    with v [of k] obtain vm' where "cached_verify cr k (cache_answer cr k) vm1 = (cache_answer cr k, vm')"
      "state_ok cr vm'" "core vm' = core (vm\<lparr>counter := c\<rparr>)" by blast
    with Some assms(2) show ?thesis unfolding verdict_of_def assms(4,5) by simp
  qed
qed

lemma consumed_state:
  assumes "state_ok cr vm" "source vm = TxInput tx inp i entry p2sh" "consume_sig_op (counter vm) = Ok c"
  shows "\<exists>rv. calc_schnorr_signature_hash cr tx i ht (reused_values vm) = Ok (sighash cr tx i ht, rv) \<and>
    state_ok cr (vm\<lparr>counter := c, reused_values := rv\<rparr>)"
  using sighash_value [OF assms(1,2), of ht] consume_sig_op_keeps [OF assms(3)] assms(1)
  by (auto simp: state_ok_def)

lemma check_schnorr_verdict:
  assumes "state_ok cr vm" "source vm = TxInput tx inp i entry p2sh" "consume_sig_op (counter vm) = Ok c"
  shows "verdict_of cr vm (key_verdict cr tx i VPubKey ht key sg) (check_schnorr_signature cr ht key sg vm)"
proof -
  obtain rv where rv: "calc_schnorr_signature_hash cr tx i ht (reused_values vm) = Ok (sighash cr tx i ht, rv)"
    "state_ok cr (vm\<lparr>counter := c, reused_values := rv\<rparr>)" using consumed_state [OF assms] by blast
  define ks where "ks = (if length sg = 64 \<and> length key = 32
    then case (xonly_from_slice cr key, schnorr_from_slice cr sg) of
      (Inr k, Inr s) \<Rightarrow> Some \<lparr>key_sig = SigSecp256k1 s, key_pub = KeySchnorr k, key_msg = sighash cr tx i ht\<rparr> | _ \<Rightarrow> None
    else None)"
  show ?thesis
  proof (rule verdict_cached [OF rv(2) assms(3), where ks = ks])
    show "check_schnorr_signature cr ht key sg vm = Ok (b, vm') \<longleftrightarrow>
      (\<exists>k. ks = Some k \<and> cached_verify cr k (cache_answer cr k) (vm\<lparr>counter := c, reused_values := rv\<rparr>) = (b, vm'))" for b vm'
      using assms(2,3) rv(1)
      by (auto simp: check_schnorr_signature_def Let_def ks_def outcome_simps cache_answer_def split: sum.splits)
  qed (auto simp: ks_def cache_answer_def core_eq_iff split: sum.splits)
qed

lemma check_ecdsa_verdict:
  assumes "state_ok cr vm" "source vm = TxInput tx inp i entry p2sh" "consume_sig_op (counter vm) = Ok c"
  shows "verdict_of cr vm (key_verdict cr tx i VPubKeyECDSA ht key sg) (check_ecdsa_signature cr ht key sg vm)"
proof -
  obtain rv where rv: "calc_schnorr_signature_hash cr tx i ht (reused_values vm) = Ok (sighash cr tx i ht, rv)"
    "state_ok cr (vm\<lparr>counter := c, reused_values := rv\<rparr>)" using consumed_state [OF assms] by blast
  define ks where "ks = (if length sg = 64 \<and> length key = 33
    then case (pubkey_from_slice cr key, ecdsa_from_compact cr sg) of
      (Inr k, Inr s) \<Rightarrow> Some \<lparr>key_sig = SigEcdsa s, key_pub = KeyEcdsa k,
         key_msg = TransactionSigningHashECDSA cr (hash_bytes (sighash cr tx i ht))\<rparr> | _ \<Rightarrow> None
    else None)"
  show ?thesis
  proof (rule verdict_cached [OF rv(2) assms(3), where ks = ks])
    show "check_ecdsa_signature cr ht key sg vm = Ok (b, vm') \<longleftrightarrow>
      (\<exists>k. ks = Some k \<and> cached_verify cr k (cache_answer cr k) (vm\<lparr>counter := c, reused_values := rv\<rparr>) = (b, vm'))" for b vm'
      using assms(2,3) rv(1)
      by (auto simp: check_ecdsa_signature_def calc_ecdsa_signature_hash_def Let_def ks_def outcome_simps cache_answer_def
          split: sum.splits)
  qed (auto simp: ks_def cache_answer_def core_eq_iff split: sum.splits)
qed

lemma check_mldsa_verdict:
  assumes "state_ok cr vm" "source vm = TxInput tx inp i entry p2sh" "consume_sig_op (counter vm) = Ok c"
  shows "verdict_of cr vm (key_verdict cr tx i VPubKeyMLDSA ht key sg) (check_mldsa_signature cr ht key sg vm)"
proof -
  obtain rv where rv: "calc_schnorr_signature_hash cr tx i ht (reused_values vm) = Ok (sighash cr tx i ht, rv)"
    "state_ok cr (vm\<lparr>counter := c, reused_values := rv\<rparr>)" using consumed_state [OF assms] by blast
  have "check_mldsa_signature cr ht key sg vm = Ok (b, vm') \<longleftrightarrow>
      key_verdict cr tx i VPubKeyMLDSA ht key sg = Some b \<and> vm' = vm\<lparr>counter := c, reused_values := rv\<rparr>" for b vm'
    using assms(2,3) rv(1)
    by (auto simp: check_mldsa_signature_def Let_def outcome_simps split: outcome.splits)
  then show ?thesis using rv(2) assms(3) by (auto simp: verdict_of_def core_eq_iff)
qed

lemma check_of_verdict:
  assumes "state_ok cr vm" "source vm = TxInput tx inp i entry p2sh" "v \<in> {VPubKey, VPubKeyECDSA, VPubKeyMLDSA}"
  shows "verdict_of cr vm (key_verdict cr tx i v ht key sg) (check_of cr v ht key sg vm)"
proof (cases "consume_sig_op (counter vm)")
  case (Ok c)
  then show ?thesis
    using check_schnorr_verdict [OF assms(1,2)] check_ecdsa_verdict [OF assms(1,2)] check_mldsa_verdict [OF assms(1,2)] assms(3)
    by (auto simp del: key_verdict.simps)
next
  case (Err e)
  then show ?thesis
    using assms(3)
    by (auto simp: verdict_of_def check_schnorr_signature_def check_ecdsa_signature_def check_mldsa_signature_def
        simp del: key_verdict.simps)
next
  case Panic
  then show ?thesis by (simp add: no_panic)
qed

section \<open>Spending a key output\<close>

lemma push_bool_Ok: "on_dstack (push_item serialize_bool b) vm = Ok (vm\<lparr>dstack := dstack vm @ [if b then [1] else []]\<rparr>)"
  by (simp add: on_dstack_def push_item_def from_serialization_def serialize_bool_def)

lemma verdict_ofE:
  assumes "verdict_of cr vm v (Ok (b, vm'))"
  obtains c where "v = Some b" "state_ok cr vm'" "consume_sig_op (counter vm) = Ok c" "core vm' = core (vm\<lparr>counter := c\<rparr>)"
  using assms unfolding verdict_of_def by blast

lemma check_sig_inv:
  assumes ok: "state_ok cr vm" "source vm = TxInput tx inp i entry p2sh" "v \<in> {VPubKey, VPubKeyECDSA, VPubKeyMLDSA}"
    and st: "dstack vm = ds @ [key]" and run: "check_sig_with (check_of cr v) vm = Ok vm'"
  shows "\<exists>ds' item b. ds = ds' @ [item] \<and> dstack vm' = ds' @ [if b then [1] else []] \<and>
    (b \<longrightarrow> authorizes cr tx i v key item \<and> (\<exists>c. consume_sig_op (counter vm) = Ok c))"
proof -
  have "ds \<noteq> []" using run st by (auto simp: check_sig_with_def pop_raw_eq outcome_simps)
  then obtain ds' item where ds: "ds = ds' @ [item]" by (cases ds rule: rev_cases) auto
  have pop: "pop_raw 2 (dstack vm) = Ok ([item, key], ds')" by (simp add: st ds pop_raw_eq numeral_2_eq_2)
  show ?thesis
  proof (cases "item = []")
    case True
    then have "dstack vm' = ds' @ [[]]" using run pop by (auto simp: check_sig_with_def push_bool_Ok)
    then show ?thesis using ds by (intro exI [of _ ds'] exI [of _ item] exI [of _ False]) simp
  next
    case False
    obtain ht b vm1 where ht: "sighash_from_u8 (last item) = Some ht"
      and chk: "check_of cr v ht key (butlast item) (vm\<lparr>dstack := ds'\<rparr>) = Ok (b, vm1)"
      and vm': "vm' = vm1\<lparr>dstack := dstack vm1 @ [if b then [1] else []]\<rparr>"
    proof -
      have "\<exists>ht b vm1. sighash_from_u8 (last item) = Some ht \<and>
          check_of cr v ht key (butlast item) (vm\<lparr>dstack := ds'\<rparr>) = Ok (b, vm1) \<and>
          vm1\<lparr>dstack := dstack vm1 @ [if b then [1] else []]\<rparr> = vm'"
        using run False unfolding check_sig_with_def pop push_bool_Ok
        by (simp add: Let_def rbind_Ok_iff ok_or_iff)
      then show thesis using that by blast
    qed
    have "state_ok cr (vm\<lparr>dstack := ds'\<rparr>)" "source (vm\<lparr>dstack := ds'\<rparr>) = TxInput tx inp i entry p2sh"
      using ok by (simp_all add: state_ok_def)
    from check_of_verdict [OF this ok(3), of ht key "butlast item"]
    have "verdict_of cr (vm\<lparr>dstack := ds'\<rparr>) (key_verdict cr tx i v ht key (butlast item)) (Ok (b, vm1))" unfolding chk .
    then obtain c where "key_verdict cr tx i v ht key (butlast item) = Some b" "consume_sig_op (counter vm) = Ok c"
      "core vm1 = core (vm\<lparr>dstack := ds'\<rparr>\<lparr>counter := c\<rparr>)"
      by (elim verdict_ofE) simp
    moreover from this(3) have "dstack vm1 = ds'" by (simp add: core_eq_iff)
    ultimately show ?thesis
      using ds vm' ht False by (intro exI [of _ ds'] exI [of _ item] exI [of _ b]) (auto simp: authorizes_def)
  qed
qed

lemma check_sig_succeeds:
  assumes ok: "state_ok cr vm" "source vm = TxInput tx inp i entry p2sh" "v \<in> {VPubKey, VPubKeyECDSA, VPubKeyMLDSA}"
    and st: "dstack vm = [item, key]" and au: "authorizes cr tx i v key item" "consume_sig_op (counter vm) = Ok c"
  shows "\<exists>vm'. check_sig_with (check_of cr v) vm = Ok vm' \<and> dstack vm' = [[1]] \<and>
    cond_stack vm' = cond_stack vm \<and> astack vm' = astack vm"
proof -
  have pop: "pop_raw 2 (dstack vm) = Ok ([item, key], [])"
    by (simp add: st pop_raw_eq top_items_def below_items_def)
  from au(1) obtain ht where item: "item \<noteq> []" and ht: "sighash_from_u8 (last item) = Some ht"
    and verd: "key_verdict cr tx i v ht key (butlast item) = Some True" by (auto simp: authorizes_def)
  let ?vm = "vm\<lparr>dstack := []\<rparr>"
  have vmok: "state_ok cr ?vm" "source ?vm = TxInput tx inp i entry p2sh" using ok by (simp_all add: state_ok_def)
  have "verdict_of cr ?vm (Some True) (check_of cr v ht key (butlast item) ?vm)"
    using check_of_verdict [OF vmok ok(3), of ht key "butlast item"] unfolding verd .
  then obtain vm1 where "check_of cr v ht key (butlast item) ?vm = Ok (True, vm1)" "core vm1 = core (?vm\<lparr>counter := c\<rparr>)"
    using au(2) by (auto simp: verdict_of_def)
  then show ?thesis using pop item ht
    by (auto simp: check_sig_with_def Let_def push_bool_Ok core_eq_iff)
qed

fun key_opcode :: "address_version \<Rightarrow> u8" where
  "key_opcode VPubKeyECDSA = OpCheckSigECDSA"
| "key_opcode VPubKeyMLDSA = OpCheckSigMLDSA"
| "key_opcode _ = OpCheckSig"

abbreviation key_op :: "address_version \<Rightarrow> opcode" where
  "key_op v \<equiv> \<lparr>op_value = key_opcode v, op_data = []\<rparr>"

lemma key_opcode_high: "0x4f \<le> key_opcode v" "\<not> is_push_opcode (key_op v)" "\<not> is_disabled (key_op v)"
  "\<not> always_illegal (key_op v)" "\<not> key_opcode v \<le> OpPushData4"
  by (cases v; simp add: OpCheckSigECDSA_def OpCheckSigMLDSA_def OpCheckSig_def is_push_opcode_def opcode_numbers
      is_disabled_def always_illegal_def)+

lemma key_handler: "map_of (opcode_table cr) (key_opcode v) = Some (check_sig_with (check_of cr v))"
  by (cases v; simp add: opcode_table_def OpCheckSigECDSA_def OpCheckSigMLDSA_def OpCheckSig_def op_check_sig_def
      op_check_sig_ecdsa_def op_check_sig_mldsa_def)

lemma execute_key_op:
  assumes "cond_stack vm = []" "num_ops vm = 0"
  shows "execute_opcode cr (key_op v) vm = check_sig_with (check_of cr v) (vm\<lparr>num_ops := 1\<rparr>)"
  using assms key_opcode_high
  by (simp add: execute_opcode_def in_i32_def MAX_OPS_PER_SCRIPT_def is_executing_def execute_op_def key_handler)

definition key_script :: "address_version \<Rightarrow> u8 list \<Rightarrow> u8 list" where
  "key_script v key = push_script [key] @ [key_opcode v]"

lemma parse_key_script:
  "length key \<le> MAX_SCRIPT_ELEMENT_SIZE \<Longrightarrow> parse_script (key_script v key) = [Ok (push_of key), Ok (key_op v)]"
  using parse_script_iff [of "key_script v key" "[push_of key, key_op v]"] plain_opcode [OF key_opcode_high(1) [of v]]
  by (simp add: key_script_def push_script_def push_of_wf MAX_SCRIPT_ELEMENT_SIZE_def)

lemma fresh_pair:
  assumes "s2 \<noteq> []" "cond_stack vm = []" "astack vm = []" "dstack vm = []" "num_ops vm = 0"
  shows "rfold (script_turn cr False True) (filter (\<lambda>(idx, s). s \<noteq> []) (enumerate 0 [s1, s2])) (None, vm) =
    rbind (execute_script cr s1 True vm) (\<lambda>vm1. rbind (execute_script cr s2 False vm1) (\<lambda>vm2. Ok (None, vm2)))"
proof (cases "s1 = []")
  case True
  have "execute_script cr [] True vm = Ok vm"
    using execute_push_script_iff [OF assms(2-4), of cr "[]" vm] assms
    by (auto simp: push_script_def intro!: exI [of _ "[]"])
  with True assms show ?thesis by (simp add: script_turn_def rbind_assoc)
next
  case False
  with assms show ?thesis by (simp add: script_turn_def rbind_assoc)
qed

lemma check_error_final: "check_error_condition True vm = Ok vm' \<Longrightarrow> \<exists>x. dstack vm = [x] \<and> deserialize_bool x = Ok True"
  by (cases "dstack vm")
     (auto simp: check_error_condition_def outcome_simps pop_bool_def pop_items_Ok_iff top_items_def split: if_splits)

lemma check_error_passes: "dstack vm = [[1]] \<Longrightarrow> is_ok (check_error_condition True vm)"
  by (simp add: check_error_condition_def pop_bool_def pop_items_eq top_items_def)

definition fresh :: "engine \<Rightarrow> bool" where
  "fresh vm = (cond_stack vm = [] \<and> astack vm = [] \<and> dstack vm = [] \<and> num_ops vm = 0)"

lemma serialize_opcode_length: "length (serialize_opcode op) \<le> 5 + length (op_data op)"
  by (simp add: serialize_opcode_def opcode_length_def)

lemma key_script_size: "length key \<le> MAX_SCRIPT_ELEMENT_SIZE \<Longrightarrow> length (key_script v key) \<le> MAX_SCRIPTS_SIZE"
proof -
  have "length (op_data (push_of key)) \<le> length key" by (simp add: push_of_def)
  then show "length key \<le> MAX_SCRIPT_ELEMENT_SIZE \<Longrightarrow> length (key_script v key) \<le> MAX_SCRIPTS_SIZE"
    using serialize_opcode_length [of "push_of key"]
    by (simp add: key_script_def push_script_def MAX_SCRIPT_ELEMENT_SIZE_def MAX_SCRIPTS_SIZE_def)
qed

lemma execute_key_script:
  assumes "cond_stack vm = []" "astack vm = []" "num_ops vm = 0" "length key \<le> MAX_SCRIPT_ELEMENT_SIZE"
    and "execute_script cr (key_script v key) False vm = Ok vm'"
  shows "\<exists>vm2. check_sig_with (check_of cr v) (vm\<lparr>dstack := dstack vm @ [key], num_ops := 1\<rparr>) = Ok vm2 \<and> dstack vm' = dstack vm2"
proof -
  have "execute_opcode cr (push_of key) vm = Ok (vm\<lparr>dstack := dstack vm @ [key]\<rparr>)"
    using execute_push_opcode [OF assms(4)] assms(1) by (simp add: is_executing_def)
  then show ?thesis
    using assms(5) execute_key_op [of "vm\<lparr>dstack := dstack vm @ [key]\<rparr>" cr v] assms(1,3)
    by (auto simp: execute_script_def parse_key_script [OF assms(4)] rbind_Ok_iff execute_item_Ok_iff split: if_splits)
qed

lemma key_spend_sound:
  assumes ok: "state_ok cr vm" "fresh vm" "source vm = TxInput tx inp i entry p2sh" "v \<in> {VPubKey, VPubKeyECDSA, VPubKeyMLDSA}"
    and key: "length key \<le> MAX_SCRIPT_ELEMENT_SIZE"
    and run: "execute_scripts cr [s1, key_script v key] False True vm = Ok vm'"
  shows "\<exists>item. s1 = push_script [item] \<and> authorizes cr tx i v key item \<and> (\<exists>c. consume_sig_op (counter vm) = Ok c)"
proof -
  have fr: "cond_stack vm = []" "astack vm = []" "dstack vm = []" "num_ops vm = 0" using ok(2) by (simp_all add: fresh_def)
  have ne: "key_script v key \<noteq> []" by (simp add: key_script_def)
  obtain vm1 vm2 where 1: "execute_script cr s1 True vm = Ok vm1" and 2: "execute_script cr (key_script v key) False vm1 = Ok vm2"
    and 3: "check_error_condition True vm2 = Ok vm'"
    using run by (auto simp: execute_scripts_def rbind_Ok_iff fresh_pair [OF ne fr] simp del: enumerate_simps)
  obtain ds where s1: "s1 = push_script ds" and vm1: "vm1 = vm\<lparr>dstack := ds, num_ops := 0\<rparr>"
    using 1 unfolding execute_push_script_iff [OF fr(1-3)] by blast
  let ?vm = "vm\<lparr>dstack := ds @ [key], num_ops := 1\<rparr>"
  obtain vm3 where 4: "check_sig_with (check_of cr v) ?vm = Ok vm3" and d3: "dstack vm2 = dstack vm3"
    using execute_key_script [OF _ _ _ key 2] fr vm1 by auto
  have "state_ok cr ?vm" "source ?vm = TxInput tx inp i entry p2sh" "dstack ?vm = ds @ [key]"
    using ok(1,3) by (simp_all add: state_ok_def MAX_OPS_PER_SCRIPT_def)
  from check_sig_inv [OF this(1,2) ok(4) this(3) 4]
  obtain ds' item b where "ds = ds' @ [item]" "dstack vm3 = ds' @ [if b then [1] else []]"
    "b \<longrightarrow> authorizes cr tx i v key item \<and> (\<exists>c. consume_sig_op (counter vm) = Ok c)" by auto
  moreover obtain x where "dstack vm2 = [x]" "deserialize_bool x = Ok True" using check_error_final [OF 3] by blast
  ultimately show ?thesis using s1 d3 by (cases b) auto
qed

lemma key_spend_complete:
  assumes ok: "state_ok cr vm" "fresh vm" "source vm = TxInput tx inp i entry p2sh" "v \<in> {VPubKey, VPubKeyECDSA, VPubKeyMLDSA}"
    and key: "length key \<le> MAX_SCRIPT_ELEMENT_SIZE"
    and au: "authorizes cr tx i v key item" "consume_sig_op (counter vm) = Ok c"
  shows "is_ok (execute_scripts cr [push_script [item], key_script v key] False True vm)"
proof -
  have fr: "cond_stack vm = []" "astack vm = []" "dstack vm = []" "num_ops vm = 0" using ok(2) by (simp_all add: fresh_def)
  have ne: "key_script v key \<noteq> []" by (simp add: key_script_def)
  have item: "length item \<le> MAX_SCRIPT_ELEMENT_SIZE"
    using au(1) ok(4) by (auto simp: authorizes_def MAX_SCRIPT_ELEMENT_SIZE_def split: if_splits)
  have 1: "execute_script cr (push_script [item]) True vm = Ok (vm\<lparr>dstack := [item], num_ops := 0\<rparr>)"
    unfolding execute_push_script_iff [OF fr(1-3)] using item by (intro exI [of _ "[item]"]) (simp add: MAX_STACK_SIZE_def)
  let ?vm1 = "vm\<lparr>dstack := [item], num_ops := 0\<rparr>" and ?vm2 = "vm\<lparr>dstack := [item, key], num_ops := 1\<rparr>"
  have "state_ok cr ?vm2" "source ?vm2 = TxInput tx inp i entry p2sh" "dstack ?vm2 = [item, key]" "counter ?vm2 = counter vm"
    using ok(1,3) by (simp_all add: state_ok_def MAX_OPS_PER_SCRIPT_def)
  then obtain vm3 where 3: "check_sig_with (check_of cr v) ?vm2 = Ok vm3" "dstack vm3 = [[1]]" "cond_stack vm3 = []" "astack vm3 = []"
    using check_sig_succeeds [OF _ _ ok(4) _ au(1), of ?vm2 inp entry p2sh c] au(2) fr by auto
  have "execute_opcode cr (push_of key) ?vm1 = Ok (vm\<lparr>dstack := [item, key], num_ops := 0\<rparr>)"
    using execute_push_opcode [OF key, of ?vm1] fr(1) by (simp add: is_executing_def)
  then have "execute_item cr False (Ok (push_of key)) ?vm1 = Ok (vm\<lparr>dstack := [item, key], num_ops := 0\<rparr>)"
    "execute_item cr False (Ok (key_op v)) (vm\<lparr>dstack := [item, key], num_ops := 0\<rparr>) = Ok vm3"
    using 3 fr(1,2) execute_key_op [of "vm\<lparr>dstack := [item, key], num_ops := 0\<rparr>" cr v]
    by (simp_all add: execute_item_Ok_iff push_of_legal key_opcode_high MAX_STACK_SIZE_def)
  then have "execute_script cr (key_script v key) False ?vm1 = Ok (vm3\<lparr>astack := [], num_ops := 0\<rparr>)"
    using 3 by (simp add: execute_script_def parse_key_script [OF key])
  moreover have "length (push_script [item]) \<le> MAX_SCRIPTS_SIZE"
    using key_script_size [OF item, of v] by (simp add: key_script_def)
  ultimately show ?thesis
    using 1 3(2) check_error_passes [of "vm3\<lparr>astack := [], num_ops := 0\<rparr>"] key_script_size [OF key, of v] ne
    by (simp add: execute_scripts_def fresh_pair [OF ne fr] not_less del: enumerate_simps)
qed

lemma address_key_script:
  assumes "pay_to_address_script a = Ok spk" "addr_version a \<noteq> VScriptHash"
  shows "addr_version a \<in> {VPubKey, VPubKeyECDSA, VPubKeyMLDSA}" "spk_version spk = 0"
    "script spk = key_script (addr_version a) (addr_payload a)" "length (addr_payload a) \<le> MAX_SCRIPT_ELEMENT_SIZE"
    "\<not> is_pay_to_script_hash (script spk)"
proof -
  have le: "to_le_bytes 2 1312 = [0x20, 0x05]" by code_simp
  have ser: "serialize_opcode (push_of pl) = (if length pl \<le> 75 then of_nat (length pl) # pl else 0x4d # to_le_bytes 2 (length pl) @ pl)"
    if "length pl \<in> {32, 33, 1312}" for pl
  proof -
    have "push_of pl = \<lparr>op_value = if length pl \<le> 75 then of_nat (length pl) else 0x4d, op_data = pl\<rparr>"
      using that by (auto simp: push_of_def opcode_numbers)
    then show ?thesis using that by (auto simp: serialize_opcode_def opcode_length_simps opcode_length_def opcode_numbers)
  qed
  note defs = key_script_def push_script_def OpData32_def OpData33_def OpPushData2_def le
  from assms show "script spk = key_script (addr_version a) (addr_payload a)"
    by (auto simp: pay_to_address_script_iff defs ser)
  from assms show "\<not> is_pay_to_script_hash (script spk)"
    by (auto simp: pay_to_address_script_iff is_pay_to_script_hash_def OpData33_def OpBlake2b_def)
  from assms show "length (addr_payload a) \<le> MAX_SCRIPT_ELEMENT_SIZE"
    by (auto simp: pay_to_address_script_iff MAX_SCRIPT_ELEMENT_SIZE_def)
qed (use assms in \<open>auto simp: pay_to_address_script_iff\<close>)

lemma new_counter_consumes: "(\<exists>c. consume_sig_op (new_sig_op_counter n) = Ok c) \<longleftrightarrow> 0 < n"
  by (auto simp: consume_sig_op_def new_sig_op_counter_def outcome_simps checked_sub_def word_le_nat_alt word_less_nat_alt)

text \<open>The state in which the engine starts on an input.\<close>

definition start :: "populated_tx \<Rightarrow> nat \<Rightarrow> sighash_reused_values \<Rightarrow> sig_cache \<Rightarrow> engine" where
  "start tx i rv cache =
     \<lparr>dstack = [], astack = [],
      source = TxInput tx (inputs (ptx tx) ! i) i (entries tx ! i)
                 (is_pay_to_script_hash (script (entry_spk (entries tx ! i)))),
      reused_values = rv, sig_cache_of = cache, cond_stack = [], num_ops = 0,
      counter = new_sig_op_counter (sig_op_count (inputs (ptx tx) ! i))\<rparr>"

lemma start_ok:
  assumes "i < length (inputs (ptx tx))" "i < length (entries tx)" "reused_sound cr (ptx tx) rv" "cache_sound cr cache"
  shows "state_ok cr (start tx i rv cache)" "fresh (start tx i rv cache)"
    "run_input cr tx i rv cache = execute cr (start tx i rv cache)"
  using assms
  by (simp_all add: start_def state_ok_def source_ok_def reused_ok_def fresh_def MAX_OPS_PER_SCRIPT_def
      new_sig_op_counter_def run_input_def from_transaction_input_def)

section \<open>Properties\<close>

lemma pay_to_key_spend:
  assumes "i < length (inputs (ptx tx))" "i < length (entries tx)" "reused_sound cr (ptx tx) rv" "cache_sound cr cache"
    and "pay_to_address_script a = Ok (entry_spk (entries tx ! i))" "addr_version a \<noteq> VScriptHash"
  shows "is_ok (run_input cr tx i rv cache) \<longleftrightarrow>
    (\<exists>item. signature_script (inputs (ptx tx) ! i) = push_script [item] \<and> 0 < sig_op_count (inputs (ptx tx) ! i) \<and>
       authorizes cr tx i (addr_version a) (addr_payload a) item)"
proof -
  let ?vm = "start tx i rv cache" and ?sig = "signature_script (inputs (ptx tx) ! i)"
  note key = address_key_script [OF assms(5,6)] and st = start_ok [OF assms(1-4)]
  have src: "source ?vm = TxInput tx (inputs (ptx tx) ! i) i (entries tx ! i) False"
    "counter ?vm = new_sig_op_counter (sig_op_count (inputs (ptx tx) ! i))"
    using key(5) by (simp_all add: start_def)
  have "run_input cr tx i rv cache =
      execute_scripts cr [?sig, key_script (addr_version a) (addr_payload a)] False True ?vm"
    unfolding st(3) execute_def src(1)
    using key(2,3) by (simp add: STEALTH_SCRIPT_VERSION_def MAX_SCRIPT_PUBLIC_KEY_VERSION_def)
  then show ?thesis
    using key_spend_sound [OF st(1,2) src(1) key(1,4), of ?sig] key_spend_complete [OF st(1,2) src(1) key(1,4)]
      new_counter_consumes [of "sig_op_count (inputs (ptx tx) ! i)"] src(2)
    unfolding is_ok_iff by metis
qed

text \<open>Example: the pay-to-pubkey input is authorised by the signature the example primitives accept.\<close>

lemma ex_p2pk_authorized:
  "pay_to_address_script (new_address Mainnet VPubKey (replicate 32 0)) = Ok (entry_spk (entries ex_p2pk_tx ! 0))"
  "\<exists>item. signature_script (inputs (ptx ex_p2pk_tx) ! 0) = push_script [item] \<and> 0 < sig_op_count (inputs (ptx ex_p2pk_tx) ! 0) \<and>
     authorizes ex_crypto ex_p2pk_tx 0 VPubKey (replicate 32 0) item"
proof -
  let ?item = "replicate 64 0 @ [1] :: u8 list"
  show "pay_to_address_script (new_address Mainnet VPubKey (replicate 32 0)) = Ok (entry_spk (entries ex_p2pk_tx ! 0))"
    by (simp add: ex_p2pk_tx_def ex_populated_def pay_to_address_script_def new_address_def pay_to_pub_key_def
        OpData32_def OpCheckSig_def)
  have "push_of ?item = \<lparr>op_value = 65, op_data = ?item\<rparr>" by (simp add: push_of_def)
  then have "push_script [?item] = 0x41 # ?item"
    by (simp add: push_script_def serialize_opcode_def opcode_length_def opcode_numbers)
  then have "signature_script (inputs (ptx ex_p2pk_tx) ! 0) = push_script [?item]"
    "0 < sig_op_count (inputs (ptx ex_p2pk_tx) ! 0)"
    by (simp_all add: ex_p2pk_tx_def ex_populated_def)
  moreover have "authorizes ex_crypto ex_p2pk_tx 0 VPubKey (replicate 32 0) ?item"
    by (simp add: authorizes_def ex_crypto_def sighash_from_u8_def ALLOWED_SIG_HASH_TYPES_VALUES_def
        SIG_HASH_ALL_def butlast_append le_value_zeros [of "[]", simplified])
  ultimately show "\<exists>item. signature_script (inputs (ptx ex_p2pk_tx) ! 0) = push_script [item] \<and>
     0 < sig_op_count (inputs (ptx ex_p2pk_tx) ! 0) \<and> authorizes ex_crypto ex_p2pk_tx 0 VPubKey (replicate 32 0) item"
    by blast
qed

lemma ex_p2pk_verified: "is_ok (run_input ex_crypto ex_p2pk_tx 0 new_reused_values (new_cache n))"
  using pay_to_key_spend [of 0 ex_p2pk_tx ex_crypto new_reused_values "new_cache n", OF _ _ empty_caches ex_p2pk_authorized(1)]
    ex_p2pk_authorized(2)
  by (simp add: new_address_def ex_p2pk_sizes)

text \<open>C22. An output that pays to a Schnorr, ECDSA or ML-DSA key is spent by exactly the inputs whose
  signature script is the canonical push of one item, a signature and its sighash type, that
  verifies under that key over the signature hash of the input, and that declare at least one
  signature operation. So nobody without a signature of the key can spend the output, whoever
  has one can, and a signature script cannot be re-encoded by others.\<close>

theorem pay_to_key_spend_exact:
  assumes "i < length (inputs (ptx tx))" "i < length (entries tx)" "reused_sound cr (ptx tx) rv" "cache_sound cr cache"
    and "pay_to_address_script a = Ok (entry_spk (entries tx ! i))" "addr_version a \<noteq> VScriptHash"
  shows "is_ok (run_input cr tx i rv cache) \<longleftrightarrow>
    (\<exists>item. signature_script (inputs (ptx tx) ! i) = push_script [item] \<and> 0 < sig_op_count (inputs (ptx tx) ! i) \<and>
       authorizes cr tx i (addr_version a) (addr_payload a) item)"
  using assms by (rule pay_to_key_spend)

theorem pay_to_key_spend_exact_witness:
  "is_ok (run_input ex_crypto ex_p2pk_tx 0 new_reused_values (new_cache 10))"
  using pay_to_key_spend_exact [of 0 ex_p2pk_tx ex_crypto new_reused_values "new_cache 10", OF _ _ empty_caches ex_p2pk_authorized(1)]
    ex_p2pk_authorized(2)
  by (simp add: new_address_def ex_p2pk_sizes)

lemma is_ok_rbind: "is_ok (rbind m f) \<longleftrightarrow> (\<exists>x. m = Ok x \<and> is_ok (f x))"
  by (cases m) simp_all

lemma stealth_tail:
  assumes "state_ok cr vm" "source vm = TxInput tx inp i entry p2sh"
  shows "is_ok (rbind (calc_schnorr_signature_hash cr tx i ht (reused_values vm)) (\<lambda>(msg, rv).
      rbind (consume_sig_op (counter vm)) (\<lambda>c.
        case cached_verify cr \<lparr>key_sig = SigSecp256k1 sg, key_pub = KeySchnorr pk, key_msg = msg\<rparr>
               (schnorr_verify cr sg msg pk) (vm\<lparr>reused_values := rv, counter := c\<rparr>) of
          (valid, vm') \<Rightarrow> if valid then Ok vm' else Err EvalFalse))) \<longleftrightarrow>
    (\<exists>c. consume_sig_op (counter vm) = Ok c) \<and> schnorr_verify cr sg (sighash cr tx i ht) pk"
proof (cases "consume_sig_op (counter vm)")
  case (Ok c)
  let ?k = "\<lparr>key_sig = SigSecp256k1 sg, key_pub = KeySchnorr pk, key_msg = sighash cr tx i ht\<rparr>"
  obtain rv where h: "calc_schnorr_signature_hash cr tx i ht (reused_values vm) = outcome.Ok (sighash cr tx i ht, rv)"
    "state_ok cr (vm\<lparr>reused_values := rv\<rparr>)" using sighash_value [OF assms] by blast
  have "state_ok cr (vm\<lparr>reused_values := rv, counter := c\<rparr>)"
    using h(2) consume_sig_op_keeps [OF Ok] by (simp add: state_ok_def)
  from cached_verify_answer [OF this, of "schnorr_verify cr sg (sighash cr tx i ht) pk" ?k]
  show ?thesis using h(1) Ok by (auto simp: cache_answer_def split: if_splits)
next
  case (Err e)
  obtain rv where "calc_schnorr_signature_hash cr tx i ht (reused_values vm) = outcome.Ok (sighash cr tx i ht, rv)"
    using sighash_value [OF assms] by blast
  then show ?thesis using Err by simp
next
  case Panic
  then show ?thesis by (simp add: no_panic)
qed

lemma tail_signature:
  assumes "65 \<le> length s"
  shows "drop (length s - 65) s \<noteq> []" "last (drop (length s - 65) s) = s ! (length s - 65 + 64)"
    "butlast (drop (length s - 65) s) = take 64 (drop (length s - 65) s)" "length (take 64 (drop (length s - 65) s)) = 64"
  using assms by (simp_all add: last_conv_nth butlast_conv_take)

lemma authorizes_schnorr:
  "length key = 32 \<Longrightarrow> item \<noteq> [] \<Longrightarrow> length (butlast item) = 64 \<Longrightarrow>
   authorizes cr tx i VPubKey key item \<longleftrightarrow>
     (\<exists>ht sg pk. sighash_from_u8 (last item) = Some ht \<and> xonly_from_slice cr key = Inr pk \<and>
        schnorr_from_slice cr (butlast item) = Inr sg \<and> schnorr_verify cr sg (sighash cr tx i ht) pk)"
  unfolding authorizes_def key_verdict.simps by (fastforce split: sum.splits)

text \<open>Within its guards no slice of the handler is out of range.\<close>

lemma execute_stealth_spend_eq:
  "execute_stealth_spend cr tx input_idx input entry vm =
     (let scr = script (entry_spk entry); sig_script = signature_script input in
      rbind (fail_if (length scr \<noteq> STEALTH_OUTPUT_SIZE) PubKeyFormat) (\<lambda>_.
      rbind (of_sum (\<lambda>_. PubKeyFormat) (pubkey_from_slice cr (take 33 scr))) (\<lambda>_.
      rbind (of_sum (\<lambda>_. PubKeyFormat) (xonly_from_slice cr (take 32 (drop 34 scr)))) (\<lambda>pk.
      rbind (fail_if (length sig_script < 65) (SigLength (length sig_script))) (\<lambda>_.
      rbind (fail_if (length sig_script > MAX_SCRIPT_ELEMENT_SIZE)
               (ElementTooBig (length sig_script) MAX_SCRIPT_ELEMENT_SIZE)) (\<lambda>_.
      let sig_offset = length sig_script - 65;
          sig_bytes = take 64 (drop sig_offset sig_script);
          hash_type_byte = sig_script ! (sig_offset + 64) in
      rbind (ok_or (sighash_from_u8 hash_type_byte) (InvalidSigHashType hash_type_byte)) (\<lambda>hash_type.
      rbind (of_sum InvalidSignature (schnorr_from_slice cr sig_bytes)) (\<lambda>sg.
      rbind (calc_schnorr_signature_hash cr tx input_idx hash_type (reused_values vm)) (\<lambda>(msg, rv).
      rbind (consume_sig_op (counter vm)) (\<lambda>c.
        case cached_verify cr \<lparr>key_sig = SigSecp256k1 sg, key_pub = KeySchnorr pk, key_msg = msg\<rparr>
               (schnorr_verify cr sg msg pk) (vm\<lparr>reused_values := rv, counter := c\<rparr>) of
          (valid, vm') \<Rightarrow> if valid then Ok vm' else Err EvalFalse))))))))))"
  unfolding execute_stealth_spend_def Let_def STEALTH_OUTPUT_SIZE_def
  by (cases "length (script (entry_spk entry)) = 66"; cases "length (signature_script input) < 65")
    (simp_all add: not_less)

text \<open>C23. A stealth output is spent by exactly the inputs with a positive signature operation count
  whose signature script has 65 to 2500 bytes and ends in a signature, with its sighash type, that
  verifies under the destination key stored in the output, whose script must have its 66 bytes and
  start with a valid ephemeral key; what may come before the signature is not interpreted.\<close>

theorem stealth_spend_exact:
  assumes "i < length (inputs (ptx tx))" "i < length (entries tx)" "reused_sound cr (ptx tx) rv" "cache_sound cr cache"
    and "spk_version (entry_spk (entries tx ! i)) = STEALTH_SCRIPT_VERSION"
  shows "is_ok (run_input cr tx i rv cache) \<longleftrightarrow>
    (let out = script (entry_spk (entries tx ! i)); sig = signature_script (inputs (ptx tx) ! i) in
     length out = 66 \<and> (\<exists>r. pubkey_from_slice cr (take 33 out) = Inr r) \<and> 65 \<le> length sig \<and> length sig \<le> 2500 \<and>
     0 < sig_op_count (inputs (ptx tx) ! i) \<and> authorizes cr tx i VPubKey (drop 34 out) (drop (length sig - 65) sig))"
proof -
  let ?vm = "start tx i rv cache" and ?sig = "signature_script (inputs (ptx tx) ! i)"
    and ?out = "script (entry_spk (entries tx ! i))"
  note st = start_ok [OF assms(1-4)]
  obtain p where src: "source ?vm = TxInput tx (inputs (ptx tx) ! i) i (entries tx ! i) p" by (simp add: start_def)
  have cnt: "(\<exists>c. consume_sig_op (counter ?vm) = Ok c) \<longleftrightarrow> 0 < sig_op_count (inputs (ptx tx) ! i)"
    using new_counter_consumes by (simp add: start_def)
  have run: "run_input cr tx i rv cache = execute_stealth_spend cr tx i (inputs (ptx tx) ! i) (entries tx ! i) ?vm"
    unfolding st(3) execute_def src by (simp add: assms(5))
  have "is_ok (execute_stealth_spend cr tx i (inputs (ptx tx) ! i) (entries tx ! i) ?vm) \<longleftrightarrow>
    length ?out = 66 \<and> (\<exists>r. pubkey_from_slice cr (take 33 ?out) = Inr r) \<and> 65 \<le> length ?sig \<and> length ?sig \<le> 2500 \<and>
    (\<exists>ht sg pk. xonly_from_slice cr (take 32 (drop 34 ?out)) = Inr pk \<and>
       sighash_from_u8 (?sig ! (length ?sig - 65 + 64)) = Some ht \<and>
       schnorr_from_slice cr (take 64 (drop (length ?sig - 65) ?sig)) = Inr sg \<and>
       0 < sig_op_count (inputs (ptx tx) ! i) \<and> schnorr_verify cr sg (sighash cr tx i ht) pk)"
    unfolding execute_stealth_spend_eq Let_def is_ok_rbind [of "fail_if _ _"] is_ok_rbind [of "of_sum _ _"]
      is_ok_rbind [of "ok_or _ _"] stealth_tail [OF st(1) src] cnt
    by (auto simp: fail_if_iff ok_or_iff STEALTH_OUTPUT_SIZE_def MAX_SCRIPT_ELEMENT_SIZE_def not_less)
  moreover have "take 32 (drop 34 ?out) = drop 34 ?out" "length (drop 34 ?out) = 32" if "length ?out = 66" using that by simp_all
  ultimately show ?thesis
    using tail_signature [of ?sig] authorizes_schnorr [of "drop 34 ?out" "drop (length ?sig - 65) ?sig" cr tx i]
    unfolding Let_def run by (cases "length ?out = 66 \<and> 65 \<le> length ?sig") auto
qed

theorem stealth_spend_exact_witness:
  "is_ok (run_input ex_crypto
     ((ex_populated (replicate 64 0 @ [1]))\<lparr>entries := [\<lparr>amount = 100,
        entry_spk = \<lparr>spk_version = 16, script = replicate 66 0\<rparr>, block_daa_score = 5, entry_is_coinbase = False\<rparr>]\<rparr>)
     0 new_reused_values (new_cache 10))" (is "is_ok (run_input _ ?tx _ _ _)")
proof -
  let ?sig = "replicate 64 0 @ [1] :: u8 list"
  have hyps: "0 < length (inputs (ptx ?tx))" "0 < length (entries ?tx)"
    "spk_version (entry_spk (entries ?tx ! 0)) = STEALTH_SCRIPT_VERSION"
    by (simp_all add: ex_populated_def STEALTH_SCRIPT_VERSION_def)
  have vals: "script (entry_spk (entries ?tx ! 0)) = replicate 66 0" "signature_script (inputs (ptx ?tx) ! 0) = ?sig"
    "0 < sig_op_count (inputs (ptx ?tx) ! 0)" by (simp_all add: ex_populated_def)
  have "authorizes ex_crypto ?tx 0 VPubKey (replicate 32 0) ?sig"
    by (simp add: authorizes_def ex_crypto_def sighash_from_u8_def ALLOWED_SIG_HASH_TYPES_VALUES_def
        SIG_HASH_ALL_def butlast_append le_value_zeros [of "[]", simplified])
  moreover have "\<exists>r. pubkey_from_slice ex_crypto bs = Inr r" for bs by (simp add: ex_crypto_def)
  ultimately show ?thesis
    using stealth_spend_exact [OF hyps(1,2) empty_caches hyps(3)] unfolding vals(1,2) Let_def using vals(3) by simp
qed

section \<open>Multisig\<close>

text \<open>The signatures are those of some of the keys, in the order of the keys.\<close>

definition multisig_matches :: "crypto \<Rightarrow> populated_tx \<Rightarrow> nat \<Rightarrow> address_version \<Rightarrow> u8 list list \<Rightarrow> u8 list list \<Rightarrow> bool" where
  "multisig_matches cr tx i v keys sigs =
     (\<exists>used. subseq used keys \<and> list_all2 (authorizes cr tx i v) used sigs)"

abbreviation multisig_version :: "bool \<Rightarrow> address_version" where
  "multisig_version ecdsa \<equiv> (if ecdsa then VPubKeyECDSA else VPubKey)"

lemma multisig_matches_weaken: "multisig_matches cr tx i v keys sigs \<Longrightarrow> multisig_matches cr tx i v (k # keys) sigs"
  by (auto simp: multisig_matches_def)

lemma multisig_matches_simps:
  "multisig_matches cr tx i v keys []"
  "\<not> multisig_matches cr tx i v [] (s # sigs)"
  "multisig_matches cr tx i v (k # keys) (s # sigs) \<longleftrightarrow>
     (authorizes cr tx i v k s \<and> multisig_matches cr tx i v keys sigs) \<or> multisig_matches cr tx i v keys (s # sigs)"
proof -
  show "multisig_matches cr tx i v keys []" by (auto simp: multisig_matches_def)
  show "\<not> multisig_matches cr tx i v [] (s # sigs)" by (auto simp: multisig_matches_def list_all2_Cons2)
  show "multisig_matches cr tx i v (k # keys) (s # sigs) \<longleftrightarrow>
     (authorizes cr tx i v k s \<and> multisig_matches cr tx i v keys sigs) \<or> multisig_matches cr tx i v keys (s # sigs)" (is "?L \<longleftrightarrow> ?R")
  proof
    assume ?L
    then obtain u us where u: "subseq (u # us) (k # keys)" "authorizes cr tx i v u s" "list_all2 (authorizes cr tx i v) us sigs"
      by (auto simp: multisig_matches_def list_all2_Cons2)
    show ?R
    proof (cases "u = k")
      case True
      with u show ?thesis by (auto simp: multisig_matches_def)
    next
      case False
      with u have "subseq (u # us) keys" "list_all2 (authorizes cr tx i v) (u # us) (s # sigs)" by simp_all
      then show ?thesis unfolding multisig_matches_def by blast
    qed
  next
    assume ?R
    then show ?L
    proof
      assume "authorizes cr tx i v k s \<and> multisig_matches cr tx i v keys sigs"
      then obtain us where "subseq (k # us) (k # keys)" "list_all2 (authorizes cr tx i v) (k # us) (s # sigs)"
        by (auto simp: multisig_matches_def)
      then show ?L unfolding multisig_matches_def by blast
    qed (rule multisig_matches_weaken)
  qed
qed

lemma multisig_matches_drop: "multisig_matches cr tx i v keys (s # sigs) \<Longrightarrow> multisig_matches cr tx i v keys sigs"
  by (induction keys) (auto simp: multisig_matches_simps(2,3) intro: multisig_matches_weaken)

lemma multisig_matches_length: "multisig_matches cr tx i v keys sigs \<Longrightarrow> length sigs \<le> length keys"
  by (auto simp: multisig_matches_def dest!: list_all2_lengthD list_emb_length)

lemma multisig_matches_greedy:
  "authorizes cr tx i v k s \<Longrightarrow> multisig_matches cr tx i v (k # keys) (s # sigs) \<longleftrightarrow> multisig_matches cr tx i v keys sigs"
  using multisig_matches_drop by (auto simp: multisig_matches_simps(3))

text \<open>The inner loop stops at the first key that verifies the signature, or gives up when no match is left.\<close>

lemma multisig_advance_exact:
  assumes "multisig_advance cr ecdsa ht (butlast s) (Suc (length sigs)) keys vm = Ok (r, vm')"
    and "state_ok cr vm" "source vm = TxInput tx inp i entry p2sh" "s \<noteq> []" "sighash_from_u8 (last s) = Some ht"
  shows "state_ok cr vm' \<and> source vm' = source vm \<and> dstack vm' = dstack vm \<and>
    (multisig_matches cr tx i (multisig_version ecdsa) keys (s # sigs) \<longleftrightarrow>
      (case r of None \<Rightarrow> False | Some rest \<Rightarrow> multisig_matches cr tx i (multisig_version ecdsa) rest sigs))"
  using assms
proof (induction keys arbitrary: vm)
  case Nil
  then show ?case by (simp add: multisig_advance.simps multisig_matches_simps(2))
next
  case (Cons k keys)
  let ?v = "multisig_version ecdsa"
  show ?case
  proof (cases "length (k # keys) < Suc (length sigs)")
    case True
    then show ?thesis
      using Cons.prems(1,2) multisig_matches_length [of cr tx i ?v "k # keys" "s # sigs"]
      by (auto simp: multisig_advance.simps [of cr ecdsa ht _ _ "k # keys"])
  next
    case False
    define m where "m = (if ecdsa then check_ecdsa_signature cr ht k (butlast s) vm else check_schnorr_signature cr ht k (butlast s) vm)"
    have chk: "check_of cr ?v ht k (butlast s) vm = m" by (simp add: m_def)
    obtain b vm1 where b: "m = Ok (b, vm1)"
      and rest: "(if b then Ok (Some keys, vm1) else multisig_advance cr ecdsa ht (butlast s) (Suc (length sigs)) keys vm1) = Ok (r, vm')"
      using Cons.prems(1) False
      by (auto simp: multisig_advance.simps [of cr ecdsa ht _ _ "k # keys"] rbind_Ok_iff m_def [symmetric] simp del: if_split)
    have "verdict_of cr vm (key_verdict cr tx i ?v ht k (butlast s)) (Ok (b, vm1))"
      using check_of_verdict [OF Cons.prems(2,3), of ?v ht k "butlast s"] unfolding chk b by simp
    then obtain c where verd: "key_verdict cr tx i ?v ht k (butlast s) = Some b" and ok: "state_ok cr vm1"
      and core: "core vm1 = core (vm\<lparr>counter := c\<rparr>)" by (elim verdict_ofE)
    have src: "source vm1 = source vm" "dstack vm1 = dstack vm" using core by (simp_all add: core_eq_iff)
    have au: "authorizes cr tx i ?v k s \<longleftrightarrow> b" using verd Cons.prems(4,5) by (simp add: authorizes_def)
    show ?thesis
    proof (cases b)
      case True
      then have "r = Some keys" "vm' = vm1" using rest by auto
      then show ?thesis using True ok src au multisig_matches_greedy by simp
    next
      case False
      then have "multisig_matches cr tx i ?v (k # keys) (s # sigs) \<longleftrightarrow> multisig_matches cr tx i ?v keys (s # sigs)"
        using au by (simp add: multisig_matches_simps(3))
      then show ?thesis using Cons.IH [OF _ ok _ Cons.prems(4,5)] rest False src Cons.prems(3) by simp
    qed
  qed
qed

lemma multisig_loop_exact:
  assumes "multisig_loop cr ecdsa sigs keys vm = Ok (failed, vm')"
    and "state_ok cr vm" "source vm = TxInput tx inp i entry p2sh"
  shows "dstack vm' = dstack vm \<and> (\<not> failed \<longleftrightarrow> multisig_matches cr tx i (multisig_version ecdsa) keys sigs)"
  using assms
proof (induction sigs arbitrary: keys vm)
  case Nil
  then show ?case by (simp add: multisig_matches_simps(1))
next
  case (Cons s sigs)
  show ?case
  proof (cases "s = []")
    case True
    have "\<not> multisig_matches cr tx i v keys ([] # sigs)" for v
      by (auto simp: multisig_matches_def list_all2_Cons2 authorizes_def)
    then show ?thesis using Cons.prems(1) True by (simp add: multisig_loop_Cons)
  next
    case False
    obtain ht r vm1 where ht: "sighash_from_u8 (last s) = Some ht"
      and adv: "multisig_advance cr ecdsa ht (butlast s) (Suc (length sigs)) keys vm = Ok (r, vm1)"
      and rest: "(case r of None \<Rightarrow> Ok (True, vm1) | Some rest \<Rightarrow> multisig_loop cr ecdsa sigs rest vm1) = Ok (failed, vm')"
      using Cons.prems(1) False by (auto simp: multisig_loop_Cons rbind_Ok_iff ok_or_iff)
    note a = multisig_advance_exact [OF adv Cons.prems(2,3) False ht]
    show ?thesis
    proof (cases r)
      case None
      then show ?thesis using a rest by auto
    next
      case (Some keys')
      then show ?thesis using Cons.IH [of keys' vm1] a rest Cons.prems(3) by simp
    qed
  qed
qed

lemma stack_top: "length xs = n \<Longrightarrow> top_items n (base @ xs) = xs" "length xs = n \<Longrightarrow> below_items n (base @ xs) = base"
  by (auto simp: top_items_def below_items_def)

lemma i32_as_usize:
  assumes "deserialize_i32 v = Ok (int n)"
  shows "as_usize (int n) = n"
  using deserialize_sized_bound [of 4 v "int n"] assms by (simp add: deserialize_i32_eq as_usize_nat)

text \<open>C24. On a stack that holds the signatures, their number, the keys and their number, the multisig
  opcodes answer true exactly when the signatures verify, in order, under some of the keys in
  their order; the search never misses a match although it never goes back to a key. The
  operands are removed and what lies below them is kept.\<close>

theorem multisig_opcode_exact:
  assumes "state_ok cr vm" "source vm = TxInput tx inp i entry p2sh"
    and "dstack vm = base @ sigs @ [m] @ keys @ [n]"
    and "deserialize_i32 n = Ok (int (length keys))" "deserialize_i32 m = Ok (int (length sigs))"
    and "op_check_multisig_schnorr_or_ecdsa cr ecdsa vm = Ok vm'"
  shows "dstack vm' = base @ [if multisig_matches cr tx i (multisig_version ecdsa) keys sigs then [1] else []]"
proof -
  have p1: "pop_items 1 deserialize_i32 (dstack vm) = Ok ([int (length keys)], base @ sigs @ [m] @ keys)"
    using assms(4) by (simp add: assms(3) pop_items_eq stack_top [of "[n]" 1 "base @ sigs @ [m] @ keys", simplified])
  have p2: "pop_items (Suc 0) deserialize_i32 (base @ sigs @ [m]) = Ok ([int (length sigs)], base @ sigs)"
    using assms(5) by (simp add: pop_items_eq stack_top [of "[m]" "Suc 0" "base @ sigs", simplified])
  obtain ops failed vm1 where ops: "in_i32 (num_ops vm + int (length keys))" "num_ops vm + int (length keys) \<le> MAX_OPS_PER_SCRIPT"
    and loop: "multisig_loop cr ecdsa sigs keys (vm\<lparr>num_ops := num_ops vm + int (length keys), dstack := base\<rparr>) = Ok (failed, vm1)"
    and vm': "push_item serialize_bool (\<not> failed) (dstack vm1) = Ok (dstack vm')"
    using assms(6) unfolding op_check_multisig_schnorr_or_ecdsa_def p1 Let_def
    by (auto simp: rbind_Ok_iff fail_if_iff expect_iff p2 [simplified] i32_as_usize [OF assms(4)] i32_as_usize [OF assms(5)]
        not_less split: if_splits)
  have "state_ok cr (vm\<lparr>num_ops := num_ops vm + int (length keys), dstack := base\<rparr>)"
    using assms(1) ops by (simp add: state_ok_def)
  from multisig_loop_exact [OF loop this] assms(2) vm' show ?thesis
    by (auto simp: push_item_Ok_iff serialize_bool_def)
qed

theorem multisig_opcode_exact_witness:
  "\<exists>vm'. op_check_multisig_schnorr_or_ecdsa ex_crypto False
       ((start ex_p2pk_tx 0 new_reused_values (new_cache 10))
          \<lparr>dstack := [[9], replicate 64 0 @ [1], [1], replicate 32 0, [1]]\<rparr>) = Ok vm' \<and> dstack vm' = [[9], [1]]"
proof -
  let ?st = "start ex_p2pk_tx 0 new_reused_values (new_cache 10)" and ?sig = "replicate 64 0 @ [1] :: u8 list"
    and ?key = "replicate 32 0 :: u8 list"
  let ?vm = "?st\<lparr>dstack := [[9], ?sig, [1], ?key, [1]]\<rparr>"
  have ok: "state_ok ex_crypto ?st" using start_ok(1) [OF _ _ empty_caches, of 0 ex_p2pk_tx] by (simp add: ex_p2pk_sizes)
  have src: "source ?st = TxInput ex_p2pk_tx (inputs (ptx ex_p2pk_tx) ! 0) 0 (entries ex_p2pk_tx ! 0) False"
    by (simp add: start_def ex_p2pk_tx_def is_pay_to_script_hash_def)
  have one: "deserialize_i32 [1] = Ok 1" by code_simp
  have ht: "sighash_from_u8 1 = Some 1"
    by (simp add: sighash_from_u8_def ALLOWED_SIG_HASH_TYPES_VALUES_def SIG_HASH_ALL_def)
  let ?sb = "?st\<lparr>num_ops := 1, dstack := [[9]]\<rparr>"
  have vm1: "state_ok ex_crypto ?sb" "source ?sb = TxInput ex_p2pk_tx (inputs (ptx ex_p2pk_tx) ! 0) 0 (entries ex_p2pk_tx ! 0) False"
    using ok src by (simp_all add: state_ok_def MAX_OPS_PER_SCRIPT_def)
  have verd: "key_verdict ex_crypto ex_p2pk_tx 0 VPubKey 1 ?key (replicate 64 0) = Some True"
    by (simp add: ex_crypto_def le_value_zeros [of "[]", simplified])
  obtain c where "consume_sig_op (counter ?sb) = Ok c"
    using new_counter_consumes [of 1] by (auto simp: start_def ex_p2pk_tx_def ex_populated_def)
  then obtain vm2 where "check_schnorr_signature ex_crypto 1 ?key (replicate 64 0) ?sb = Ok (True, vm2)"
    using check_schnorr_verdict [OF vm1, of c 1 ?key "replicate 64 0"] unfolding verd verdict_of_def by blast
  then have "multisig_loop ex_crypto False [?sig] [?key] ?sb = Ok (False, vm2)"
    using ht by (simp add: multisig_loop_Cons multisig_advance.simps butlast_append)
  then have "\<exists>vm'. op_check_multisig_schnorr_or_ecdsa ex_crypto False ?vm = Ok vm'"
    by (simp add: op_check_multisig_schnorr_or_ecdsa_def pop_items_eq top_items_def below_items_def one Let_def as_usize_nat
        MAX_PUB_KEYS_PER_MUTLTISIG_def MAX_OPS_PER_SCRIPT_def start_def in_i32_def push_item_def from_serialization_def
        serialize_bool_def numeral_eq_Suc)
  then obtain vm' where r: "op_check_multisig_schnorr_or_ecdsa ex_crypto False ?vm = Ok vm'" by blast
  have "multisig_matches ex_crypto ex_p2pk_tx 0 VPubKey [?key] [?sig]"
    using verd ht by (simp add: multisig_matches_simps authorizes_def butlast_append del: key_verdict.simps)
  then have "dstack vm' = [[9], [1]]"
    using multisig_opcode_exact [OF _ _ _ _ _ r, of ex_p2pk_tx "inputs (ptx ex_p2pk_tx) ! 0" 0 "entries ex_p2pk_tx ! 0" False "[[9]]" "[?sig]" "[1]" "[?key]" "[1]"] ok src one
    by (simp add: state_ok_def)
  with r show ?thesis by blast
qed

end
