(* ===== verification/Mass_Calc.thy ===== *)
theory Mass_Calc
  imports Tx_Model
begin

text \<open>
  The masses of a transaction (\<^verbatim>\<open>src/consensus/core/src/mass/mod.rs\<close>): the estimated
  serialized size, the compute and transient masses that depend on the transaction alone, and
  the storage mass of KIP-9, which also depends on the entries it spends. Every \<open>+\<close>, \<open>*\<close>
  and \<open>div\<close> of the source is a checked operation here. The lemmas give each mass as a formula
  over the natural numbers, with the exact conditions under which the code computes it.
\<close>

section \<open>Sizes\<close>

text \<open>\<^verbatim>\<open>iter().sum::<u64>()\<close>, and a chain of \<open>+=\<close>: checked additions from the left.\<close>

definition sum_w :: "'a::len word list \<Rightarrow> ('a word, 'e) outcome" where
  "sum_w xs = rfold (\<lambda>x acc. add_w acc x) xs 0"

definition HASH_SIZE :: nat where
  "HASH_SIZE = 32"

definition outpoint_estimated_serialized_size :: "(u64, 'e) outcome" where
  "outpoint_estimated_serialized_size = sum_w [of_nat HASH_SIZE, 4]"

definition transaction_input_estimated_serialized_size ::
    "transaction_input \<Rightarrow> (u64, 'e) outcome" where
  "transaction_input_estimated_serialized_size i =
     rbind outpoint_estimated_serialized_size (\<lambda>o_size.
     sum_w [o_size, 8, of_nat (length (signature_script i)), 8])"

definition transaction_output_estimated_serialized_size ::
    "transaction_output \<Rightarrow> (u64, 'e) outcome" where
  "transaction_output_estimated_serialized_size out =
     sum_w [8, 2, 8, of_nat (length (script (output_spk out)))]"

definition transaction_estimated_serialized_size :: "transaction \<Rightarrow> (u64, 'e) outcome" where
  "transaction_estimated_serialized_size tx =
     rbind (rbind (rmap transaction_input_estimated_serialized_size (inputs tx)) sum_w) (\<lambda>inputs_size.
     rbind (rbind (rmap transaction_output_estimated_serialized_size (outputs tx)) sum_w) (\<lambda>outputs_size.
     sum_w [2, 8, inputs_size, 8, outputs_size, 8, of_nat SUBNETWORK_ID_SIZE, 8, of_nat HASH_SIZE, 8,
            of_nat (length (payload tx))]))"

section \<open>Storage cells\<close>

definition UTXO_CONST_STORAGE :: nat where
  "UTXO_CONST_STORAGE = 32 + 4 + 8 + 8 + 1 + 2 + 8"

definition UTXO_UNIT_SIZE :: nat where
  "UTXO_UNIT_SIZE = 100"

definition div_ceil :: "nat \<Rightarrow> nat \<Rightarrow> nat" where
  "div_ceil a b = (if a mod b = 0 then a div b else a div b + 1)"

definition utxo_plurality :: "script_public_key \<Rightarrow> u64" where
  "utxo_plurality spk = of_nat (div_ceil (UTXO_CONST_STORAGE + length (script spk)) UTXO_UNIT_SIZE)"

record utxo_cell =
  cell_plurality :: u64
  cell_amount :: u64

definition new_cell :: "u64 \<Rightarrow> u64 \<Rightarrow> utxo_cell" where
  "new_cell p a = \<lparr>cell_plurality = p, cell_amount = a\<rparr>"

definition cell_of_entry :: "utxo_entry \<Rightarrow> utxo_cell" where
  "cell_of_entry e = new_cell (utxo_plurality (entry_spk e)) (amount e)"

definition cell_of_output :: "transaction_output \<Rightarrow> utxo_cell" where
  "cell_of_output out = new_cell (utxo_plurality (output_spk out)) (output_value out)"

section \<open>Masses\<close>

record non_contextual_masses =
  compute_mass :: u64
  transient_mass :: u64

definition non_contextual_max :: "non_contextual_masses \<Rightarrow> u64" where
  "non_contextual_max m = max (compute_mass m) (transient_mass m)"

record contextual_masses =
  storage_mass :: u64

definition contextual_max :: "contextual_masses \<Rightarrow> non_contextual_masses \<Rightarrow> u64" where
  "contextual_max c m = max (storage_mass c) (non_contextual_max m)"

definition mass_max :: "non_contextual_masses \<times> contextual_masses \<Rightarrow> u64" where
  "mass_max m = contextual_max (snd m) (fst m)"

record mass_calculator =
  mass_per_tx_byte :: u64
  mass_per_script_pub_key_byte :: u64
  mass_per_sig_op :: u64
  storage_mass_parameter :: u64

definition new_mass_calculator :: "u64 \<Rightarrow> u64 \<Rightarrow> u64 \<Rightarrow> u64 \<Rightarrow> mass_calculator" where
  "new_mass_calculator b s o_mass c = \<lparr>mass_per_tx_byte = b, mass_per_script_pub_key_byte = s,
     mass_per_sig_op = o_mass, storage_mass_parameter = c\<rparr>"

definition calc_non_contextual_masses ::
    "mass_calculator \<Rightarrow> transaction \<Rightarrow> (non_contextual_masses, 'e) outcome" where
  "calc_non_contextual_masses mc tx =
     (if is_coinbase tx then Ok \<lparr>compute_mass = 0, transient_mass = 0\<rparr>
      else
        rbind (transaction_estimated_serialized_size tx) (\<lambda>size.
        rbind (mul_w size (mass_per_tx_byte mc)) (\<lambda>compute_mass_for_size.
        rbind (rbind (rmap (\<lambda>out. add_w 2 (of_nat (length (script (output_spk out))))) (outputs tx)) sum_w)
          (\<lambda>total_script_public_key_size.
        rbind (mul_w total_script_public_key_size (mass_per_script_pub_key_byte mc))
          (\<lambda>total_script_public_key_mass.
        rbind (sum_w (map (\<lambda>i. ucast (sig_op_count i)) (inputs tx))) (\<lambda>total_sigops.
        rbind (mul_w total_sigops (mass_per_sig_op mc)) (\<lambda>total_sigops_mass.
        rbind (rbind (add_w compute_mass_for_size total_script_public_key_mass)
                 (\<lambda>m. add_w m total_sigops_mass)) (\<lambda>compute_mass'.
        rbind (mul_w size TRANSIENT_BYTE_TO_MASS_FACTOR) (\<lambda>transient_mass'.
        Ok \<lparr>compute_mass = compute_mass', transient_mass = transient_mass'\<rparr>)))))))))"

section \<open>Storage mass\<close>

text \<open>The \<^verbatim>\<open>try_fold\<close> over the outputs: \<open>None\<close> ends the loop.\<close>

fun outputs_fold ::
    "u64 \<Rightarrow> utxo_cell list \<Rightarrow> u64 \<times> u64 \<Rightarrow> ((u64 \<times> u64) option, 'e) outcome" where
  "outputs_fold storm_param [] acc = Ok (Some acc)"
| "outputs_fold storm_param (c # cs) (acc_plurality, acc_harm) =
     rbind (add_w acc_plurality (cell_plurality c)) (\<lambda>plurality'.
     (case checked_mul storm_param (cell_plurality c) of
        None \<Rightarrow> Ok None
      | Some x \<Rightarrow>
          (case checked_mul x (cell_plurality c) of
             None \<Rightarrow> Ok None
           | Some y \<Rightarrow>
               rbind (div_w y (cell_amount c)) (\<lambda>q.
               (case checked_add acc_harm q of
                  None \<Rightarrow> Ok None
                | Some harm' \<Rightarrow> outputs_fold storm_param cs (plurality', harm'))))))"

definition relaxed_formula_path :: "utxo_cell list \<Rightarrow> u64 \<Rightarrow> (bool, 'e) outcome" where
  "relaxed_formula_path ins outs_plurality =
     (if outs_plurality = 1 then Ok True
      else if length ins > 2 then Ok False
      else rbind (sum_w (map cell_plurality ins)) (\<lambda>ins_plurality.
             Ok (ins_plurality = 1 \<or> (outs_plurality = 2 \<and> ins_plurality = 2))))"

definition harmonic_ins :: "u64 \<Rightarrow> utxo_cell list \<Rightarrow> (u64, 'e) outcome" where
  "harmonic_ins storm_param ins =
     rfold (\<lambda>c total.
       rbind (mul_w storm_param (cell_plurality c)) (\<lambda>x.
       rbind (mul_w x (cell_plurality c)) (\<lambda>y.
       rbind (div_w y (cell_amount c)) (\<lambda>current.
       Ok (saturating_add total current))))) ins 0"

definition arithmetic_ins :: "u64 \<Rightarrow> utxo_cell list \<Rightarrow> (u64, 'e) outcome" where
  "arithmetic_ins storm_param ins =
     rbind (rfold (\<lambda>c (acc_plur, acc_amt).
              rbind (add_w acc_plur (cell_plurality c)) (\<lambda>p.
              rbind (add_w acc_amt (cell_amount c)) (\<lambda>a. Ok (p, a)))) ins (0, 0))
       (\<lambda>(ins_plurality, sum_ins).
     rbind (div_w sum_ins ins_plurality) (\<lambda>mean_ins.
     rbind (div_w storm_param mean_ins) (\<lambda>q.
     Ok (saturating_mul ins_plurality q))))"

definition calc_storage_mass ::
    "bool \<Rightarrow> utxo_cell list \<Rightarrow> utxo_cell list \<Rightarrow> u64 \<Rightarrow> (u64 option, 'e) outcome" where
  "calc_storage_mass coinbase ins outs storm_param =
     (if coinbase then Ok (Some 0)
      else
        rbind (outputs_fold storm_param outs (0, 0)) (\<lambda>r.
        (case r of
           None \<Rightarrow> Ok None
         | Some (outs_plurality, harmonic_outs) \<Rightarrow>
             rbind (relaxed_formula_path ins outs_plurality) (\<lambda>relaxed.
             if relaxed
             then rbind (harmonic_ins storm_param ins) (\<lambda>h. Ok (Some (saturating_sub harmonic_outs h)))
             else rbind (arithmetic_ins storm_param ins) (\<lambda>a. Ok (Some (saturating_sub harmonic_outs a)))))))"

text \<open>
  The iterator over the populated inputs is lazy in the source; it panics only where an entry is
  missing, which the constructor of a populated transaction rules out.
\<close>

definition calc_contextual_masses ::
    "mass_calculator \<Rightarrow> populated_tx \<Rightarrow> (contextual_masses option, 'e) outcome" where
  "calc_contextual_masses mc p =
     rbind (populated_inputs p) (\<lambda>pis.
     rbind (calc_storage_mass (is_coinbase (ptx p)) (map (\<lambda>(_, e). cell_of_entry e) pis)
              (map cell_of_output (outputs (ptx p))) (storage_mass_parameter mc)) (\<lambda>m.
     Ok (map_option (\<lambda>s. \<lparr>storage_mass = s\<rparr>) m)))"

section \<open>Sums and sizes as natural numbers\<close>

lemma add_w_eq:
  "add_w a b = (if unat a + unat b < 2 ^ LENGTH('a) then Ok (of_nat (unat a + unat b)) else Panic)"
  for a b :: "'a::len word"
  by (simp add: checked_add_def)

lemma mul_w_eq:
  "mul_w a b = (if unat a * unat b < 2 ^ LENGTH('a) then Ok (of_nat (unat a * unat b)) else Panic)"
  for a b :: "'a::len word"
  by (simp add: checked_mul_def)

lemma unat_of_nat_small: "n < 2 ^ LENGTH('a::len) \<Longrightarrow> unat (of_nat n :: 'a word) = n"
  by (simp add: unat_of_nat take_bit_nat_eq_self)

lemma sum_w_from:
  "rfold (\<lambda>x acc. add_w acc x) xs a =
     (if unat a + sum_list (map unat xs) < 2 ^ LENGTH('a)
      then Ok (of_nat (unat a + sum_list (map unat xs))) else Panic)"
  for a :: "'a::len word"
proof (induction xs arbitrary: a)
  case Nil
  then show ?case by (simp add: unat_bound)
next
  case (Cons x xs)
  show ?case
  proof (cases "unat a + unat x < 2 ^ LENGTH('a)")
    case True
    then show ?thesis
      using Cons [of "of_nat (unat a + unat x)"]
      by (simp add: add_w_eq unat_of_nat_small add.assoc del: of_nat_add)
  qed (simp add: add_w_eq)
qed

lemma sum_w_eq:
  "sum_w xs = (if sum_list (map unat xs) < 2 ^ LENGTH('a)
     then Ok (of_nat (sum_list (map unat xs))) else Panic)"
  for xs :: "'a::len word list"
  by (simp add: sum_w_def sum_w_from)

lemma sum_w_Ok_iff: "sum_w xs = Ok r \<longleftrightarrow> unat r = sum_list (map unat xs)"
  for r :: "'a::len word"
  by (auto simp: sum_w_eq unat_of_nat_small unat_bound word_unat_eq_iff dest: sym)

definition input_size :: "transaction_input \<Rightarrow> nat" where
  "input_size i = 52 + length (signature_script i)"

definition output_size :: "transaction_output \<Rightarrow> nat" where
  "output_size out = 18 + length (script (output_spk out))"

definition tx_size :: "transaction \<Rightarrow> nat" where
  "tx_size tx = 94 + sum_list (map input_size (inputs tx)) + sum_list (map output_size (outputs tx)) +
     length (payload tx)"

lemma rmap_eq: "(\<And>x. x \<in> set xs \<Longrightarrow> f x = Ok (g x)) \<Longrightarrow> rmap f xs = Ok (map g xs)"
  by (induction xs) auto

lemma rmap_sum:
  assumes "\<And>x. x \<in> set xs \<Longrightarrow> n x < 2 ^ LENGTH('a) \<Longrightarrow> f x = Ok (of_nat (n x) :: 'a::len word)"
    and "sum_list (map n xs) < 2 ^ LENGTH('a)"
  shows "rbind (rmap f xs) sum_w = Ok (of_nat (sum_list (map n xs)))"
proof -
  have n: "n x < 2 ^ LENGTH('a)" if "x \<in> set xs" for x
    using member_le_sum_list [of "n x" "map n xs"] that assms(2) by simp
  have "rmap f xs = Ok (map (\<lambda>x. of_nat (n x)) xs)"
    by (rule rmap_eq) (simp add: assms(1) n)
  moreover have "map unat (map (\<lambda>x. of_nat (n x) :: 'a word) xs) = map n xs"
    by (simp add: n unat_of_nat_small)
  ultimately show ?thesis using assms(2) by (simp only: rbind.simps sum_w_eq if_True)
qed

lemma input_size_eq:
  "input_size i < 2 ^ 64 \<Longrightarrow> transaction_input_estimated_serialized_size i = Ok (of_nat (input_size i))"
  by (simp add: transaction_input_estimated_serialized_size_def outpoint_estimated_serialized_size_def
      sum_w_eq HASH_SIZE_def input_size_def unat_of_nat_small)

lemma output_size_eq:
  "output_size out < 2 ^ 64 \<Longrightarrow> transaction_output_estimated_serialized_size out = Ok (of_nat (output_size out))"
  by (simp add: transaction_output_estimated_serialized_size_def sum_w_eq output_size_def unat_of_nat_small)

lemma tx_size_sum:
  assumes "94 + i + out + len < (2 :: nat) ^ 64"
  shows "sum_w [2, 8, of_nat i :: u64, 8, of_nat out, 8, of_nat SUBNETWORK_ID_SIZE, 8, of_nat HASH_SIZE, 8, of_nat len] =
    Ok (of_nat (94 + i + out + len))"
proof -
  have "map unat [2, 8, of_nat i :: u64, 8, of_nat out, 8, of_nat SUBNETWORK_ID_SIZE, 8, of_nat HASH_SIZE, 8, of_nat len] =
    [2, 8, i, 8, out, 8, 20, 8, 32, 8, len]"
    using assms by (simp add: unat_of_nat_small SUBNETWORK_ID_SIZE_def HASH_SIZE_def)
  moreover have "sum_list [2, 8, i, 8, out, 8, 20, 8, 32, 8, len] = 94 + i + out + len" by simp
  ultimately show ?thesis using assms by (simp only: sum_w_eq) simp
qed

lemma tx_size_eq:
  assumes "tx_size tx < 2 ^ 64"
  shows "(transaction_estimated_serialized_size tx :: (u64, 'e) outcome) = Ok (of_nat (tx_size tx))"
proof -
  let ?i = "sum_list (map input_size (inputs tx))" and ?o = "sum_list (map output_size (outputs tx))"
  have "rbind (rmap transaction_input_estimated_serialized_size (inputs tx)) sum_w = (Ok (of_nat ?i) :: (u64, 'e) outcome)"
    by (rule rmap_sum) (use assms in \<open>simp_all add: input_size_eq tx_size_def\<close>)
  moreover have "rbind (rmap transaction_output_estimated_serialized_size (outputs tx)) sum_w = (Ok (of_nat ?o) :: (u64, 'e) outcome)"
    by (rule rmap_sum) (use assms in \<open>simp_all add: output_size_eq tx_size_def\<close>)
  ultimately show ?thesis
    using tx_size_sum [OF assms [unfolded tx_size_def]]
    by (simp only: transaction_estimated_serialized_size_def rbind.simps tx_size_def)
qed


definition spk_size :: "transaction \<Rightarrow> nat" where
  "spk_size tx = sum_list (map (\<lambda>out. 2 + length (script (output_spk out))) (outputs tx))"

definition sig_ops :: "transaction \<Rightarrow> nat" where
  "sig_ops tx = sum_list (map (\<lambda>i. unat (sig_op_count i)) (inputs tx))"

lemma checked_mul_of_nat:
  fixes b :: "'a::len word"
  assumes "n * unat b < 2 ^ LENGTH('a)" and "n < 2 ^ LENGTH('a)"
  shows "checked_mul (of_nat n) b = Some (of_nat (n * unat b))"
  using assms by (simp add: checked_mul_def unat_of_nat_small)

lemma checked_add_of_nat:
  assumes "m + n < 2 ^ LENGTH('a)"
  shows "checked_add (of_nat m) (of_nat n :: 'a::len word) = Some (of_nat (m + n))"
  using assms by (simp add: checked_add_def unat_of_nat_small)

lemma spk_size_eq:
  assumes "spk_size tx < 2 ^ 64"
  shows "rbind (rmap (\<lambda>out. add_w 2 (of_nat (length (script (output_spk out))))) (outputs tx)) sum_w =
    (Ok (of_nat (spk_size tx)) :: (u64, 'e) outcome)"
  unfolding spk_size_def
proof (rule rmap_sum)
  fix out assume "2 + length (script (output_spk out)) < 2 ^ LENGTH(64)"
  then show "add_w 2 (of_nat (length (script (output_spk out)))) =
      (Ok (of_nat (2 + length (script (output_spk out)))) :: (u64, 'e) outcome)"
    using checked_add_of_nat [of 2 "length (script (output_spk out))", where 'a = 64] by simp
qed (use assms in \<open>simp add: spk_size_def\<close>)

lemma sig_ops_eq:
  assumes "sig_ops tx < 2 ^ 64"
  shows "sum_w (map (\<lambda>i. ucast (sig_op_count i)) (inputs tx)) = Ok (of_nat (sig_ops tx) :: u64)"
proof -
  have "unat (ucast x :: u64) = unat x" for x :: u8
    using unat_bound [of x] by (simp add: unsigned_ucast_eq take_bit_nat_eq_self)
  then have "map unat (map (\<lambda>i. ucast (sig_op_count i) :: u64) (inputs tx)) = map (\<lambda>i. unat (sig_op_count i)) (inputs tx)"
    by simp
  then show ?thesis
    using assms by (simp only: sum_w_eq sig_ops_def) simp
qed


text \<open>
  The masses of a transaction that is not a coinbase are the documented weighted sums: compute
  mass weighs the size, the script public key bytes and the signature operations; transient mass
  weighs the size. The bound on the sums is what keeps the checked additions from panicking.
\<close>

theorem non_contextual_masses_exact:
  assumes "\<not> is_coinbase tx" and "tx_size tx * unat TRANSIENT_BYTE_TO_MASS_FACTOR < 2 ^ 64"
    and "spk_size tx < 2 ^ 64" and "sig_ops tx < 2 ^ 64"
    and "tx_size tx * unat (mass_per_tx_byte mc) + spk_size tx * unat (mass_per_script_pub_key_byte mc) +
      sig_ops tx * unat (mass_per_sig_op mc) < 2 ^ 64" (is "?b + ?s + ?o < _")
  shows "calc_non_contextual_masses mc tx = Ok \<lparr>compute_mass = of_nat (?b + ?s + ?o),
    transient_mass = of_nat (tx_size tx * unat TRANSIENT_BYTE_TO_MASS_FACTOR)\<rparr>"
proof -
  have size: "tx_size tx < 2 ^ 64"
    using assms(2) by (simp add: TRANSIENT_BYTE_TO_MASS_FACTOR_def)
  have "checked_mul (of_nat (tx_size tx)) (mass_per_tx_byte mc) = Some (of_nat ?b)"
    "checked_mul (of_nat (spk_size tx)) (mass_per_script_pub_key_byte mc) = Some (of_nat ?s)"
    "checked_mul (of_nat (sig_ops tx)) (mass_per_sig_op mc) = Some (of_nat ?o)"
    "checked_mul (of_nat (tx_size tx)) TRANSIENT_BYTE_TO_MASS_FACTOR =
       Some (of_nat (tx_size tx * unat TRANSIENT_BYTE_TO_MASS_FACTOR))"
    by (rule checked_mul_of_nat; use assms size in simp)+
  moreover have "checked_add (of_nat ?b) (of_nat ?s :: u64) = Some (of_nat (?b + ?s))"
    "checked_add (of_nat (?b + ?s)) (of_nat ?o :: u64) = Some (of_nat (?b + ?s + ?o))"
    by (rule checked_add_of_nat; use assms in simp)+
  ultimately show ?thesis
    using assms(1)
    by (simp add: calc_non_contextual_masses_def tx_size_eq [OF size] spk_size_eq [OF assms(3)]
        sig_ops_eq [OF assms(4)] del: of_nat_add of_nat_mult)
qed

definition ex_mass_tx :: transaction where
  "ex_mass_tx = \<lparr>version = 0,
     inputs = [\<lparr>previous_outpoint = new_outpoint 7 0, signature_script = replicate 66 1, sequence_no = 0, sig_op_count = 1\<rparr>],
     outputs = [\<lparr>output_value = 5, output_spk = \<lparr>spk_version = 0, script = replicate 34 2\<rparr>\<rparr>],
     lock_time = 0, subnetwork_id = SUBNETWORK_ID_NATIVE, gas = 0, payload = [], mass = 0, tx_id = 1\<rparr>"

theorem non_contextual_masses_exact_witness:
  "calc_non_contextual_masses (new_mass_calculator 1 10 1000 STORAGE_MASS_PARAMETER) ex_mass_tx =
     (Ok \<lparr>compute_mass = 1624, transient_mass = 1056\<rparr> :: (non_contextual_masses, unit) outcome)"
proof -
  let ?mc = "new_mass_calculator 1 10 1000 STORAGE_MASS_PARAMETER"
  have "tx_size ex_mass_tx = 264" "spk_size ex_mass_tx = 36" "sig_ops ex_mass_tx = 1" "\<not> is_coinbase ex_mass_tx"
    by (simp_all add: tx_size_def spk_size_def sig_ops_def input_size_def output_size_def ex_mass_tx_def is_coinbase_def)
  then show ?thesis
    using non_contextual_masses_exact [of ex_mass_tx ?mc, where 'a = unit]
    by (simp add: new_mass_calculator_def TRANSIENT_BYTE_TO_MASS_FACTOR_def)
qed

section \<open>Storage mass as a formula\<close>

definition cell_harm :: "u64 \<Rightarrow> utxo_cell \<Rightarrow> nat" where
  "cell_harm c x = unat c * unat (cell_plurality x) * unat (cell_plurality x) div unat (cell_amount x)"

definition harm :: "u64 \<Rightarrow> utxo_cell list \<Rightarrow> nat" where
  "harm c xs = sum_list (map (cell_harm c) xs)"

definition total_plurality :: "utxo_cell list \<Rightarrow> nat" where
  "total_plurality xs = sum_list (map (\<lambda>x. unat (cell_plurality x)) xs)"

definition total_amount :: "utxo_cell list \<Rightarrow> nat" where
  "total_amount xs = sum_list (map (\<lambda>x. unat (cell_amount x)) xs)"

definition relaxed_case :: "utxo_cell list \<Rightarrow> utxo_cell list \<Rightarrow> bool" where
  "relaxed_case ins outs = (total_plurality outs = 1 \<or> total_plurality ins = 1 \<or>
     (total_plurality outs = 2 \<and> total_plurality ins = 2))"

text \<open>Each product of the parameter with a squared plurality fits a machine word.\<close>

definition squares_fit :: "u64 \<Rightarrow> utxo_cell list \<Rightarrow> bool" where
  "squares_fit c xs = list_all (\<lambda>x. unat c * unat (cell_plurality x) * unat (cell_plurality x) < 2 ^ 64) xs"

definition cells_ok :: "utxo_cell list \<Rightarrow> bool" where
  "cells_ok xs = (list_all (\<lambda>x. cell_amount x \<noteq> 0 \<and> cell_plurality x \<noteq> 0) xs \<and> total_plurality xs < 2 ^ 64)"

definition kip9_mass :: "u64 \<Rightarrow> utxo_cell list \<Rightarrow> utxo_cell list \<Rightarrow> nat" where
  "kip9_mass c ins outs = harm c outs -
     (if relaxed_case ins outs then harm c ins
      else total_plurality ins * (unat c div (total_amount ins div total_plurality ins)))"

lemma cells_ok_Cons:
  "cells_ok (x # xs) \<longleftrightarrow> cell_amount x \<noteq> 0 \<and> cell_plurality x \<noteq> 0 \<and> cells_ok xs \<and>
     unat (cell_plurality x) + total_plurality xs < 2 ^ 64"
  by (auto simp: cells_ok_def total_plurality_def)

lemma unat_pos: "x \<noteq> 0 \<Longrightarrow> 0 < unat (x :: 'a::len word)"
  by (simp add: unat_gt_0)

lemma checked_mul_eq:
  "checked_mul a b = (if unat a * unat b < 2 ^ LENGTH('a) then Some (of_nat (unat a * unat b)) else None)"
  for a b :: "'a::len word"
  by (simp add: checked_mul_def)

lemma checked_add_eq:
  "checked_add a b = (if unat a + unat b < 2 ^ LENGTH('a) then Some (of_nat (unat a + unat b)) else None)"
  for a b :: "'a::len word"
  by (simp add: checked_add_def)

text \<open>The two multiplications of one cell, and the division by its amount.\<close>

lemma cell_square:
  assumes "cell_plurality x \<noteq> 0"
  shows "(case checked_mul c (cell_plurality x) of None \<Rightarrow> None | Some y \<Rightarrow> checked_mul y (cell_plurality x)) =
    (if squares_fit c [x] then Some (of_nat (unat c * unat (cell_plurality x) * unat (cell_plurality x))) else None)"
proof (cases "unat c * unat (cell_plurality x) < 2 ^ 64")
  case True
  then show ?thesis by (simp add: checked_mul_eq squares_fit_def unat_of_nat_small del: of_nat_mult)
next
  case False
  have "unat c * unat (cell_plurality x) * 1 \<le> unat c * unat (cell_plurality x) * unat (cell_plurality x)"
    by (rule mult_le_mono2) (use unat_pos [OF assms] in simp)
  then have "\<not> squares_fit c [x]"
    using False unfolding squares_fit_def list.pred_inject mult_1_right by linarith
  with False show ?thesis by (simp add: checked_mul_eq)
qed

lemma cell_quotient:
  assumes "cell_amount x \<noteq> 0" and "squares_fit c [x]"
  shows "div_w (of_nat (unat c * unat (cell_plurality x) * unat (cell_plurality x))) (cell_amount x) =
    Ok (of_nat (cell_harm c x))" and "cell_harm c x < 2 ^ 64"
proof -
  let ?n = "unat c * unat (cell_plurality x) * unat (cell_plurality x)"
  have n: "?n < 2 ^ 64" using assms(2) by (simp add: squares_fit_def)
  show "cell_harm c x < 2 ^ 64"
    unfolding cell_harm_def using n by (rule le_less_trans [OF div_le_dividend])
  have "of_nat ?n div cell_amount x = of_nat (unat (of_nat ?n :: u64) div unat (cell_amount x))"
    by (rule word_div_def [unfolded uint_nat, simplified zdiv_int [symmetric] of_int_of_nat_eq])
  then show "div_w (of_nat ?n) (cell_amount x) = Ok (of_nat (cell_harm c x))"
    using assms(1) n by (simp add: checked_div_def cell_harm_def unat_of_nat_small del: of_nat_mult)
qed


lemma squares_fit_Cons: "squares_fit c (x # xs) \<longleftrightarrow> squares_fit c [x] \<and> squares_fit c xs"
  by (simp add: squares_fit_def)

lemma harm_Cons: "harm c (x # xs) = cell_harm c x + harm c xs"
  by (simp add: harm_def)

lemma outputs_fold_Cons:
  assumes "cell_plurality x \<noteq> 0" "cell_amount x \<noteq> 0" "unat p + unat (cell_plurality x) < 2 ^ 64"
  shows "outputs_fold c (x # xs) (p, h) =
    (if squares_fit c [x] \<and> unat h + cell_harm c x < 2 ^ 64
     then outputs_fold c xs (of_nat (unat p + unat (cell_plurality x)), of_nat (unat h + cell_harm c x)) else Ok None)"
proof (cases "squares_fit c [x]")
  case True
  then obtain y where y: "checked_mul c (cell_plurality x) = Some y"
    "checked_mul y (cell_plurality x) = Some (of_nat (unat c * unat (cell_plurality x) * unat (cell_plurality x)))"
    using cell_square [OF assms(1), of c] by (auto split: option.splits)
  then show ?thesis
    using True assms cell_quotient(2) [OF assms(2) True]
    by (simp add: cell_quotient(1) checked_add_eq unat_of_nat_small del: of_nat_mult of_nat_add)
next
  case False
  then show ?thesis
    using assms cell_square [OF assms(1), of c]
    by (auto simp: checked_add_eq split: option.splits)
qed

lemma outputs_fold_eq:
  assumes "cells_ok xs" and "unat p + total_plurality xs < 2 ^ 64"
  shows "outputs_fold c xs (p, h) =
    Ok (if squares_fit c xs \<and> unat h + harm c xs < 2 ^ 64
        then Some (of_nat (unat p + total_plurality xs), of_nat (unat h + harm c xs)) else None)"
  using assms
proof (induction xs arbitrary: p h)
  case Nil
  then show ?case by (simp add: squares_fit_def harm_def total_plurality_def unat_bound [where 'a = 64, simplified])
next
  case (Cons x xs)
  then have x: "cell_plurality x \<noteq> 0" "cell_amount x \<noteq> 0" "unat p + unat (cell_plurality x) < 2 ^ 64" and xs: "cells_ok xs"
    and tp: "total_plurality (x # xs) = unat (cell_plurality x) + total_plurality xs"
    by (auto simp: cells_ok_Cons total_plurality_def)
  let ?p = "of_nat (unat p + unat (cell_plurality x)) :: u64" and ?h = "of_nat (unat h + cell_harm c x) :: u64"
  have p: "unat ?p = unat p + unat (cell_plurality x)" by (rule unat_of_nat_small) (use x in simp)
  show ?case
  proof (cases "squares_fit c [x] \<and> unat h + cell_harm c x < 2 ^ 64")
    case True
    then have "unat ?h = unat h + cell_harm c x" by (intro unat_of_nat_small) simp
    then show ?thesis
      using True Cons.IH [OF xs, of ?p ?h] Cons.prems p tp
      by (simp only: outputs_fold_Cons [OF x] squares_fit_Cons [of c x xs] harm_Cons add.assoc) simp
  next
    case False
    then show ?thesis
      by (subst outputs_fold_Cons [OF x]) (auto simp: squares_fit_Cons [of c x xs] harm_Cons)
  qed
qed

lemma relaxed_formula_path_eq:
  assumes "cells_ok ins" and "total_plurality outs < 2 ^ 64"
  shows "(relaxed_formula_path ins (of_nat (total_plurality outs)) :: (bool, 'e) outcome) = Ok (relaxed_case ins outs)"
proof -
  have len: "length ins \<le> total_plurality ins"
    using assms(1)
  proof (induction ins)
    case (Cons x xs)
    then show ?case using unat_pos [of "cell_plurality x"] by (auto simp: cells_ok_Cons total_plurality_def)
  qed simp
  have "sum_w (map cell_plurality ins) = (Ok (of_nat (total_plurality ins)) :: (u64, 'e) outcome)"
    using assms(1) by (simp add: sum_w_eq total_plurality_def cells_ok_def comp_def)
  moreover have "(of_nat (total_plurality xs) :: u64) = of_nat n \<longleftrightarrow> total_plurality xs = n"
    if "total_plurality xs < 2 ^ 64" "n < 2 ^ 64" for xs n
    using that by (intro word_of_nat_inj_iff) simp_all
  note this [of outs 1] this [of outs 2] this [of ins 1] this [of ins 2]
  ultimately show ?thesis
    using len assms by (auto simp: relaxed_formula_path_def relaxed_case_def cells_ok_def)
qed

lemma harmonic_ins_eq:
  assumes "cells_ok ins" "squares_fit c ins"
  shows "\<exists>r. (harmonic_ins c ins :: (u64, 'e) outcome) = Ok r \<and> unat r = min (harm c ins) (2 ^ 64 - 1)"
proof -
  define f :: "utxo_cell \<Rightarrow> u64 \<Rightarrow> (u64, 'e) outcome" where
    "f = (\<lambda>x total. rbind (mul_w c (cell_plurality x)) (\<lambda>y. rbind (mul_w y (cell_plurality x)) (\<lambda>z.
       rbind (div_w z (cell_amount x)) (\<lambda>current. Ok (saturating_add total current)))))"
  have f: "f x t = Ok (saturating_add t (of_nat (cell_harm c x)))"
    if "cell_plurality x \<noteq> 0" "cell_amount x \<noteq> 0" "squares_fit c [x]" for x t
  proof -
    note x = that
    obtain y where "checked_mul c (cell_plurality x) = Some y"
      "checked_mul y (cell_plurality x) = Some (of_nat (unat c * unat (cell_plurality x) * unat (cell_plurality x)))"
      using cell_square [OF x(1), of c] x(3) by (auto split: option.splits)
    then show ?thesis by (simp add: f_def cell_quotient(1) [OF x(2,3)] del: of_nat_mult)
  qed
  have "\<exists>r. rfold f ins t = Ok r \<and> unat r = min (unat t + harm c ins) (2 ^ 64 - 1)" for t
    using assms
  proof (induction ins arbitrary: t)
    case Nil
    then show ?case using unat_bound [of t] by (simp add: harm_def)
  next
    case (Cons x xs)
    then have x: "cell_plurality x \<noteq> 0" "cell_amount x \<noteq> 0" "squares_fit c [x]" and xs: "cells_ok xs" "squares_fit c xs"
      by (auto simp: cells_ok_Cons squares_fit_def)
    have "unat (saturating_add t (of_nat (cell_harm c x))) = min (unat t + cell_harm c x) (2 ^ 64 - 1)"
      using cell_quotient(2) [OF x(2,3)] by (simp add: unat_saturating_add unat_of_nat_small)
    with Cons.IH [OF xs, of "saturating_add t (of_nat (cell_harm c x))"] f [OF x] show ?case
      by (auto simp: harm_Cons)
  qed
  from this [of 0] show ?thesis by (simp add: harmonic_ins_def f_def)
qed

lemma ins_totals:
  assumes "unat p + total_plurality xs < 2 ^ 64" "unat a + total_amount xs < 2 ^ 64"
  shows "\<exists>p' a'. rfold (\<lambda>x (p, a). rbind (add_w p (cell_plurality x)) (\<lambda>p'.
        rbind (add_w a (cell_amount x)) (\<lambda>a'. Ok (p', a')))) xs (p, a) = Ok (p', a') \<and>
      unat p' = unat p + total_plurality xs \<and> unat a' = unat a + total_amount xs"
  using assms
proof (induction xs arbitrary: p a)
  case (Cons x xs)
  define p' a' where "p' = p + cell_plurality x" and "a' = a + cell_amount x"
  have "checked_add p (cell_plurality x) = Some p'" "checked_add a (cell_amount x) = Some a'"
    using Cons.prems by (simp_all add: checked_add_def p'_def a'_def total_plurality_def total_amount_def)
  moreover from this have "unat p' = unat p + unat (cell_plurality x)" "unat a' = unat a + unat (cell_amount x)"
    by (simp_all add: checked_add_Some_iff)
  ultimately show ?case
    using Cons.IH [of p' a'] Cons.prems by (simp add: total_plurality_def total_amount_def add.assoc)
qed (simp add: total_plurality_def total_amount_def)

text \<open>The accumulators of the loop, and the two divisions that follow it.\<close>

lemma arithmetic_ins_steps:
  assumes "total_plurality ins < 2 ^ 64" "total_amount ins < 2 ^ 64"
  shows "\<exists>p a. unat p = total_plurality ins \<and> unat a = total_amount ins \<and>
    arithmetic_ins c ins = rbind (div_w a p) (\<lambda>m. rbind (div_w c m) (\<lambda>q. Ok (saturating_mul p q)))"
proof -
  from ins_totals [of 0 ins 0] assms obtain p a
    where pa: "rfold (\<lambda>x (p, a). rbind (add_w p (cell_plurality x)) (\<lambda>p'.
        rbind (add_w a (cell_amount x)) (\<lambda>a'. Ok (p', a')))) ins (0, 0) = (Ok (p, a) :: (u64 \<times> u64, 'a) outcome)"
    "unat p = total_plurality ins" "unat a = total_amount ins" by auto
  then show ?thesis by (intro exI [of _ p] exI [of _ a]) (simp add: arithmetic_ins_def)
qed

lemma arithmetic_ins_eq:
  assumes "total_plurality ins < 2 ^ 64" "total_amount ins < 2 ^ 64"
    and "0 < total_plurality ins" "total_plurality ins \<le> total_amount ins"
  shows "\<exists>r. (arithmetic_ins c ins :: (u64, 'e) outcome) = Ok r \<and>
    unat r = min (total_plurality ins * (unat c div (total_amount ins div total_plurality ins))) (2 ^ 64 - 1)"
proof -
  obtain p a where pa: "unat p = total_plurality ins" "unat a = total_amount ins"
    "(arithmetic_ins c ins :: (u64, 'e) outcome) =
       rbind (div_w a p) (\<lambda>m. rbind (div_w c m) (\<lambda>q. Ok (saturating_mul p q)))"
    using arithmetic_ins_steps [OF assms(1,2)] by metis
  have m: "unat (a div p) = total_amount ins div total_plurality ins" using pa by (simp add: unat_div)
  moreover from this have "0 < unat (a div p)" using assms by (simp add: div_greater_zero_iff)
  ultimately have "p \<noteq> 0" "a div p \<noteq> 0" using pa(1) assms(3) by auto
  then show ?thesis
    using pa m by (simp add: checked_div_def unat_saturating_mul unat_div)
qed

lemma storage_mass_formula:
  assumes "cells_ok ins" "cells_ok outs" "squares_fit c ins" "ins \<noteq> []"
    and "total_amount ins < 2 ^ 64" "total_plurality ins \<le> total_amount ins"
  shows "(calc_storage_mass False ins outs c :: (u64 option, 'e) outcome) =
    Ok (if squares_fit c outs \<and> harm c outs < 2 ^ 64 then Some (of_nat (kip9_mass c ins outs)) else None)"
proof (cases "squares_fit c outs \<and> harm c outs < 2 ^ 64")
  case True
  let ?h = "of_nat (harm c outs) :: u64"
  have outs: "total_plurality outs < 2 ^ 64" and ins: "total_plurality ins < 2 ^ 64" and pos: "0 < total_plurality ins"
    using assms by (auto simp: cells_ok_def total_plurality_def neq_Nil_conv unat_gt_0)
  have h: "unat ?h = harm c outs" by (rule unat_of_nat_small) (use True in simp)
  have sub: "saturating_sub ?h r = of_nat (harm c outs - n)" if "unat r = min n (2 ^ 64 - 1)" for r :: u64 and n
  proof -
    have "unat (saturating_sub ?h r) = harm c outs - n"
      using that h True by (auto simp: unat_saturating_sub)
    then show ?thesis by (metis of_nat_unat ucast_id)
  qed
  obtain a where a: "(arithmetic_ins c ins :: (u64, 'e) outcome) = Ok a"
      "unat a = min (total_plurality ins * (unat c div (total_amount ins div total_plurality ins))) (2 ^ 64 - 1)"
    using arithmetic_ins_eq [OF ins assms(5) pos assms(6)] by metis
  obtain r where r: "(harmonic_ins c ins :: (u64, 'e) outcome) = Ok r" "unat r = min (harm c ins) (2 ^ 64 - 1)"
    using harmonic_ins_eq [OF assms(1,3)] by metis
  show ?thesis
    using True outs a(1) r(1) sub [OF a(2)] sub [OF r(2)]
    by (simp add: calc_storage_mass_def outputs_fold_eq [OF assms(2)] relaxed_formula_path_eq [OF assms(1)]
        kip9_mass_def)
next
  case False
  then show ?thesis
    using assms(2) by (auto simp: calc_storage_mass_def outputs_fold_eq [OF assms(2)] cells_ok_def)
qed


text \<open>
  C33. The storage mass is the KIP-9 formula over the natural numbers, for every choice of the
  relaxed and the general case, or \<open>None\<close> when the outputs' part does not fit a machine word. The
  hypotheses are the ones that keep the code from panicking: no zero amount, at least one input,
  products over the inputs that fit, and inputs whose amounts reach their pluralities.
\<close>

theorem storage_mass_exact:
  assumes "cells_ok ins" "cells_ok outs" "squares_fit c ins" "ins \<noteq> []"
    and "total_amount ins < 2 ^ 64" "total_plurality ins \<le> total_amount ins"
  shows "(calc_storage_mass False ins outs c :: (u64 option, 'e) outcome) =
    Ok (if squares_fit c outs \<and> harm c outs < 2 ^ 64 then Some (of_nat (kip9_mass c ins outs)) else None)"
  using assms by (rule storage_mass_formula)

theorem storage_mass_exact_witness:
  "calc_storage_mass False [new_cell 1 1000, new_cell 1 3000] [new_cell 1 1500, new_cell 1 500, new_cell 2 1900] 1000000 =
    (Ok (Some (of_nat (kip9_mass 1000000 [new_cell 1 1000, new_cell 1 3000]
       [new_cell 1 1500, new_cell 1 500, new_cell 2 1900]))) :: (u64 option, unit) outcome) \<and>
   kip9_mass 1000000 [new_cell 1 1000, new_cell 1 3000] [new_cell 1 1500, new_cell 1 500, new_cell 2 1900] = 3771"
  using storage_mass_exact [of "[new_cell 1 1000, new_cell 1 3000]"
      "[new_cell 1 1500, new_cell 1 500, new_cell 2 1900]" 1000000, where 'e = unit]
  by (simp add: cells_ok_def squares_fit_def total_plurality_def total_amount_def harm_def cell_harm_def
      kip9_mass_def relaxed_case_def new_cell_def numeral_2_eq_2 [symmetric])

text \<open>
  C34. Non-zero values and one input are not enough for the general case: when the amounts of the
  inputs sum to less than their pluralities the mean is zero and the code divides by it.
\<close>

theorem storage_mass_divides_by_zero:
  assumes "cells_ok ins" "cells_ok outs" "squares_fit c outs" "harm c outs < 2 ^ 64"
    and "\<not> relaxed_case ins outs" "total_amount ins < total_plurality ins"
  shows "calc_storage_mass False ins outs c = (Panic :: (u64 option, 'a) outcome)"
proof -
  have lt: "total_plurality ins < 2 ^ 64" "total_plurality outs < 2 ^ 64" "total_amount ins < 2 ^ 64"
    using assms by (simp_all add: cells_ok_def)
  obtain p a where pa: "unat p = total_plurality ins" "unat a = total_amount ins"
    "(arithmetic_ins c ins :: (u64, 'a) outcome) =
       rbind (div_w a p) (\<lambda>m. rbind (div_w c m) (\<lambda>q. Ok (saturating_mul p q)))"
    using arithmetic_ins_steps [OF lt(1,3)] by metis
  have "unat (a div p) = 0" using pa assms(6) by (simp add: unat_div)
  then have "a div p = 0" by (simp only: unat_eq_0)
  moreover have "p \<noteq> 0" using pa assms(6) by auto
  ultimately have "arithmetic_ins c ins = (Panic :: (u64, 'a) outcome)"
    using pa by (simp add: checked_div_def)
  then show ?thesis
    using assms lt by (simp add: calc_storage_mass_def outputs_fold_eq relaxed_formula_path_eq)
qed

theorem storage_mass_divides_by_zero_witness:
  "calc_storage_mass False (replicate 3 (new_cell 2 1)) [new_cell 1 1, new_cell 1 1] 1000000000000 =
    (Panic :: (u64 option, unit) outcome)"
  using storage_mass_divides_by_zero [of "replicate 3 (new_cell 2 1)" "[new_cell 1 1, new_cell 1 1]" 1000000000000]
  by (simp add: cells_ok_def squares_fit_def total_plurality_def total_amount_def harm_def cell_harm_def
      relaxed_case_def new_cell_def numeral_3_eq_3)

end
