(* ===== verification/Tx_Validation.thy ===== *)
theory Tx_Validation
  imports Script_Spend Mass_Calc "HOL-Library.Multiset"
begin

text \<open>
  The transaction validator (\<^verbatim>\<open>src/consensus/src/processes/transaction_validator\<close>): the checks
  of a transaction alone, the lock time checks against a header, and the checks against the
  entries it spends, down to the scripts of every input. The lemmas say exactly which
  transactions are accepted, that an accepted transaction creates no value, that no
  transaction can panic the validator, and that the order in which the inputs' scripts are
  checked does not matter.

  The comparison of a fee rate with a threshold is on \<^verbatim>\<open>f64\<close> values; it is a parameter
  \<open>feerate_le fee mass threshold\<close> of the definitions, and no result depends on what it is. On an
  error the updated signature cache is dropped: the cache is transparent, so no later verdict
  depends on it.
\<close>

section \<open>Errors and configuration\<close>

datatype tx_rule_error =
    NoTxInputs
  | TxDuplicateInputs
  | TxHasGas
  | UnknownTxVersion u16
  | TooManyInputs nat nat
  | TooManyOutputs nat nat
  | TooBigSignatureScript nat nat
  | TooBigScriptPublicKey nat nat
  | NotFinalized nat
  | CoinbaseHasInputs nat
  | CoinbaseTooManyOutputs nat u64
  | CoinbaseScriptPublicKeyTooLong nat
  | CoinbaseNonZeroMassCommitment
  | ImmatureCoinbaseSpend nat transaction_outpoint u64 u64 u64
  | InputAmountOverflow
  | InputAmountTooHigh
  | TxOutZero nat
  | TxOutTooHigh nat
  | OutputsValueOverflow
  | TotalTxOutTooHigh
  | SpendTooHigh u64 u64
  | SequenceLockConditionsAreNotMet
  | MissingTxOutpoints
  | SignatureInvalid script_error
  | SignatureEmpty script_error
  | WrongSigOpCount nat u64 u64
  | MassIncomputable
  | WrongMass u64 u64
  | SubnetworksDisabled subnetwork_id
  | FeerateTooLow

type_synonym 'a tx_result = "('a, tx_rule_error) outcome"

record transaction_validator =
  max_tx_inputs :: nat
  max_tx_outputs :: nat
  max_signature_script_len :: nat
  max_script_public_key_len :: nat
  coinbase_payload_script_public_key_max_len :: u8
  coinbase_maturity :: u64
  ghostdag_k :: u16
  tv_sig_cache :: sig_cache
  tv_mass_calculator :: mass_calculator

definition new_validator ::
    "nat \<Rightarrow> nat \<Rightarrow> nat \<Rightarrow> nat \<Rightarrow> u8 \<Rightarrow> u64 \<Rightarrow> u16 \<Rightarrow> mass_calculator \<Rightarrow> transaction_validator" where
  "new_validator ins outs sig_len spk_len coinbase_len maturity k mc =
     \<lparr>max_tx_inputs = ins, max_tx_outputs = outs, max_signature_script_len = sig_len,
      max_script_public_key_len = spk_len, coinbase_payload_script_public_key_max_len = coinbase_len,
      coinbase_maturity = maturity, ghostdag_k = k, tv_sig_cache = new_cache 10000, tv_mass_calculator = mc\<rparr>"

section \<open>Validation in isolation\<close>

definition check_transaction_inputs_count :: "transaction_validator \<Rightarrow> transaction \<Rightarrow> unit tx_result" where
  "check_transaction_inputs_count tv tx =
     rbind (fail_if (\<not> is_coinbase tx \<and> inputs tx = []) NoTxInputs) (\<lambda>_.
     fail_if (length (inputs tx) > max_tx_inputs tv) (TooManyInputs (length (inputs tx)) (max_tx_inputs tv)))"

definition check_transaction_signature_scripts ::
    "transaction_validator \<Rightarrow> transaction \<Rightarrow> unit tx_result" where
  "check_transaction_signature_scripts tv tx =
     rfold (\<lambda>(i, input) _. fail_if (length (signature_script input) > max_signature_script_len tv)
              (TooBigSignatureScript i (max_signature_script_len tv)))
       (enumerate 0 (inputs tx)) ()"

definition check_transaction_inputs_in_isolation ::
    "transaction_validator \<Rightarrow> transaction \<Rightarrow> unit tx_result" where
  "check_transaction_inputs_in_isolation tv tx =
     rbind (check_transaction_inputs_count tv tx) (\<lambda>_. check_transaction_signature_scripts tv tx)"

definition check_transaction_outputs_count :: "transaction_validator \<Rightarrow> transaction \<Rightarrow> unit tx_result" where
  "check_transaction_outputs_count tv tx =
     (if is_coinbase tx then Ok ()
      else fail_if (length (outputs tx) > max_tx_outputs tv)
             (TooManyOutputs (length (outputs tx)) (max_tx_outputs tv)))"

definition check_transaction_script_public_keys ::
    "transaction_validator \<Rightarrow> transaction \<Rightarrow> unit tx_result" where
  "check_transaction_script_public_keys tv tx =
     rfold (\<lambda>(i, out) _. fail_if (length (script (output_spk out)) > max_script_public_key_len tv)
              (TooBigScriptPublicKey i (max_script_public_key_len tv)))
       (enumerate 0 (outputs tx)) ()"

definition check_transaction_outputs_in_isolation ::
    "transaction_validator \<Rightarrow> transaction \<Rightarrow> unit tx_result" where
  "check_transaction_outputs_in_isolation tv tx =
     rbind (check_transaction_outputs_count tv tx) (\<lambda>_. check_transaction_script_public_keys tv tx)"

definition check_coinbase_in_isolation :: "transaction_validator \<Rightarrow> transaction \<Rightarrow> unit tx_result" where
  "check_coinbase_in_isolation tv tx =
     (if \<not> is_coinbase tx then Ok ()
      else
        rbind (fail_if (inputs tx \<noteq> []) (CoinbaseHasInputs (length (inputs tx)))) (\<lambda>_.
        rbind (fail_if (mass tx > 0) CoinbaseNonZeroMassCommitment) (\<lambda>_.
        rbind (add_w (ucast (ghostdag_k tv)) 2) (\<lambda>outputs_limit.
        rbind (fail_if (of_nat (length (outputs tx)) > outputs_limit)
                 (CoinbaseTooManyOutputs (length (outputs tx)) outputs_limit)) (\<lambda>_.
        rfold (\<lambda>(i, out) _.
            fail_if (length (script (output_spk out)) > unat (coinbase_payload_script_public_key_max_len tv))
              (CoinbaseScriptPublicKeyTooLong i))
          (enumerate 0 (outputs tx)) ())))))"

definition check_duplicate_transaction_inputs :: "transaction \<Rightarrow> unit tx_result" where
  "check_duplicate_transaction_inputs tx =
     rbind (rfold (\<lambda>input existing.
              if previous_outpoint input \<in> set existing then Err TxDuplicateInputs
              else Ok (previous_outpoint input # existing)) (inputs tx) []) (\<lambda>_. Ok ())"

definition check_gas :: "transaction \<Rightarrow> unit tx_result" where
  "check_gas tx = fail_if (gas tx > 0) TxHasGas"

definition check_transaction_version :: "transaction \<Rightarrow> unit tx_result" where
  "check_transaction_version tx = fail_if (version tx \<noteq> TX_VERSION) (UnknownTxVersion (version tx))"

definition check_transaction_output_value_ranges :: "transaction \<Rightarrow> unit tx_result" where
  "check_transaction_output_value_ranges tx =
     rbind (rfold (\<lambda>(i, out) total.
              rbind (fail_if (output_value out = 0) (TxOutZero i)) (\<lambda>_.
              rbind (fail_if (output_value out > MAX_SOMPI) (TxOutTooHigh i)) (\<lambda>_.
              rbind (ok_or (checked_add total (output_value out)) OutputsValueOverflow) (\<lambda>new_total.
              rbind (fail_if (new_total > MAX_SOMPI) TotalTxOutTooHigh) (\<lambda>_.
              Ok new_total)))))
            (enumerate 0 (outputs tx)) 0) (\<lambda>_. Ok ())"

definition check_transaction_subnetwork :: "transaction \<Rightarrow> unit tx_result" where
  "check_transaction_subnetwork tx =
     (if is_coinbase tx \<or> is_native (subnetwork_id tx) then Ok ()
      else Err (SubnetworksDisabled (subnetwork_id tx)))"

definition validate_tx_in_isolation :: "transaction_validator \<Rightarrow> transaction \<Rightarrow> unit tx_result" where
  "validate_tx_in_isolation tv tx =
     rbind (check_transaction_inputs_in_isolation tv tx) (\<lambda>_.
     rbind (check_transaction_outputs_in_isolation tv tx) (\<lambda>_.
     rbind (check_coinbase_in_isolation tv tx) (\<lambda>_.
     rbind (check_transaction_output_value_ranges tx) (\<lambda>_.
     rbind (check_duplicate_transaction_inputs tx) (\<lambda>_.
     rbind (check_gas tx) (\<lambda>_.
     rbind (check_transaction_subnetwork tx) (\<lambda>_.
     check_transaction_version tx)))))))"

section \<open>Validation against a header\<close>

datatype lock_time_type = LockFinalized | LockDaaScore | LockTime

datatype lock_time_arg = ArgFinalized | ArgDaaScore u64 | ArgMedianTime u64

definition get_lock_time_type :: "transaction \<Rightarrow> lock_time_type" where
  "get_lock_time_type tx =
     (if lock_time tx = 0 then LockFinalized
      else if lock_time tx < LOCK_TIME_THRESHOLD then LockDaaScore
      else LockTime)"

definition check_tx_is_finalized :: "transaction \<Rightarrow> lock_time_arg \<Rightarrow> unit tx_result" where
  "check_tx_is_finalized tx arg =
     (let check = (\<lambda>block_time_or_daa_score.
        if lock_time tx < block_time_or_daa_score then Ok ()
        else rfold (\<lambda>(i, input) _. fail_if (sequence_no input \<noteq> - 1) (NotFinalized i))
               (enumerate 0 (inputs tx)) ())
      in case arg of
           ArgFinalized \<Rightarrow> Ok ()
         | ArgDaaScore ctx_daa_score \<Rightarrow> check ctx_daa_score
         | ArgMedianTime ctx_block_time \<Rightarrow> check ctx_block_time)"

definition validate_tx_in_header_context :: "transaction \<Rightarrow> lock_time_arg \<Rightarrow> unit tx_result" where
  "validate_tx_in_header_context tx arg = check_tx_is_finalized tx arg"

definition validate_tx_in_header_context_with_args ::
    "transaction \<Rightarrow> u64 \<Rightarrow> u64 \<Rightarrow> unit tx_result" where
  "validate_tx_in_header_context_with_args tx ctx_daa_score ctx_block_time =
     validate_tx_in_header_context tx
       (case get_lock_time_type tx of
          LockFinalized \<Rightarrow> ArgFinalized
        | LockDaaScore \<Rightarrow> ArgDaaScore ctx_daa_score
        | LockTime \<Rightarrow> ArgMedianTime ctx_block_time)"


section \<open>Validation against the spent entries\<close>

datatype tx_validation_flags = Full | SkipScriptChecks | SkipMassCheck

definition CHECK_SCRIPTS_PARALLELISM_THRESHOLD :: nat where
  "CHECK_SCRIPTS_PARALLELISM_THRESHOLD = 1"

definition check_feerate_threshold ::
    "(u64 \<Rightarrow> u64 \<Rightarrow> 'f \<Rightarrow> bool) \<Rightarrow> u64 \<Rightarrow> (u64 \<times> 'f) option \<Rightarrow> unit tx_result" where
  "check_feerate_threshold feerate_le fee mass_and_feerate_threshold =
     (case mass_and_feerate_threshold of
        None \<Rightarrow> Ok ()
      | Some (contextual_mass, feerate_threshold) \<Rightarrow>
          rbind (assert_that (contextual_mass > 0)) (\<lambda>_.
          fail_if (feerate_le fee contextual_mass feerate_threshold) FeerateTooLow))"

definition check_transaction_coinbase_maturity ::
    "transaction_validator \<Rightarrow> populated_tx \<Rightarrow> u64 \<Rightarrow> unit tx_result" where
  "check_transaction_coinbase_maturity tv tx pov_daa_score =
     rbind (populated_inputs tx) (\<lambda>pis.
     rfold (\<lambda>(i, input, entry) _.
         if entry_is_coinbase entry
         then rbind (add_w (block_daa_score entry) (coinbase_maturity tv)) (\<lambda>s.
                fail_if (s > pov_daa_score)
                  (ImmatureCoinbaseSpend i (previous_outpoint input) (block_daa_score entry) pov_daa_score
                     (coinbase_maturity tv)))
         else Ok ())
       (enumerate 0 pis) ())"

definition check_transaction_input_amounts :: "populated_tx \<Rightarrow> u64 tx_result" where
  "check_transaction_input_amounts tx =
     rbind (populated_inputs tx) (\<lambda>pis.
     rfold (\<lambda>(_, entry) total.
         rbind (ok_or (checked_add total (amount entry)) InputAmountOverflow) (\<lambda>new_total.
         rbind (fail_if (new_total > MAX_SOMPI) InputAmountTooHigh) (\<lambda>_.
         Ok new_total))) pis 0)"

definition check_transaction_output_values :: "populated_tx \<Rightarrow> u64 \<Rightarrow> u64 tx_result" where
  "check_transaction_output_values tx total_in =
     rbind (sum_w (map output_value (outputs (ptx tx)))) (\<lambda>total_out.
     rbind (fail_if (total_in < total_out) (SpendTooHigh total_out total_in)) (\<lambda>_.
     Ok total_out))"

definition check_mass_commitment :: "transaction_validator \<Rightarrow> populated_tx \<Rightarrow> unit tx_result" where
  "check_mass_commitment tv tx =
     rbind (calc_contextual_masses (tv_mass_calculator tv) tx) (\<lambda>r.
     rbind (ok_or r MassIncomputable) (\<lambda>m.
     fail_if (mass (ptx tx) \<noteq> storage_mass m) (WrongMass (storage_mass m) (mass (ptx tx)))))"

definition check_sequence_lock :: "populated_tx \<Rightarrow> u64 \<Rightarrow> unit tx_result" where
  "check_sequence_lock tx pov_daa_score =
     rbind (populated_inputs tx) (\<lambda>pis.
     rfold (\<lambda>(input, entry) _.
         if and (sequence_no input) SEQUENCE_LOCK_TIME_DISABLED \<noteq> SEQUENCE_LOCK_TIME_DISABLED
         then
           (let relative_lock = sint (and (sequence_no input) SEQUENCE_LOCK_TIME_MASK) in
            rbind (expect (i64_checked (sint (block_daa_score entry) + relative_lock))) (\<lambda>s.
            rbind (expect (i64_checked (s - 1))) (\<lambda>lock_daa_score.
            fail_if (lock_daa_score \<ge> sint pov_daa_score) SequenceLockConditionsAreNotMet)))
         else Ok ()) pis ())"

definition map_script_err :: "script_error \<Rightarrow> transaction_input \<Rightarrow> tx_rule_error" where
  "map_script_err script_err input =
     (if signature_script input = [] then SignatureEmpty script_err else SignatureInvalid script_err)"

text \<open>One step of both loops: an engine run whose reused hashes and cache the next run continues.\<close>

definition check_script ::
    "crypto \<Rightarrow> populated_tx \<Rightarrow> nat \<Rightarrow> transaction_input \<Rightarrow> utxo_entry \<Rightarrow>
     sighash_reused_values \<times> sig_cache \<Rightarrow> (sighash_reused_values \<times> sig_cache) tx_result" where
  "check_script cr tx i input entry = (\<lambda>(rv, cache).
     rbind (map_err (\<lambda>err. map_script_err err input)
              (rbind (from_transaction_input tx input i entry rv cache) (execute cr))) (\<lambda>vm.
     Ok (reused_values vm, sig_cache_of vm)))"

definition check_scripts_sequential :: "crypto \<Rightarrow> sig_cache \<Rightarrow> populated_tx \<Rightarrow> sig_cache tx_result" where
  "check_scripts_sequential cr cache tx =
     rbind (populated_inputs tx) (\<lambda>pis.
     rbind (rfold (\<lambda>(i, input, entry). check_script cr tx i input entry) (enumerate 0 pis)
              (new_reused_values, cache)) (\<lambda>(_, cache'). Ok cache'))"

text \<open>
  The parallel loop runs the same step for every index, in the order the thread pool happens to
  take them: \<open>sched\<close>. It stops at the first failure it meets.
\<close>

definition check_scripts_par_iter ::
    "crypto \<Rightarrow> nat list \<Rightarrow> sig_cache \<Rightarrow> populated_tx \<Rightarrow> sig_cache tx_result" where
  "check_scripts_par_iter cr sched cache tx =
     rbind (rfold (\<lambda>idx st. rbind (populated_input tx idx) (\<lambda>(input, utxo_e).
              check_script cr tx idx input utxo_e st)) sched (new_reused_values, cache))
       (\<lambda>(_, cache'). Ok cache')"

definition check_scripts ::
    "crypto \<Rightarrow> nat list \<Rightarrow> sig_cache \<Rightarrow> populated_tx \<Rightarrow> sig_cache tx_result" where
  "check_scripts cr sched cache tx =
     (if length (inputs (ptx tx)) > CHECK_SCRIPTS_PARALLELISM_THRESHOLD
      then check_scripts_par_iter cr sched cache tx
      else check_scripts_sequential cr cache tx)"

definition validate_populated_transaction_and_get_fee ::
    "crypto \<Rightarrow> (u64 \<Rightarrow> u64 \<Rightarrow> 'f \<Rightarrow> bool) \<Rightarrow> nat list \<Rightarrow> transaction_validator \<Rightarrow> populated_tx \<Rightarrow> u64 \<Rightarrow>
     tx_validation_flags \<Rightarrow> (u64 \<times> 'f) option \<Rightarrow> (u64 \<times> transaction_validator) tx_result" where
  "validate_populated_transaction_and_get_fee cr feerate_le sched tv tx pov_daa_score flags threshold =
     rbind (check_transaction_coinbase_maturity tv tx pov_daa_score) (\<lambda>_.
     rbind (check_transaction_input_amounts tx) (\<lambda>total_in.
     rbind (check_transaction_output_values tx total_in) (\<lambda>total_out.
     rbind (sub_w total_in total_out) (\<lambda>fee.
     rbind (if flags \<noteq> SkipMassCheck then check_mass_commitment tv tx else Ok ()) (\<lambda>_.
     rbind (check_sequence_lock tx pov_daa_score) (\<lambda>_.
     rbind (check_feerate_threshold feerate_le fee threshold) (\<lambda>_.
     rbind (case flags of
              SkipScriptChecks \<Rightarrow> Ok (tv_sig_cache tv)
            | _ \<Rightarrow> check_scripts cr sched (tv_sig_cache tv) tx) (\<lambda>cache.
     Ok (fee, tv\<lparr>tv_sig_cache := cache\<rparr>)))))))))"


section \<open>Loops of checks\<close>

lemma rfold_unit_Ok: "rfold g xs u = Ok v \<longleftrightarrow> (\<forall>x\<in>set xs. g x () = Ok ())"
  by (induction xs) (auto simp: outcome_simps)

lemma rfold_never_panics:
  assumes "\<And>x s. x \<in> set xs \<Longrightarrow> f x s \<noteq> Panic"
  shows "rfold f xs s \<noteq> Panic"
  using assms by (induction xs arbitrary: s) (auto simp: rbind_Panic_iff)

lemma rfold_panicD: "rfold f xs s = Panic \<Longrightarrow> \<exists>x\<in>set xs. \<exists>t. f x t = Panic"
  using rfold_never_panics [of xs f s] by blast

lemma ball_enumerate: "(\<forall>p\<in>set (enumerate n xs). P (snd p)) \<longleftrightarrow> (\<forall>x\<in>set xs. P x)"
proof -
  have "snd ` set (enumerate n xs) = set xs" by (metis map_snd_enumerate set_map)
  then show ?thesis by (metis (no_types, lifting) image_iff)
qed

lemma fail_if_each:
  "rfold (\<lambda>(i, x) _. fail_if (P x) (e i)) (enumerate 0 xs) u = Ok v \<longleftrightarrow> (\<forall>x\<in>set xs. \<not> P x)"
  "rfold (\<lambda>(i, x) _. fail_if (P x) (e i)) (enumerate 0 xs) u \<noteq> Panic"
proof -
  have "(\<forall>p\<in>set (enumerate 0 xs). (\<lambda>(i, x) _. fail_if (P x) (e i)) p () = Ok ()) \<longleftrightarrow>
      (\<forall>p\<in>set (enumerate 0 xs). \<not> P (snd p))"
    by (auto simp: fail_if_iff split: prod.splits)
  then show "rfold (\<lambda>(i, x) _. fail_if (P x) (e i)) (enumerate 0 xs) u = Ok v \<longleftrightarrow> (\<forall>x\<in>set xs. \<not> P x)"
    by (simp only: rfold_unit_Ok ball_enumerate [of 0 xs "\<lambda>x. \<not> P x"])
  show "rfold (\<lambda>(i, x) _. fail_if (P x) (e i)) (enumerate 0 xs) u \<noteq> Panic"
    by (rule rfold_never_panics) (auto simp: fail_if_iff split: prod.splits)
qed

lemma populated_inputs_zip:
  "length (entries p) = length (inputs (ptx p)) \<Longrightarrow> populated_inputs p = Ok (zip (inputs (ptx p)) (entries p))"
  by (rule populated_inputs_eq)

section \<open>What isolation accepts\<close>

definition total_out :: "transaction \<Rightarrow> nat" where
  "total_out tx = sum_list (map (\<lambda>out. unat (output_value out)) (outputs tx))"

definition isolation_rules :: "transaction_validator \<Rightarrow> transaction \<Rightarrow> bool" where
  "isolation_rules tv tx =
     ((if is_coinbase tx
       then inputs tx = [] \<and> mass tx = 0 \<and> length (outputs tx) \<le> unat (ghostdag_k tv) + 2 \<and>
         (\<forall>out\<in>set (outputs tx). length (script (output_spk out)) \<le> unat (coinbase_payload_script_public_key_max_len tv))
       else inputs tx \<noteq> [] \<and> length (outputs tx) \<le> max_tx_outputs tv \<and> is_native (subnetwork_id tx)) \<and>
      length (inputs tx) \<le> max_tx_inputs tv \<and>
      (\<forall>i\<in>set (inputs tx). length (signature_script i) \<le> max_signature_script_len tv) \<and>
      (\<forall>out\<in>set (outputs tx). length (script (output_spk out)) \<le> max_script_public_key_len tv) \<and>
      (\<forall>out\<in>set (outputs tx). output_value out \<noteq> 0) \<and> total_out tx \<le> unat MAX_SOMPI \<and>
      distinct (map previous_outpoint (inputs tx)) \<and> gas tx = 0 \<and> version tx = TX_VERSION)"

lemma output_value_loop:
  assumes "unat t \<le> unat MAX_SOMPI"
  shows "rfold (\<lambda>(i, out) total.
      rbind (fail_if (output_value out = 0) (TxOutZero i)) (\<lambda>_.
      rbind (fail_if (output_value out > MAX_SOMPI) (TxOutTooHigh i)) (\<lambda>_.
      rbind (ok_or (checked_add total (output_value out)) OutputsValueOverflow) (\<lambda>new_total.
      rbind (fail_if (new_total > MAX_SOMPI) TotalTxOutTooHigh) (\<lambda>_.
      Ok new_total))))) (enumerate n outs) t = Ok r \<longleftrightarrow>
    (\<forall>out\<in>set outs. output_value out \<noteq> 0) \<and>
    unat r = unat t + sum_list (map (\<lambda>out. unat (output_value out)) outs) \<and> unat r \<le> unat MAX_SOMPI"
  using assms
proof (induction outs arbitrary: n t)
  case Nil
  then show ?case by (auto simp: word_unat_eq_iff)
next
  case (Cons out outs)
  show ?case
  proof (cases "unat t + unat (output_value out) \<le> unat MAX_SOMPI")
    case True
    then have "unat t + unat (output_value out) < 2 ^ 64" by (simp add: MAX_SOMPI_def SOMPI_PER_KASPA_def)
    then have "checked_add t (output_value out) = Some (t + output_value out)"
      and u: "unat (t + output_value out) = unat t + unat (output_value out)"
      by (simp_all add: checked_add_def unat_word_ariths)
    then show ?thesis
      using Cons.IH [of "t + output_value out" "Suc n"] True
      by (auto simp: outcome_simps word_less_nat_alt not_less)
  next
    case False
    have "\<not> (\<exists>c. checked_add t (output_value out) = Some c \<and> \<not> MAX_SOMPI < c)"
      using False by (auto simp: checked_add_Some_iff word_less_nat_alt)
    with False show ?thesis by (auto simp: outcome_simps)
  qed
qed

lemma output_ranges:
  "check_transaction_output_value_ranges tx = Ok u \<longleftrightarrow>
     (\<forall>out\<in>set (outputs tx). output_value out \<noteq> 0) \<and> total_out tx \<le> unat MAX_SOMPI"
  "check_transaction_output_value_ranges tx \<noteq> Panic"
proof -
  have lt: "total_out tx < 2 ^ 64" if "total_out tx \<le> unat MAX_SOMPI"
    using that by (simp add: MAX_SOMPI_def SOMPI_PER_KASPA_def)
  show "check_transaction_output_value_ranges tx = Ok u \<longleftrightarrow>
     (\<forall>out\<in>set (outputs tx). output_value out \<noteq> 0) \<and> total_out tx \<le> unat MAX_SOMPI"
    unfolding check_transaction_output_value_ranges_def rbind_Ok_iff total_out_def [symmetric]
    using output_value_loop [of 0 0 "outputs tx"] lt
    by (auto simp: total_out_def [symmetric] intro!: exI [of _ "of_nat (total_out tx)"] simp: unat_of_nat_small)
  show "check_transaction_output_value_ranges tx \<noteq> Panic"
    unfolding check_transaction_output_value_ranges_def rbind_Panic_iff
    by (auto simp: outcome_simps dest!: rfold_panicD)
qed

lemma duplicate_loop:
  "rfold (\<lambda>input existing. if previous_outpoint input \<in> set existing then Err TxDuplicateInputs
       else Ok (previous_outpoint input # existing)) ins seen =
     (if distinct (map previous_outpoint ins) \<and> set (map previous_outpoint ins) \<inter> set seen = {}
      then Ok (rev (map previous_outpoint ins) @ seen) else Err TxDuplicateInputs)"
  by (induction ins arbitrary: seen) auto

lemma duplicate_inputs:
  "check_duplicate_transaction_inputs tx =
     (if distinct (map previous_outpoint (inputs tx)) then Ok () else Err TxDuplicateInputs)"
  by (simp add: check_duplicate_transaction_inputs_def duplicate_loop)

lemma coinbase_limit: "add_w (ucast (k :: u16)) 2 = Ok (ucast k + 2 :: u64)" "unat (ucast (k :: u16) + 2 :: u64) = unat k + 2"
proof -
  have u: "unat (ucast k :: u64) = unat k" "unat k < 2 ^ 16"
    using unat_bound [of k] by (simp_all add: unsigned_ucast_eq take_bit_nat_eq_self)
  then show "add_w (ucast k) 2 = Ok (ucast k + 2 :: u64)" "unat (ucast k + 2 :: u64) = unat k + 2"
    by (simp_all add: checked_add_def unat_word_ariths)
qed

lemma isolation_no_panic: "validate_tx_in_isolation tv tx \<noteq> Panic"
  unfolding validate_tx_in_isolation_def check_transaction_inputs_in_isolation_def
    check_transaction_outputs_in_isolation_def check_transaction_inputs_count_def
    check_transaction_outputs_count_def check_transaction_signature_scripts_def
    check_transaction_script_public_keys_def check_coinbase_in_isolation_def coinbase_limit
    check_gas_def check_transaction_version_def check_transaction_subnetwork_def
  by (simp add: rbind_Panic_iff fail_if_iff fail_if_each(2) output_ranges(2) duplicate_inputs)

lemma isolation_iff:
  assumes "length (outputs tx) < 2 ^ 64"
  shows "validate_tx_in_isolation tv tx = Ok () \<longleftrightarrow> isolation_rules tv tx"
proof -
  have "unat (of_nat (length (outputs tx)) :: u64) = length (outputs tx)"
    by (rule unat_of_nat_small) (use assms in simp)
  then have "(ucast (ghostdag_k tv) + 2 :: u64) < of_nat (length (outputs tx)) \<longleftrightarrow> unat (ghostdag_k tv) + 2 < length (outputs tx)"
    by (simp add: word_less_nat_alt coinbase_limit)
  then show ?thesis
    unfolding validate_tx_in_isolation_def check_transaction_inputs_in_isolation_def
      check_transaction_outputs_in_isolation_def check_transaction_inputs_count_def
      check_transaction_outputs_count_def check_transaction_signature_scripts_def
      check_transaction_script_public_keys_def check_coinbase_in_isolation_def coinbase_limit
      check_gas_def check_transaction_version_def check_transaction_subnetwork_def isolation_rules_def
    by (auto simp: rbind_Ok_iff fail_if_iff fail_if_each(1) output_ranges(1) duplicate_inputs not_less
        word_gt_0 coinbase_limit)
qed

text \<open>
  C32. Isolation accepts exactly the transactions that satisfy the written rules: counts and sizes
  within the limits, outputs that are positive and sum to at most the money supply, inputs that are
  distinct, and the special shape of a coinbase. It never panics.
\<close>

theorem isolation_exact:
  assumes "length (outputs tx) < 2 ^ 64"
  shows "(validate_tx_in_isolation tv tx = Ok () \<longleftrightarrow> isolation_rules tv tx) \<and>
    validate_tx_in_isolation tv tx \<noteq> Panic"
  using isolation_iff [OF assms] isolation_no_panic by blast

definition ex_validator :: transaction_validator where
  "ex_validator = new_validator 1000 1000 10000 10000 150 1000 18 (new_mass_calculator 1 10 1000 STORAGE_MASS_PARAMETER)"

theorem isolation_exact_witness:
  "validate_tx_in_isolation ex_validator ex_mass_tx = Ok ()"
proof -
  have "isolation_rules ex_validator ex_mass_tx"
    by (simp add: isolation_rules_def ex_validator_def new_validator_def ex_mass_tx_def is_coinbase_def is_native_def
        total_out_def MAX_SOMPI_def SOMPI_PER_KASPA_def TX_VERSION_def)
  then show ?thesis using isolation_exact [of ex_mass_tx ex_validator] by (simp add: ex_mass_tx_def)
qed


section \<open>What the spent entries decide\<close>

definition total_in :: "populated_tx \<Rightarrow> nat" where
  "total_in p = sum_list (map (\<lambda>e. unat (amount e)) (entries p))"

definition mature :: "transaction_validator \<Rightarrow> u64 \<Rightarrow> utxo_entry \<Rightarrow> bool" where
  "mature tv pov e = (entry_is_coinbase e \<longrightarrow> unat (block_daa_score e) + unat (coinbase_maturity tv) \<le> unat pov)"

text \<open>A relative lock counts from the score of the entry; the top bit of the sequence switches it off.\<close>

definition unlocked :: "u64 \<Rightarrow> transaction_input \<Rightarrow> utxo_entry \<Rightarrow> bool" where
  "unlocked pov i e = (\<not> bit (sequence_no i) 63 \<longrightarrow>
     unat (block_daa_score e) + unat (sequence_no i) mod 2 ^ 32 \<le> unat pov)"

text \<open>The verdict of the engine on one input, from empty caches.\<close>

definition input_verified :: "crypto \<Rightarrow> populated_tx \<Rightarrow> nat \<Rightarrow> bool" where
  "input_verified cr p i = is_ok (run_input cr p i new_reused_values (new_cache 0))"

lemma input_amount_loop:
  assumes "unat t \<le> unat MAX_SOMPI" and "length ins = length es"
  shows "rfold (\<lambda>(_, entry) total.
      rbind (ok_or (checked_add total (amount entry)) InputAmountOverflow) (\<lambda>new_total.
      rbind (fail_if (new_total > MAX_SOMPI) InputAmountTooHigh) (\<lambda>_.
      Ok new_total))) (zip ins es) t = Ok r \<longleftrightarrow>
    unat r = unat t + sum_list (map (\<lambda>e. unat (amount e)) es) \<and> unat r \<le> unat MAX_SOMPI"
  using assms(2,1)
proof (induction ins es arbitrary: t rule: list_induct2)
  case Nil
  then show ?case by (auto simp: word_unat_eq_iff)
next
  case (Cons i ins e es)
  show ?case
  proof (cases "unat t + unat (amount e) \<le> unat MAX_SOMPI")
    case True
    then have "unat t + unat (amount e) < 2 ^ 64" by (simp add: MAX_SOMPI_def SOMPI_PER_KASPA_def)
    then have "checked_add t (amount e) = Some (t + amount e)" "unat (t + amount e) = unat t + unat (amount e)"
      by (simp_all add: checked_add_def unat_word_ariths)
    then show ?thesis
      using Cons.IH [of "t + amount e"] True by (auto simp: outcome_simps word_less_nat_alt not_less)
  next
    case False
    have "\<not> (\<exists>c. checked_add t (amount e) = Some c \<and> \<not> MAX_SOMPI < c)"
      using False by (auto simp: checked_add_Some_iff word_less_nat_alt)
    with False show ?thesis by (auto simp: outcome_simps)
  qed
qed

lemma input_amounts_no_panic:
  "rfold (\<lambda>(_, entry) total.
      rbind (ok_or (checked_add total (amount entry)) InputAmountOverflow) (\<lambda>new_total.
      rbind (fail_if (new_total > MAX_SOMPI) InputAmountTooHigh) (\<lambda>_.
      Ok new_total))) pis t \<noteq> Panic"
  by (rule rfold_never_panics) (simp add: rbind_Panic_iff ok_or_iff fail_if_iff split: prod.splits)

lemma input_amounts:
  assumes "length (entries p) = length (inputs (ptx p))"
  shows "check_transaction_input_amounts p = Ok r \<longleftrightarrow> unat r = total_in p \<and> total_in p \<le> unat MAX_SOMPI"
    and "check_transaction_input_amounts p \<noteq> Panic"
  unfolding check_transaction_input_amounts_def populated_inputs_zip [OF assms] rbind.simps
   apply (simp only: input_amount_loop [of 0, OF _ assms [symmetric], simplified] total_in_def)
   apply (simp only: unsigned_0 add_0 cong: conj_cong)
  by (rule input_amounts_no_panic)

lemma output_values:
  "check_transaction_output_values p t = Ok r \<longleftrightarrow> unat r = total_out (ptx p) \<and> r \<le> t"
  "total_out (ptx p) < 2 ^ 64 \<Longrightarrow> check_transaction_output_values p t \<noteq> Panic"
  by (auto simp: check_transaction_output_values_def outcome_simps sum_w_Ok_iff total_out_def comp_def not_less)
    (simp add: sum_w_eq comp_def split: if_splits)

lemma rfold_verdicts:
  assumes "\<And>x. x \<in> set xs \<Longrightarrow> f x () = (if P x then Ok () else Err (g x))"
  shows "rfold f xs u = Ok v \<longleftrightarrow> (\<forall>x\<in>set xs. P x)" "rfold f xs u \<noteq> Panic"
  using assms by (induction xs) auto

lemma zip_entries:
  assumes "length es = length ins"
  shows "(\<forall>x\<in>set (zip ins es). P (snd x)) \<longleftrightarrow> (\<forall>e\<in>set es. P e)"
proof -
  have "snd ` set (zip ins es) = set es" using assms by (metis map_snd_zip set_map)
  then show ?thesis by (metis (no_types, lifting) image_iff)
qed

lemma each_populated:
  assumes "length es = length ins"
    and "\<And>i inp e. (inp, e) \<in> set (zip ins es) \<Longrightarrow> f (i, inp, e) () = (if P inp e then Ok () else Err (g i inp e))"
  shows "rfold f (enumerate n (zip ins es)) u = Ok v \<longleftrightarrow> (\<forall>(inp, e)\<in>set (zip ins es). P inp e)"
    and "rfold f (enumerate n (zip ins es)) u \<noteq> Panic"
proof -
  have step: "f x () = (if P (fst (snd x)) (snd (snd x)) then Ok () else Err (g (fst x) (fst (snd x)) (snd (snd x))))"
    if "x \<in> set (enumerate n (zip ins es))" for x
  proof -
    have "snd x \<in> set (zip ins es)" using that by (metis map_snd_enumerate image_eqI set_map)
    then show ?thesis using assms(2) [of "fst (snd x)" "snd (snd x)" "fst x"] by simp
  qed
  have "rfold f (enumerate n (zip ins es)) u = Ok v \<longleftrightarrow>
      (\<forall>x\<in>set (enumerate n (zip ins es)). P (fst (snd x)) (snd (snd x)))"
    by (rule rfold_verdicts(1)) (rule step)
  then show "rfold f (enumerate n (zip ins es)) u = Ok v \<longleftrightarrow> (\<forall>(inp, e)\<in>set (zip ins es). P inp e)"
    using ball_enumerate [of n "zip ins es" "\<lambda>x. P (fst x) (snd x)"] by (simp add: case_prod_beta)
  show "rfold f (enumerate n (zip ins es)) u \<noteq> Panic"
    by (rule rfold_verdicts(2)) (rule step)
qed

lemma maturity_step:
  assumes "unat (block_daa_score e) + unat (coinbase_maturity tv) < 2 ^ 64"
  shows "(if entry_is_coinbase e
     then rbind (add_w (block_daa_score e) (coinbase_maturity tv)) (\<lambda>s. fail_if (s > pov) err) else Ok ()) =
     (if mature tv pov e then Ok () else Err err)"
  using assms by (auto simp: mature_def add_w_eq word_less_nat_alt unat_of_nat_small fail_if_def simp del: of_nat_add)

lemma maturity_check:
  assumes "length (entries p) = length (inputs (ptx p))"
    and "\<forall>e\<in>set (entries p). unat (block_daa_score e) + unat (coinbase_maturity tv) < 2 ^ 64"
  shows "check_transaction_coinbase_maturity tv p pov = Ok u \<longleftrightarrow> (\<forall>e\<in>set (entries p). mature tv pov e)"
    and "check_transaction_coinbase_maturity tv p pov \<noteq> Panic"
proof -
  define g where "g i input entry = ImmatureCoinbaseSpend i (previous_outpoint input) (block_daa_score entry) pov
    (coinbase_maturity tv)" for i and input :: transaction_input and entry :: utxo_entry
  define f where "f = (\<lambda>(i, input :: transaction_input, entry :: utxo_entry) (_ :: unit). if entry_is_coinbase entry
         then rbind (add_w (block_daa_score entry) (coinbase_maturity tv)) (\<lambda>s. fail_if (s > pov) (g i input entry))
         else Ok ())"
  let ?zip = "zip (inputs (ptx p)) (entries p)"
  have step: "f (i, inp, e) () = (if mature tv pov e then Ok () else Err (g i inp e))" if "(inp, e) \<in> set ?zip" for i inp e
    unfolding f_def prod.case
    by (rule maturity_step) (use assms(2) set_zip_rightD [OF that] in blast)
  have eq: "check_transaction_coinbase_maturity tv p pov = rfold f (enumerate 0 ?zip) ()"
    unfolding check_transaction_coinbase_maturity_def populated_inputs_zip [OF assms(1)] f_def g_def rbind.simps ..
  have "(\<forall>(inp, e)\<in>set ?zip. mature tv pov e) \<longleftrightarrow> (\<forall>e\<in>set (entries p). mature tv pov e)"
    using zip_entries [OF assms(1), of "mature tv pov"] by (simp add: case_prod_beta)
  then show "check_transaction_coinbase_maturity tv p pov = Ok u \<longleftrightarrow> (\<forall>e\<in>set (entries p). mature tv pov e)"
    using each_populated(1) [OF assms(1), of f "\<lambda>_. mature tv pov" g 0] step eq by simp
  show "check_transaction_coinbase_maturity tv p pov \<noteq> Panic"
    using each_populated(2) [OF assms(1), of f "\<lambda>_. mature tv pov" g 0] step eq by simp
qed


lemma bit_disabled: "bit SEQUENCE_LOCK_TIME_DISABLED n \<longleftrightarrow> n = 63"
  unfolding SEQUENCE_LOCK_TIME_DISABLED_def by (simp only: bit_push_bit_iff bit_1_iff possible_bit_word) auto

lemma sequence_disabled: "and s SEQUENCE_LOCK_TIME_DISABLED = SEQUENCE_LOCK_TIME_DISABLED \<longleftrightarrow> bit s 63"
proof
  assume "and s SEQUENCE_LOCK_TIME_DISABLED = SEQUENCE_LOCK_TIME_DISABLED"
  then have "bit (and s SEQUENCE_LOCK_TIME_DISABLED) 63" by (simp add: bit_disabled)
  then show "bit s 63" by (simp add: bit_and_iff)
next
  assume "bit s 63"
  then show "and s SEQUENCE_LOCK_TIME_DISABLED = SEQUENCE_LOCK_TIME_DISABLED"
    by (intro bit_eqI) (auto simp: bit_and_iff bit_disabled)
qed

lemma sint_small:
  assumes "unat (x :: u64) < 2 ^ 63"
  shows "sint x = int (unat x)"
proof -
  have "uint x < 2 ^ 63" using assms unfolding uint_nat by (simp only: of_nat_less_numeral_power_cancel_iff)
  then have "signed_take_bit 63 (uint x) = uint x"
    by (intro signed_take_bit_int_eq_self order_trans [OF _ uint_ge_0]) simp_all
  then show ?thesis by (simp add: sint_uint)
qed

lemma sequence_mask: "unat (and s SEQUENCE_LOCK_TIME_MASK) = unat s mod 2 ^ 32"
proof -
  have "SEQUENCE_LOCK_TIME_MASK = mask 32" by (simp add: SEQUENCE_LOCK_TIME_MASK_def mask_eq_exp_minus_1)
  then have "and s SEQUENCE_LOCK_TIME_MASK = take_bit 32 s" by (simp add: take_bit_eq_mask)
  then show ?thesis by (simp add: unsigned_take_bit_eq take_bit_nat_def)
qed

lemma sequence_step:
  assumes "unat (block_daa_score e) + 2 ^ 32 < 2 ^ 63" "unat pov < 2 ^ 63"
  shows "(if and (sequence_no inp) SEQUENCE_LOCK_TIME_DISABLED \<noteq> SEQUENCE_LOCK_TIME_DISABLED
     then (let relative_lock = sint (and (sequence_no inp) SEQUENCE_LOCK_TIME_MASK) in
            rbind (expect (i64_checked (sint (block_daa_score e) + relative_lock))) (\<lambda>s.
            rbind (expect (i64_checked (s - 1))) (\<lambda>lock_daa_score.
            fail_if (lock_daa_score \<ge> sint pov) SequenceLockConditionsAreNotMet)))
     else Ok ()) = (if unlocked pov inp e then Ok () else Err SequenceLockConditionsAreNotMet)"
proof -
  define r d v where "r = unat (sequence_no inp) mod 2 ^ 32" and "d = unat (block_daa_score e)" and "v = unat pov"
  have r: "r < 2 ^ 32" "d + 2 ^ 32 < 2 ^ 63" "v < 2 ^ 63" using assms by (simp_all add: r_def d_def v_def)
  have "sint (and (sequence_no inp) SEQUENCE_LOCK_TIME_MASK) = int r"
    using sint_small [of "and (sequence_no inp) SEQUENCE_LOCK_TIME_MASK"] r(1)
    unfolding sequence_mask r_def [symmetric] by simp
  moreover have "sint (block_daa_score e) = int d" "sint pov = int v"
    using sint_small [of "block_daa_score e"] sint_small [of pov] r(2,3) unfolding d_def v_def by linarith+
  moreover have "unlocked pov inp e \<longleftrightarrow> (\<not> bit (sequence_no inp) 63 \<longrightarrow> d + r \<le> v)"
    unfolding unlocked_def r_def d_def v_def ..
  ultimately show ?thesis
    using r by (auto simp: sequence_disabled i64_checked_def in_i64_def Let_def fail_if_def)
qed

lemma sequence_check:
  assumes "length (entries p) = length (inputs (ptx p))" "unat pov < 2 ^ 63"
    and "\<forall>e\<in>set (entries p). unat (block_daa_score e) + 2 ^ 32 < 2 ^ 63"
  shows "check_sequence_lock p pov = Ok u \<longleftrightarrow>
      (\<forall>(inp, e)\<in>set (zip (inputs (ptx p)) (entries p)). unlocked pov inp e)"
    and "check_sequence_lock p pov \<noteq> Panic"
proof -
  let ?zip = "zip (inputs (ptx p)) (entries p)"
  define f where "f = (\<lambda>(inp :: transaction_input, e :: utxo_entry) (_ :: unit).
     if and (sequence_no inp) SEQUENCE_LOCK_TIME_DISABLED \<noteq> SEQUENCE_LOCK_TIME_DISABLED
     then (let relative_lock = sint (and (sequence_no inp) SEQUENCE_LOCK_TIME_MASK) in
            rbind (expect (i64_checked (sint (block_daa_score e) + relative_lock))) (\<lambda>s.
            rbind (expect (i64_checked (s - 1))) (\<lambda>lock_daa_score.
            fail_if (lock_daa_score \<ge> sint pov) SequenceLockConditionsAreNotMet)))
     else Ok ())"
  have step: "f x () = (if (case x of (inp, e) \<Rightarrow> unlocked pov inp e) then Ok () else Err SequenceLockConditionsAreNotMet)"
    if "x \<in> set ?zip" for x
  proof (cases x)
    case (Pair inp e)
    have "e \<in> set (entries p)" using that Pair by (simp add: set_zip_rightD)
    then show ?thesis
      using assms(3) unfolding Pair f_def prod.case by (intro sequence_step assms(2)) blast
  qed
  have eq: "check_sequence_lock p pov = rfold f ?zip ()"
    by (simp add: check_sequence_lock_def populated_inputs_zip [OF assms(1)] f_def)
  show "check_sequence_lock p pov = Ok u \<longleftrightarrow> (\<forall>(inp, e)\<in>set ?zip. unlocked pov inp e)"
    unfolding eq by (rule rfold_verdicts(1)) (rule step)
  show "check_sequence_lock p pov \<noteq> Panic"
    unfolding eq by (rule rfold_verdicts(2)) (rule step)
qed


section \<open>Scripts of all inputs\<close>

lemma run_input_fresh:
  assumes "i < length (inputs (ptx p))" "i < length (entries p)" "reused_sound cr (ptx p) rv" "cache_sound cr c"
  shows "if input_verified cr p i
    then \<exists>vm. run_input cr p i rv c = Ok vm \<and> reused_sound cr (ptx p) (reused_values vm) \<and> cache_sound cr (sig_cache_of vm)
    else \<exists>e. run_input cr p i rv c = Err e \<and> run_input cr p i new_reused_values (new_cache 0) = Err e"
  using run_input_agree [OF assms(1,2,3) empty_caches(1) assms(4) empty_caches(2) [of cr 0]]
    run_input_keeps [OF _ assms]
  by (cases "run_input cr p i rv c"; cases "run_input cr p i new_reused_values (new_cache 0)")
    (auto simp: input_verified_def)

text \<open>The error the loop reports for an input it rejects.\<close>

definition script_rejection :: "crypto \<Rightarrow> populated_tx \<Rightarrow> nat \<Rightarrow> tx_rule_error \<Rightarrow> bool" where
  "script_rejection cr p i err =
     (\<exists>e. run_input cr p i new_reused_values (new_cache 0) = Err e \<and> err = map_script_err e (inputs (ptx p) ! i))"

lemma check_script_cases:
  assumes "i < length (inputs (ptx p))" "i < length (entries p)" "reused_sound cr (ptx p) rv" "cache_sound cr c"
  shows "if input_verified cr p i
    then \<exists>rv' c'. check_script cr p i (inputs (ptx p) ! i) (entries p ! i) (rv, c) = Ok (rv', c') \<and>
      reused_sound cr (ptx p) rv' \<and> cache_sound cr c'
    else \<exists>err. check_script cr p i (inputs (ptx p) ! i) (entries p ! i) (rv, c) = Err err \<and> script_rejection cr p i err"
  using run_input_fresh [OF assms]
  by (auto simp: check_script_def run_input_def [symmetric] map_err_def script_rejection_def split: if_splits)

text \<open>The loop over any list of input indices.\<close>

lemma scripts_loop:
  assumes "length (entries p) = length (inputs (ptx p))" "\<forall>i\<in>set sched. i < length (inputs (ptx p))"
    and "reused_sound cr (ptx p) rv" "cache_sound cr c"
  shows "if \<forall>i\<in>set sched. input_verified cr p i
    then \<exists>rv' c'. rfold (\<lambda>idx st. rbind (populated_input p idx) (\<lambda>(input, utxo_e). check_script cr p idx input utxo_e st))
        sched (rv, c) = Ok (rv', c') \<and> cache_sound cr c'
    else \<exists>i\<in>set sched. \<exists>err. rfold (\<lambda>idx st. rbind (populated_input p idx) (\<lambda>(input, utxo_e). check_script cr p idx input utxo_e st))
        sched (rv, c) = Err err \<and> script_rejection cr p i err"
  using assms(2-)
proof (induction sched arbitrary: rv c)
  case (Cons i sched)
  then have i: "i < length (inputs (ptx p))" "i < length (entries p)" using assms(1) by simp_all
  then have pop: "populated_input p i = Ok (inputs (ptx p) ! i, entries p ! i)" by (simp add: populated_input_def)
  show ?case
  proof (cases "input_verified cr p i")
    case True
    then obtain rv' c' where "check_script cr p i (inputs (ptx p) ! i) (entries p ! i) (rv, c) = Ok (rv', c')"
      "reused_sound cr (ptx p) rv'" "cache_sound cr c'"
      using check_script_cases [OF i Cons.prems(2,3)] by auto
    then show ?thesis using Cons.IH [of rv' c'] Cons.prems True by (auto simp: pop)
  next
    case False
    then show ?thesis using check_script_cases [OF i Cons.prems(2,3)] by (auto simp: pop)
  qed
qed simp

lemma par_iter_cases:
  assumes "length (entries p) = length (inputs (ptx p))" "set sched = {0..<length (inputs (ptx p))}" "cache_sound cr c"
  shows "if \<forall>i<length (inputs (ptx p)). input_verified cr p i
    then \<exists>c'. check_scripts_par_iter cr sched c p = Ok c' \<and> cache_sound cr c'
    else \<exists>i<length (inputs (ptx p)). \<exists>err. check_scripts_par_iter cr sched c p = Err err \<and> script_rejection cr p i err"
  using scripts_loop [of p sched cr new_reused_values c] assms empty_caches(1)
  by (auto simp: check_scripts_par_iter_def split: if_splits)

lemma sequential_is_in_order:
  assumes "length (entries p) = length (inputs (ptx p))"
  shows "check_scripts_sequential cr c p = check_scripts_par_iter cr [0..<length (inputs (ptx p))] c p"
proof -
  let ?n = "length (inputs (ptx p))"
  have enum: "enumerate 0 (zip (inputs (ptx p)) (entries p)) = map (\<lambda>i. (i, inputs (ptx p) ! i, entries p ! i)) [0..<?n]"
    by (rule nth_equalityI) (simp_all add: assms nth_enumerate_eq)
  have "rfold (\<lambda>(i, input, entry). check_script cr p i input entry)
      (map (\<lambda>i. (i, inputs (ptx p) ! i, entries p ! i)) xs) st =
    rfold (\<lambda>idx st. rbind (populated_input p idx) (\<lambda>(input, utxo_e). check_script cr p idx input utxo_e st)) xs st"
    if "\<forall>i\<in>set xs. i < ?n" for xs st
    using that
  proof (induction xs arbitrary: st)
    case (Cons x xs)
    then show ?case using assms by (simp add: populated_input_def cong: rbind_cong)
  qed simp
  from this [of "[0..<?n]"] show ?thesis
    by (simp add: check_scripts_sequential_def check_scripts_par_iter_def populated_inputs_zip [OF assms] enum)
qed

lemma check_scripts_cases:
  assumes "length (entries p) = length (inputs (ptx p))" "set sched = {0..<length (inputs (ptx p))}" "cache_sound cr c"
  shows "if \<forall>i<length (inputs (ptx p)). input_verified cr p i
    then \<exists>c'. check_scripts cr sched c p = Ok c' \<and> cache_sound cr c'
    else \<exists>i<length (inputs (ptx p)). \<exists>err. check_scripts cr sched c p = Err err \<and> script_rejection cr p i err"
  using par_iter_cases [OF assms] par_iter_cases [OF assms(1) _ assms(3), of "[0..<length (inputs (ptx p))]"]
  by (simp add: check_scripts_def sequential_is_in_order [OF assms(1)])

text \<open>
  C31. The order in which the thread pool takes the inputs does not matter, nor do the values the
  runs share through the signature cache and the reused hashes: for every schedule that covers the
  inputs the parallel check accepts exactly when the sequential check accepts, which is when the
  engine accepts every input by itself from empty caches. Otherwise both report the error of an
  input that the engine rejects.
\<close>

theorem script_order_irrelevant:
  assumes "length (entries p) = length (inputs (ptx p))" "set sched = {0..<length (inputs (ptx p))}" "cache_sound cr c"
  shows "(is_ok (check_scripts_par_iter cr sched c p) \<longleftrightarrow> is_ok (check_scripts_sequential cr c p)) \<and>
    (is_ok (check_scripts_sequential cr c p) \<longleftrightarrow>
       (\<forall>i<length (inputs (ptx p)). is_ok (run_input cr p i new_reused_values (new_cache 0)))) \<and>
    (\<forall>err. check_scripts_par_iter cr sched c p = Err err \<longrightarrow>
       (\<exists>i<length (inputs (ptx p)). \<exists>e. run_input cr p i new_reused_values (new_cache 0) = Err e \<and>
          err = map_script_err e (inputs (ptx p) ! i))) \<and>
    check_scripts_par_iter cr sched c p \<noteq> Panic"
proof -
  have fold: "is_ok (run_input cr p i new_reused_values (new_cache 0)) = input_verified cr p i" for i
    by (simp add: input_verified_def)
  show ?thesis
    using par_iter_cases [OF assms] par_iter_cases [OF assms(1) _ assms(3), of "[0..<length (inputs (ptx p))]"]
    unfolding sequential_is_in_order [OF assms(1)] fold
    by (auto simp: script_rejection_def split: if_splits)
qed


definition ex_two_inputs :: populated_tx where
  "ex_two_inputs = \<lparr>ptx = (ptx ex_p2pk_tx)\<lparr>inputs := [inputs (ptx ex_p2pk_tx) ! 0, inputs (ptx ex_p2pk_tx) ! 0]\<rparr>,
     entries = [entries ex_p2pk_tx ! 0, entries ex_p2pk_tx ! 0]\<rparr>"

theorem script_order_irrelevant_witness:
  "is_ok (check_scripts_par_iter ex_crypto [1, 0] (new_cache 10) ex_two_inputs) \<longleftrightarrow>
   is_ok (check_scripts_sequential ex_crypto (new_cache 10) ex_two_inputs)"
proof -
  have "length (entries ex_two_inputs) = length (inputs (ptx ex_two_inputs))"
    "set [1, 0 :: nat] = {0..<length (inputs (ptx ex_two_inputs))}"
    by (auto simp: ex_two_inputs_def)
  from script_order_irrelevant [OF this empty_caches(2)] show ?thesis by blast
qed

section \<open>The mass commitment\<close>

lemma unat_utxo_plurality:
  assumes "length (script spk) < 2 ^ 64"
  shows "unat (utxo_plurality spk) = div_ceil (63 + length (script spk)) 100"
    and "0 < unat (utxo_plurality spk)" and "unat (utxo_plurality spk) \<le> 1 + length (script spk)"
proof -
  have b: "0 < div_ceil (63 + length (script spk)) 100" "div_ceil (63 + length (script spk)) 100 \<le> 1 + length (script spk)"
    by (auto simp: div_ceil_def)
  have "unat (utxo_plurality spk) = div_ceil (63 + length (script spk)) 100"
    unfolding utxo_plurality_def UTXO_CONST_STORAGE_def UTXO_UNIT_SIZE_def
    by (simp, rule unat_of_nat_small) (use assms in \<open>auto simp: div_ceil_def\<close>)
  with b show "unat (utxo_plurality spk) = div_ceil (63 + length (script spk)) 100"
    "0 < unat (utxo_plurality spk)" "unat (utxo_plurality spk) \<le> 1 + length (script spk)" by simp_all
qed

text \<open>
  An entry whose amount reaches its plurality, and whose squared plurality times the parameter fits
  a machine word.
\<close>

definition entry_sane :: "u64 \<Rightarrow> utxo_entry \<Rightarrow> bool" where
  "entry_sane c e = (0 < unat (utxo_plurality (entry_spk e)) \<and>
     unat (utxo_plurality (entry_spk e)) \<le> unat (amount e) \<and>
     unat c * unat (utxo_plurality (entry_spk e)) * unat (utxo_plurality (entry_spk e)) < 2 ^ 64)"

lemma entry_cells:
  assumes "\<forall>e\<in>set es. entry_sane c e" "sum_list (map (\<lambda>e. unat (amount e)) es) < 2 ^ 64"
  shows "cells_ok (map cell_of_entry es)" "squares_fit c (map cell_of_entry es)"
    "total_amount (map cell_of_entry es) = sum_list (map (\<lambda>e. unat (amount e)) es)"
    "total_plurality (map cell_of_entry es) \<le> total_amount (map cell_of_entry es)"
proof -
  show amt: "total_amount (map cell_of_entry es) = sum_list (map (\<lambda>e. unat (amount e)) es)"
    by (simp add: total_amount_def cell_of_entry_def new_cell_def comp_def)
  show le: "total_plurality (map cell_of_entry es) \<le> total_amount (map cell_of_entry es)"
    using assms(1) by (auto simp: total_plurality_def total_amount_def cell_of_entry_def new_cell_def comp_def entry_sane_def
        intro!: sum_list_mono)
  show "cells_ok (map cell_of_entry es)"
    using assms le amt by (auto simp: cells_ok_def list_all_iff cell_of_entry_def new_cell_def entry_sane_def)
  show "squares_fit c (map cell_of_entry es)"
    using assms(1) by (auto simp: squares_fit_def list_all_iff cell_of_entry_def new_cell_def entry_sane_def)
qed

lemma output_cells:
  assumes "\<forall>out\<in>set (outputs tx). output_value out \<noteq> 0" "tx_size tx < 2 ^ 64"
  shows "cells_ok (map cell_of_output (outputs tx))"
proof -
  have sum: "sum_list (map output_size (outputs tx)) < 2 ^ 64" using assms(2) by (simp add: tx_size_def)
  have len: "length (script (output_spk out)) < 2 ^ 64" if "out \<in> set (outputs tx)" for out
    using member_le_sum_list [of "output_size out" "map output_size (outputs tx)"] that sum by (simp add: output_size_def)
  have "total_plurality (map cell_of_output (outputs tx)) \<le> sum_list (map output_size (outputs tx))"
    using unat_utxo_plurality(3) [OF len]
    by (force simp: total_plurality_def cell_of_output_def new_cell_def comp_def output_size_def intro!: sum_list_mono)
  moreover have "utxo_plurality (output_spk out) \<noteq> 0" if "out \<in> set (outputs tx)" for out
    using unat_utxo_plurality(2) [OF len [OF that]] by auto
  ultimately show ?thesis
    using assms(1) sum
    by (auto simp: cells_ok_def list_all_iff cell_of_output_def new_cell_def)
qed

text \<open>The mass a transaction has to commit to: zero for a coinbase, the KIP-9 formula otherwise.\<close>

definition commits_storage_mass :: "mass_calculator \<Rightarrow> populated_tx \<Rightarrow> bool" where
  "commits_storage_mass mc p =
     (let c = storage_mass_parameter mc; ins = map cell_of_entry (entries p);
          outs = map cell_of_output (outputs (ptx p))
      in if is_coinbase (ptx p) then mass (ptx p) = 0
         else squares_fit c outs \<and> harm c outs < 2 ^ 64 \<and> unat (mass (ptx p)) = kip9_mass c ins outs)"

lemma contextual_masses_value:
  assumes "length (entries p) = length (inputs (ptx p))" "is_coinbase (ptx p) \<or> inputs (ptx p) \<noteq> []"
    and "\<forall>e\<in>set (entries p). entry_sane (storage_mass_parameter mc) e" "total_in p < 2 ^ 64"
    and "\<forall>out\<in>set (outputs (ptx p)). output_value out \<noteq> 0" "tx_size (ptx p) < 2 ^ 64"
  shows "calc_contextual_masses mc p = Ok
    (let c = storage_mass_parameter mc; outs = map cell_of_output (outputs (ptx p))
     in if is_coinbase (ptx p) then Some \<lparr>storage_mass = 0\<rparr>
        else if squares_fit c outs \<and> harm c outs < 2 ^ 64
        then Some \<lparr>storage_mass = of_nat (kip9_mass c (map cell_of_entry (entries p)) outs)\<rparr> else None)"
proof -
  have "map (\<lambda>(_, e). cell_of_entry e) (zip (inputs (ptx p)) (entries p)) = map cell_of_entry (entries p)"
    using map_snd_zip [of "inputs (ptx p)" "entries p"] assms(1)
    by (simp add: case_prod_unfold flip: map_map [of cell_of_entry snd, unfolded comp_def])
  then have eq: "calc_contextual_masses mc p = rbind (calc_storage_mass (is_coinbase (ptx p)) (map cell_of_entry (entries p))
      (map cell_of_output (outputs (ptx p))) (storage_mass_parameter mc)) (\<lambda>m. Ok (map_option (\<lambda>s. \<lparr>storage_mass = s\<rparr>) m))"
    by (simp add: calc_contextual_masses_def populated_inputs_zip [OF assms(1)])
  note ins = entry_cells [OF assms(3) assms(4) [unfolded total_in_def]]
  show ?thesis
  proof (cases "is_coinbase (ptx p)")
    case False
    then have ne: "map cell_of_entry (entries p) \<noteq> []" using assms(1,2) by auto
    have amt: "total_amount (map cell_of_entry (entries p)) < 2 ^ 64" using ins(3) assms(4) by (simp add: total_in_def)
    from False show ?thesis
      unfolding eq by (simp add: storage_mass_formula [OF ins(1) output_cells [OF assms(5,6)] ins(2) ne amt ins(4)] Let_def)
  qed (simp add: eq calc_storage_mass_def)
qed

lemma kip9_mass_le: "kip9_mass c ins outs \<le> harm c outs"
  by (simp add: kip9_mass_def)

lemma commits_storage_mass_iff:
  assumes "length (entries p) = length (inputs (ptx p))" "is_coinbase (ptx p) \<or> inputs (ptx p) \<noteq> []"
    and "\<forall>e\<in>set (entries p). entry_sane (storage_mass_parameter mc) e" "total_in p < 2 ^ 64"
    and "\<forall>out\<in>set (outputs (ptx p)). output_value out \<noteq> 0" "tx_size (ptx p) < 2 ^ 64"
  shows "calc_contextual_masses mc p = (Ok (Some \<lparr>storage_mass = mass (ptx p)\<rparr>) :: (contextual_masses option, 'e) outcome) \<longleftrightarrow>
    commits_storage_mass mc p"
proof -
  let ?c = "storage_mass_parameter mc" and ?ins = "map cell_of_entry (entries p)" and ?outs = "map cell_of_output (outputs (ptx p))"
  have "(of_nat (kip9_mass ?c ?ins ?outs) = mass (ptx p)) = (unat (mass (ptx p)) = kip9_mass ?c ?ins ?outs)"
    if "harm ?c ?outs < 2 ^ 64"
  proof -
    have "unat (of_nat (kip9_mass ?c ?ins ?outs) :: u64) = kip9_mass ?c ?ins ?outs"
      by (rule unat_of_nat_small) (use that kip9_mass_le [of ?c ?ins ?outs] in simp)
    then show ?thesis by (auto simp: word_unat_eq_iff)
  qed
  then show ?thesis
    unfolding contextual_masses_value [OF assms] commits_storage_mass_def by (auto simp: Let_def)
qed

section \<open>What validation accepts\<close>

definition contextual_rules ::
    "crypto \<Rightarrow> (u64 \<Rightarrow> u64 \<Rightarrow> 'f \<Rightarrow> bool) \<Rightarrow> transaction_validator \<Rightarrow> populated_tx \<Rightarrow> u64 \<Rightarrow>
     tx_validation_flags \<Rightarrow> (u64 \<times> 'f) option \<Rightarrow> u64 \<Rightarrow> bool" where
  "contextual_rules cr feerate_le tv p pov flags threshold fee =
     ((\<forall>e\<in>set (entries p). mature tv pov e) \<and>
      total_in p = total_out (ptx p) + unat fee \<and> total_in p \<le> unat MAX_SOMPI \<and>
      (flags \<noteq> SkipMassCheck \<longrightarrow>
         commits_storage_mass (tv_mass_calculator tv) p) \<and>
      (\<forall>(inp, e)\<in>set (zip (inputs (ptx p)) (entries p)). unlocked pov inp e) \<and>
      (case threshold of None \<Rightarrow> True | Some (m, t) \<Rightarrow> 0 < m \<and> \<not> feerate_le fee m t) \<and>
      (flags \<noteq> SkipScriptChecks \<longrightarrow> (\<forall>i<length (inputs (ptx p)). input_verified cr p i)))"

text \<open>Scores far from the end of their type, as every reachable chain has them.\<close>

definition scores_ok :: "transaction_validator \<Rightarrow> populated_tx \<Rightarrow> u64 \<Rightarrow> bool" where
  "scores_ok tv p pov = (unat pov < 2 ^ 63 \<and>
     (\<forall>e\<in>set (entries p). unat (block_daa_score e) + 2 ^ 32 < 2 ^ 63 \<and>
        unat (block_daa_score e) + unat (coinbase_maturity tv) < 2 ^ 64))"

lemma feerate_check:
  "check_feerate_threshold feerate_le fee thr = Ok u \<longleftrightarrow>
     (case thr of None \<Rightarrow> True | Some (m, t) \<Rightarrow> 0 < m \<and> \<not> feerate_le fee m t)"
  "check_feerate_threshold feerate_le fee thr = Panic \<longleftrightarrow> (case thr of None \<Rightarrow> False | Some (m, t) \<Rightarrow> \<not> 0 < m)"
  by (cases thr; cases "the thr"; simp add: check_feerate_threshold_def assert_that_def fail_if_def)+

lemma mass_commitment_check:
  "check_mass_commitment tv p = Ok u \<longleftrightarrow>
     calc_contextual_masses (tv_mass_calculator tv) p = (Ok (Some \<lparr>storage_mass = mass (ptx p)\<rparr>) :: contextual_masses option tx_result)"
  "check_mass_commitment tv p = Panic \<longleftrightarrow>
     calc_contextual_masses (tv_mass_calculator tv) p = (Panic :: contextual_masses option tx_result)"
  by (auto simp: check_mass_commitment_def outcome_simps)


lemma script_stage:
  assumes "length (entries p) = length (inputs (ptx p))" "set sched = {0..<length (inputs (ptx p))}" "cache_sound cr c"
  shows "(\<exists>c'. (case flags of SkipScriptChecks \<Rightarrow> Ok c | _ \<Rightarrow> check_scripts cr sched c p) = Ok c') \<longleftrightarrow>
      (flags \<noteq> SkipScriptChecks \<longrightarrow> (\<forall>i<length (inputs (ptx p)). input_verified cr p i))"
    and "(case flags of SkipScriptChecks \<Rightarrow> Ok c | _ \<Rightarrow> check_scripts cr sched c p) \<noteq> Panic"
    and "(case flags of SkipScriptChecks \<Rightarrow> Ok c | _ \<Rightarrow> check_scripts cr sched c p) = Ok c' \<Longrightarrow> cache_sound cr c'"
  using check_scripts_cases [OF assms] assms(3)
  by (cases flags; force split: if_splits)+

text \<open>The fee is what the inputs have over the outputs.\<close>

lemma fee_stage:
  assumes "length (entries p) = length (inputs (ptx p))"
  shows "(\<exists>total_in' total_out'. check_transaction_input_amounts p = Ok total_in' \<and>
       check_transaction_output_values p total_in' = Ok total_out' \<and> sub_w total_in' total_out' = (Ok fee :: u64 tx_result)) \<longleftrightarrow>
     total_in p = total_out (ptx p) + unat fee \<and> total_in p \<le> unat MAX_SOMPI"
proof
  assume "\<exists>a b. check_transaction_input_amounts p = Ok a \<and> check_transaction_output_values p a = Ok b \<and> sub_w a b = (Ok fee :: u64 tx_result)"
  then show "total_in p = total_out (ptx p) + unat fee \<and> total_in p \<le> unat MAX_SOMPI"
    by (auto simp: input_amounts(1) [OF assms] output_values(1) expect_iff checked_sub_Some_iff)
next
  assume a: "total_in p = total_out (ptx p) + unat fee \<and> total_in p \<le> unat MAX_SOMPI"
  have small: "unat MAX_SOMPI < 2 ^ 64" using unat_bound [of MAX_SOMPI] by simp
  have "unat (of_nat (total_in p) :: u64) = total_in p" "unat (of_nat (total_out (ptx p)) :: u64) = total_out (ptx p)"
    by (rule unat_of_nat_small, use a small in simp)+
  then show "\<exists>a b. check_transaction_input_amounts p = Ok a \<and> check_transaction_output_values p a = Ok b \<and> sub_w a b = (Ok fee :: u64 tx_result)"
    using a by (intro exI [of _ "of_nat (total_in p)"] exI [of _ "of_nat (total_out (ptx p))"])
      (auto simp: input_amounts(1) [OF assms] output_values(1) expect_iff checked_sub_Some_iff word_le_nat_alt)
qed

text \<open>The shape of the validation: three checks around the fee, which the last ones use.\<close>

lemma fee_chain_Ok:
  "rbind m1 (\<lambda>_. rbind m2 (\<lambda>a. rbind (m3 a) (\<lambda>b. rbind (m4 a b) (\<lambda>f. rbind m5 (\<lambda>_. rbind m6 (\<lambda>_.
     rbind (m7 f) (\<lambda>_. rbind m8 (\<lambda>c. Ok (f, g c))))))))) = Ok (fee, t) \<longleftrightarrow>
   m1 = Ok () \<and> (\<exists>a b. m2 = Ok a \<and> m3 a = Ok b \<and> m4 a b = Ok fee) \<and> m5 = Ok () \<and> m6 = Ok () \<and>
   m7 fee = Ok () \<and> (\<exists>c. m8 = Ok c \<and> t = g c)"
  by (auto simp: rbind_Ok_iff)

lemma fee_chain_no_panic:
  assumes "m1 \<noteq> Panic" "m2 \<noteq> Panic" "\<And>a. m3 a \<noteq> Panic" "\<And>a b. m3 a = Ok b \<Longrightarrow> m4 a b \<noteq> Panic"
    and "\<And>a. m2 = Ok a \<Longrightarrow> m5 \<noteq> Panic" "m6 \<noteq> Panic" "\<And>f. m7 f \<noteq> Panic" "m8 \<noteq> Panic"
  shows "rbind m1 (\<lambda>_. rbind m2 (\<lambda>a. rbind (m3 a) (\<lambda>b. rbind (m4 a b) (\<lambda>f. rbind m5 (\<lambda>_. rbind m6 (\<lambda>_.
     rbind (m7 f) (\<lambda>_. rbind m8 (\<lambda>c. Ok (f, g c))))))))) \<noteq> Panic"
  using assms by (auto simp: rbind_Panic_iff)

lemma validate_Ok_iff:
  "validate_populated_transaction_and_get_fee cr feerate_le sched tv p pov flags thr = Ok (fee, tv') \<longleftrightarrow>
     check_transaction_coinbase_maturity tv p pov = Ok () \<and>
     (\<exists>total_in' total_out'. check_transaction_input_amounts p = Ok total_in' \<and>
       check_transaction_output_values p total_in' = Ok total_out' \<and> sub_w total_in' total_out' = (Ok fee :: u64 tx_result)) \<and>
     (flags \<noteq> SkipMassCheck \<longrightarrow> check_mass_commitment tv p = Ok ()) \<and>
     check_sequence_lock p pov = Ok () \<and> check_feerate_threshold feerate_le fee thr = Ok () \<and>
     (\<exists>c. (case flags of SkipScriptChecks \<Rightarrow> Ok (tv_sig_cache tv) | _ \<Rightarrow> check_scripts cr sched (tv_sig_cache tv) p) = Ok c \<and>
        tv' = tv\<lparr>tv_sig_cache := c\<rparr>)"
  unfolding validate_populated_transaction_and_get_fee_def fee_chain_Ok by simp

lemma validate_rules:
  assumes "length (entries p) = length (inputs (ptx p))" "set sched = {0..<length (inputs (ptx p))}"
    and "cache_sound cr (tv_sig_cache tv)" "scores_ok tv p pov"
    and "isolation_rules tv (ptx p)" "tx_size (ptx p) < 2 ^ 64"
    and "\<forall>e\<in>set (entries p). entry_sane (storage_mass_parameter (tv_mass_calculator tv)) e"
  shows "(\<exists>tv'. validate_populated_transaction_and_get_fee cr feerate_le sched tv p pov flags thr = Ok (fee, tv')) \<longleftrightarrow>
    contextual_rules cr feerate_le tv p pov flags thr fee"
proof -
  have sc: "\<forall>e\<in>set (entries p). unat (block_daa_score e) + unat (coinbase_maturity tv) < 2 ^ 64"
    "unat pov < 2 ^ 63" "\<forall>e\<in>set (entries p). unat (block_daa_score e) + 2 ^ 32 < 2 ^ 63"
    using assms(4) by (auto simp: scores_ok_def)
  have max: "total_in p \<le> unat MAX_SOMPI \<Longrightarrow> total_in p < 2 ^ 64" using unat_bound [of MAX_SOMPI] by simp
  have out: "\<forall>out\<in>set (outputs (ptx p)). output_value out \<noteq> 0" "is_coinbase (ptx p) \<or> inputs (ptx p) \<noteq> []"
    using assms(5) by (auto simp: isolation_rules_def split: if_splits)
  note mass = commits_storage_mass_iff [OF assms(1) out(2) assms(7) max out(1) assms(6)]
  show ?thesis
    unfolding validate_Ok_iff contextual_rules_def maturity_check(1) [OF assms(1) sc(1)] fee_stage [OF assms(1)]
      mass_commitment_check(1) sequence_check(1) [OF assms(1) sc(2,3)] feerate_check(1)
    using script_stage(1) [OF assms(1-3), of flags] mass by blast
qed

lemma validate_no_panic:
  assumes "length (entries p) = length (inputs (ptx p))" "set sched = {0..<length (inputs (ptx p))}"
    and "cache_sound cr (tv_sig_cache tv)" "scores_ok tv p pov"
    and "isolation_rules tv (ptx p)" "tx_size (ptx p) < 2 ^ 64"
    and "\<forall>e\<in>set (entries p). entry_sane (storage_mass_parameter (tv_mass_calculator tv)) e"
    and "\<forall>m t. thr = Some (m, t) \<longrightarrow> 0 < m"
  shows "validate_populated_transaction_and_get_fee cr feerate_le sched tv p pov flags thr \<noteq> Panic"
proof -
  have sc: "\<forall>e\<in>set (entries p). unat (block_daa_score e) + unat (coinbase_maturity tv) < 2 ^ 64"
    "unat pov < 2 ^ 63" "\<forall>e\<in>set (entries p). unat (block_daa_score e) + 2 ^ 32 < 2 ^ 63"
    using assms(4) by (auto simp: scores_ok_def)
  have max: "unat MAX_SOMPI < 2 ^ 64" using unat_bound [of MAX_SOMPI] by simp
  have out: "total_out (ptx p) < 2 ^ 64" "\<forall>out\<in>set (outputs (ptx p)). output_value out \<noteq> 0"
    "is_coinbase (ptx p) \<or> inputs (ptx p) \<noteq> []"
    using assms(5) max by (auto simp: isolation_rules_def split: if_splits)
  have mass: "check_mass_commitment tv p \<noteq> Panic" if "check_transaction_input_amounts p = Ok t" for t
    unfolding mass_commitment_check(2)
    using that max by (subst contextual_masses_value [OF assms(1) out(3) assms(7) _ out(2) assms(6)])
      (simp_all add: input_amounts(1) [OF assms(1)])
  have sub: "sub_w a b \<noteq> (Panic :: u64 tx_result)" if "check_transaction_output_values p a = Ok b" for a b
    using that by (auto simp: output_values(1) expect_iff checked_None_iff word_le_nat_alt)
  have fr: "check_feerate_threshold feerate_le fee thr \<noteq> Panic" for fee
    using assms(8) by (auto simp: feerate_check(2) split: option.splits)
  show ?thesis
    unfolding validate_populated_transaction_and_get_fee_def
    using maturity_check(2) [OF assms(1) sc(1)] input_amounts(2) [OF assms(1)] output_values(2) [OF out(1)]
      sequence_check(2) [OF assms(1) sc(2,3)] script_stage(2) [OF assms(1-3)] mass sub fr
    by (intro fee_chain_no_panic) simp_all
qed


section \<open>Properties of validation\<close>

text \<open>
  C30. Given the entries a transaction spends, validation returns a fee exactly when the rules hold
  for that fee: coinbase entries are mature, the inputs cover the outputs and the fee and stay within
  the money supply, the committed mass is the storage mass by the KIP-9 formula (unless the mass check
  is skipped), relative locks have passed, the fee rate beats its threshold, and the engine accepts
  every input (unless script checks are skipped); and it never panics, whatever the schedule of the
  script checks. This holds for a transaction that passed isolation, under the conditions without
  which the code does panic: every entry's amount is at least its plurality and its squared plurality
  times the storage mass parameter fits a machine word, the scores are far from the end of their type,
  and the mass of a fee rate threshold is positive.
\<close>

theorem validation_exact:
  assumes "length (entries p) = length (inputs (ptx p))" "set sched = {0..<length (inputs (ptx p))}"
    and "cache_sound cr (tv_sig_cache tv)" "scores_ok tv p pov"
    and "isolation_rules tv (ptx p)" "tx_size (ptx p) < 2 ^ 64"
    and "\<forall>e\<in>set (entries p). entry_sane (storage_mass_parameter (tv_mass_calculator tv)) e"
    and "\<forall>m t. thr = Some (m, t) \<longrightarrow> 0 < m"
  shows "((\<exists>tv'. validate_populated_transaction_and_get_fee cr feerate_le sched tv p pov flags thr = Ok (fee, tv')) \<longleftrightarrow>
      contextual_rules cr feerate_le tv p pov flags thr fee) \<and>
    validate_populated_transaction_and_get_fee cr feerate_le sched tv p pov flags thr \<noteq> Panic"
  using validate_rules [OF assms(1-7)] validate_no_panic [OF assms] by blast

definition ex_light_validator :: transaction_validator where
  "ex_light_validator = new_validator 1000 1000 10000 10000 150 1000 18 (new_mass_calculator 1 10 1000 50)"

lemma ex_p2pk_sane:
  "cache_sound ex_crypto (tv_sig_cache ex_light_validator)" "scores_ok ex_light_validator ex_p2pk_tx 100"
  "isolation_rules ex_light_validator (ptx ex_p2pk_tx)" "tx_size (ptx ex_p2pk_tx) < 2 ^ 64"
  "\<forall>e\<in>set (entries ex_p2pk_tx). entry_sane (storage_mass_parameter (tv_mass_calculator ex_light_validator)) e"
  by (simp_all add: ex_light_validator_def new_validator_def empty_caches new_mass_calculator_def scores_ok_def
      ex_p2pk_tx_def ex_populated_def ex_spk_def isolation_rules_def is_coinbase_def is_native_def total_out_def
      MAX_SOMPI_def SOMPI_PER_KASPA_def TX_VERSION_def tx_size_def input_size_def output_size_def entry_sane_def
      utxo_plurality_def UTXO_CONST_STORAGE_def UTXO_UNIT_SIZE_def div_ceil_def)

lemma ex_p2pk_mass: "commits_storage_mass (tv_mass_calculator ex_light_validator) ex_p2pk_tx"
  by (simp add: commits_storage_mass_def ex_p2pk_tx_def ex_populated_def ex_spk_def
      ex_light_validator_def new_validator_def new_mass_calculator_def is_coinbase_def squares_fit_def harm_def cell_harm_def
      kip9_mass_def relaxed_case_def total_plurality_def
      cell_of_entry_def cell_of_output_def new_cell_def utxo_plurality_def UTXO_CONST_STORAGE_def UTXO_UNIT_SIZE_def
      div_ceil_def)

lemma ex_p2pk_rules:
  "contextual_rules ex_crypto (\<lambda>_ _ _. False) ex_light_validator ex_p2pk_tx 100 Full (None :: (u64 \<times> unit) option) 10"
  unfolding contextual_rules_def
  using ex_p2pk_verified ex_p2pk_mass
  by (simp add: input_verified_def ex_p2pk_sizes)
    (simp add: ex_p2pk_tx_def ex_populated_def mature_def total_in_def total_out_def MAX_SOMPI_def SOMPI_PER_KASPA_def unlocked_def)

theorem validation_exact_witness:
  "\<exists>tv'. validate_populated_transaction_and_get_fee ex_crypto (\<lambda>_ _ _. False) [0] ex_light_validator ex_p2pk_tx 100 Full
     (None :: (u64 \<times> unit) option) = Ok (10, tv')"
  using validation_exact [of ex_p2pk_tx "[0]" ex_crypto ex_light_validator 100 "None :: (u64 \<times> unit) option",
      OF _ _ ex_p2pk_sane] ex_p2pk_rules
  by (simp add: ex_p2pk_sizes)

text \<open>
  C29. Validation conserves value: a transaction that passes isolation and then validation against
  its entries spends distinct outpoints, its inputs are worth exactly its outputs plus the returned
  fee, as unbounded numbers and never more than the money supply, and the engine accepted every
  input unless script checks were skipped. The signature cache it leaves is sound again.
\<close>

theorem validation_conserves_value:
  assumes "validate_tx_in_isolation tv tx = Ok ()" "length (outputs tx) < 2 ^ 64" "new_populated tx es = Ok p"
    and "validate_populated_transaction_and_get_fee cr feerate_le sched tv p pov flags thr = Ok (fee, tv')"
    and "set sched = {0..<length (inputs tx)}" "cache_sound cr (tv_sig_cache tv)"
  shows "distinct (map previous_outpoint (inputs tx)) \<and>
    sum_list (map (\<lambda>e. unat (amount e)) es) = sum_list (map (\<lambda>out. unat (output_value out)) (outputs tx)) + unat fee \<and>
    sum_list (map (\<lambda>e. unat (amount e)) es) \<le> unat MAX_SOMPI \<and>
    (flags \<noteq> SkipScriptChecks \<longrightarrow> (\<forall>i<length (inputs tx). is_ok (run_input cr p i new_reused_values (new_cache 0)))) \<and>
    cache_sound cr (tv_sig_cache tv')"
proof -
  have p: "ptx p = tx" "entries p = es" "length (entries p) = length (inputs (ptx p))"
    using assms(3) by (auto simp: new_populated_def outcome_simps)
  have sched: "set sched = {0..<length (inputs (ptx p))}" using assms(5) p by simp
  have "total_in p = total_out (ptx p) + unat fee \<and> total_in p \<le> unat MAX_SOMPI"
    using assms(4) unfolding validate_Ok_iff fee_stage [OF p(3)] by blast
  moreover obtain c where c: "(case flags of SkipScriptChecks \<Rightarrow> Ok (tv_sig_cache tv)
      | _ \<Rightarrow> check_scripts cr sched (tv_sig_cache tv) p) = Ok c" "tv' = tv\<lparr>tv_sig_cache := c\<rparr>"
    using assms(4) unfolding validate_Ok_iff by blast
  then have "flags \<noteq> SkipScriptChecks \<longrightarrow> (\<forall>i<length (inputs (ptx p)). input_verified cr p i)"
    using script_stage(1) [OF p(3) sched assms(6), of flags] by blast
  moreover have "cache_sound cr c" using script_stage(3) [OF p(3) sched assms(6) c(1)] .
  moreover have "isolation_rules tv tx" using isolation_iff [OF assms(2)] assms(1) by simp
  ultimately show ?thesis
    using p c(2) by (simp add: total_in_def total_out_def input_verified_def isolation_rules_def)
qed

theorem validation_conserves_value_witness:
  "\<exists>tv'. validate_populated_transaction_and_get_fee ex_crypto (\<lambda>_ _ _. False) [0] ex_light_validator ex_p2pk_tx 100 Full
     (None :: (u64 \<times> unit) option) = Ok (10, tv') \<and> cache_sound ex_crypto (tv_sig_cache tv')"
proof -
  have pre: "validate_tx_in_isolation ex_light_validator (ptx ex_p2pk_tx) = Ok ()"
    "length (outputs (ptx ex_p2pk_tx)) < 2 ^ 64" "set [0] = {0..<length (inputs (ptx ex_p2pk_tx))}"
    "new_populated (ptx ex_p2pk_tx) (entries ex_p2pk_tx) = (Ok ex_p2pk_tx :: (populated_tx, unit) outcome)"
    using isolation_iff [of "ptx ex_p2pk_tx" ex_light_validator] ex_p2pk_sane(3)
    by (simp_all add: ex_p2pk_tx_def ex_populated_def new_populated_def)
  obtain tv' where "validate_populated_transaction_and_get_fee ex_crypto (\<lambda>_ _ _. False) [0] ex_light_validator ex_p2pk_tx 100 Full
     (None :: (u64 \<times> unit) option) = Ok (10, tv')"
    using validate_rules [of ex_p2pk_tx "[0]" ex_crypto ex_light_validator 100 "\<lambda>_ _ _. False" Full
        "None :: (u64 \<times> unit) option" 10, OF _ _ ex_p2pk_sane] ex_p2pk_rules
    by (auto simp: ex_p2pk_sizes)
  with validation_conserves_value [OF pre(1,2,4) this pre(3) ex_p2pk_sane(1)] show ?thesis by blast
qed

text \<open>
  A lock time is met exactly when it is zero, when it lies before the block's score (below the
  threshold) or before the block's time (from the threshold on), or when every input opted out with
  the maximal sequence number.
\<close>

theorem lock_time_exact:
  "validate_tx_in_header_context_with_args tx ctx_daa_score ctx_block_time = Ok () \<longleftrightarrow>
     lock_time tx = 0 \<or>
     lock_time tx < (if lock_time tx < LOCK_TIME_THRESHOLD then ctx_daa_score else ctx_block_time) \<or>
     list_all (\<lambda>i. sequence_no i = MAX_TX_IN_SEQUENCE_NUM) (inputs tx)"
  by (simp add: validate_tx_in_header_context_with_args_def validate_tx_in_header_context_def check_tx_is_finalized_def
      get_lock_time_type_def Let_def fail_if_each(1) MAX_TX_IN_SEQUENCE_NUM_def list_all_iff)

section \<open>Pluralities of the standard scripts\<close>

text \<open>
  The script of an address takes one storage unit of 100 bytes, but the script of an ML-DSA address
  takes fourteen; the script of a stealth output takes two.
\<close>

theorem standard_plurality:
  assumes "pay_to_address_script a = Ok spk" "length stealth = 66"
  shows "utxo_plurality spk = (if addr_version a = VPubKeyMLDSA then 14 else 1) \<and>
    utxo_plurality \<lparr>spk_version = STEALTH_SCRIPT_VERSION, script = stealth\<rparr> = 2"
  using assms
  by (auto simp: pay_to_address_script_iff utxo_plurality_def UTXO_CONST_STORAGE_def UTXO_UNIT_SIZE_def div_ceil_def)

theorem standard_plurality_witness:
  "utxo_plurality \<lparr>spk_version = 0, script = OpPushData2 # 0x20 # 0x05 # replicate 1312 7 @ [OpCheckSigMLDSA]\<rparr> = 14"
  using standard_plurality [of "new_address Mainnet VPubKeyMLDSA (replicate 1312 7)"
      "\<lparr>spk_version = 0, script = OpPushData2 # 0x20 # 0x05 # replicate 1312 7 @ [OpCheckSigMLDSA]\<rparr>" "replicate 66 0"]
  by (simp add: pay_to_address_script_iff new_address_def)

end
