(* ===== verification/Uint.thy ===== *)
theory Uint
  imports Script_Data "HOL-Library.Log_Nat"
begin

text \<open>
  The fixed-size unsigned integers of \<^verbatim>\<open>src/math/src/uint.rs\<close>: arrays of 64-bit limbs, least
  significant first. The macro \<^verbatim>\<open>construct_uint\<close> generates the same code for every number of
  limbs, so an integer is a list and the operations are for lists of any length. The value of a
  list is a natural number; every operation is shown to compute the operation on values that
  its name promises, with the flag it returns. A release build leaves \<^verbatim>\<open>debug_assert\<close> out, so
  \<open>+\<close>, \<open>-\<close>, \<open>*\<close> and the shifts are the first component of the overflowing operations.

  Products and sums the source takes at 128 bits are natural numbers here; they are shown to fit.
\<close>

type_synonym limbs = "u64 list"

section \<open>Values\<close>

fun uval :: "limbs \<Rightarrow> nat" where
  "uval [] = 0"
| "uval (w # ws) = unat w + 2 ^ 64 * uval ws"

section \<open>Operations\<close>

definition uint_from_u64 :: "nat \<Rightarrow> u64 \<Rightarrow> limbs" where
  "uint_from_u64 n x = (replicate n 0)[0 := x]"

definition uint_as_u64 :: "limbs \<Rightarrow> u64" where
  "uint_as_u64 ws = ws ! 0"

definition uint_is_zero :: "limbs \<Rightarrow> bool" where
  "uint_is_zero ws = list_all (\<lambda>a. a = 0) ws"

text \<open>\<^verbatim>\<open>leading_zeros\<close> of a 64-bit word.\<close>

definition leading_zeros :: "u64 \<Rightarrow> nat" where
  "leading_zeros w = 64 - floorlog 2 (unat w)"

definition uint_bits :: "limbs \<Rightarrow> nat" where
  "uint_bits ws =
     (case find (\<lambda>(i, w). w \<noteq> 0) (rev (enumerate 0 ws)) of
        Some (i, w) \<Rightarrow> 64 * (i + 1) - leading_zeros w
      | None \<Rightarrow> 0)"

definition ov_add :: "u64 \<Rightarrow> u64 \<Rightarrow> u64 \<times> bool" where
  "ov_add a b = (a + b, 2 ^ 64 \<le> unat a + unat b)"

definition ov_sub :: "u64 \<Rightarrow> u64 \<Rightarrow> u64 \<times> bool" where
  "ov_sub a b = (a - b, unat a < unat b)"

definition carrying_add_u64 :: "u64 \<Rightarrow> u64 \<Rightarrow> bool \<Rightarrow> u64 \<times> bool" where
  "carrying_add_u64 lhs rhs carry =
     (let (a, b) = ov_add lhs rhs; (c, d) = ov_add a (of_bool carry) in (c, b \<noteq> d))"

definition borrowing_sub_u64 :: "u64 \<Rightarrow> u64 \<Rightarrow> bool \<Rightarrow> u64 \<times> bool" where
  "borrowing_sub_u64 lhs rhs borrow =
     (let (a, b) = ov_sub lhs rhs; (c, d) = ov_sub a (of_bool borrow) in (c, b \<noteq> d))"

text \<open>A loop over the limbs of two integers that passes a flag on.\<close>

fun limb_loop :: "(u64 \<Rightarrow> u64 \<Rightarrow> bool \<Rightarrow> u64 \<times> bool) \<Rightarrow> limbs \<Rightarrow> limbs \<Rightarrow> bool \<Rightarrow> limbs \<times> bool" where
  "limb_loop f (x # xs) (y # ys) c =
     (let (r, c') = f x y c; (rs, c'') = limb_loop f xs ys c' in (r # rs, c''))"
| "limb_loop f _ _ c = ([], c)"

definition overflowing_add :: "limbs \<Rightarrow> limbs \<Rightarrow> limbs \<times> bool" where
  "overflowing_add xs ys = limb_loop carrying_add_u64 xs ys False"

definition overflowing_sub :: "limbs \<Rightarrow> limbs \<Rightarrow> limbs \<times> bool" where
  "overflowing_sub xs ys = limb_loop borrowing_sub_u64 xs ys False"

text \<open>\<^verbatim>\<open>overflowing_add_u64\<close>: the carry runs up until a limb absorbs it.\<close>

fun carry_loop :: "limbs \<Rightarrow> bool \<Rightarrow> limbs \<times> bool" where
  "carry_loop [] carry = ([], carry)"
| "carry_loop (x # xs) carry =
     (if \<not> carry then (x # xs, carry)
      else let (r, c) = ov_add x 1; (rs, c') = carry_loop xs c in (r # rs, c'))"

fun overflowing_add_u64 :: "limbs \<Rightarrow> u64 \<Rightarrow> limbs \<times> bool" where
  "overflowing_add_u64 (x # xs) y =
     (let (r, c) = ov_add x y; (rs, c') = carry_loop xs c in (r # rs, c'))"
| "overflowing_add_u64 [] y = ([], False)"

definition uint_saturating_sub :: "limbs \<Rightarrow> limbs \<Rightarrow> limbs" where
  "uint_saturating_sub xs ys =
     (let (r, carry) = overflowing_sub xs ys in if carry then replicate (length xs) 0 else r)"

definition uint_saturating_add :: "limbs \<Rightarrow> limbs \<Rightarrow> limbs" where
  "uint_saturating_add xs ys =
     (let (r, carry) = overflowing_add xs ys in if carry then replicate (length xs) (- 1) else r)"

fun mul_u64_loop :: "limbs \<Rightarrow> u64 \<Rightarrow> nat \<Rightarrow> limbs \<times> nat" where
  "mul_u64_loop [] y carry = ([], carry)"
| "mul_u64_loop (x # xs) y carry =
     (let n = carry + unat y * unat x; (rs, c) = mul_u64_loop xs y (n div 2 ^ 64 mod 2 ^ 64)
      in (of_nat n # rs, c))"

definition carrying_mul_u64 :: "limbs \<Rightarrow> u64 \<Rightarrow> limbs \<times> u64" where
  "carrying_mul_u64 xs y = (let (rs, c) = mul_u64_loop xs y 0 in (rs, of_nat c))"

definition overflowing_mul_u64 :: "limbs \<Rightarrow> u64 \<Rightarrow> limbs \<times> bool" where
  "overflowing_mul_u64 xs y = (let (rs, c) = carrying_mul_u64 xs y in (rs, c \<noteq> 0))"

text \<open>The inner \<^verbatim>\<open>while\<close> loop of the schoolbook product, for one limb of the second factor.\<close>

function mul_inner :: "limbs \<Rightarrow> u64 \<Rightarrow> nat \<Rightarrow> nat \<Rightarrow> u64 \<Rightarrow> limbs \<Rightarrow> limbs \<times> u64" where
  "mul_inner xs y j i carry res =
     (if i + j < length xs
      then let n = unat (xs ! i) * unat y + unat (res ! (i + j)) + unat carry
           in mul_inner xs y j (i + 1) (of_nat (n div 2 ^ 64)) (res[i + j := of_nat n])
      else (res, carry))"
  by pat_completeness auto
termination by (relation "measure (\<lambda>(xs, y, j, i, carry, res). length xs - (i + j))") auto

definition overflowing_mul :: "limbs \<Rightarrow> limbs \<Rightarrow> limbs \<times> bool" where
  "overflowing_mul xs ys =
     fold (\<lambda>j (res, carry_out).
         let (res', carry) = mul_inner xs (ys ! j) j 0 0 res in (res', carry_out \<or> carry \<noteq> 0))
       [0..<length xs] (replicate (length xs) 0, False)"

definition overflowing_shl :: "limbs \<Rightarrow> nat \<Rightarrow> limbs \<times> bool" where
  "overflowing_shl ws s =
     (let n = length ws; overflows = 64 * n \<le> s; s = s mod (64 * n);
          left_words = s div 64; left_shifts = s mod 64;
          ret = map (\<lambda>i. if left_words \<le> i then push_bit left_shifts (ws ! (i - left_words)) else 0) [0..<n];
          ret' = (if 0 < left_shifts
                  then map (\<lambda>i. if left_words + 1 \<le> i
                              then or (ret ! i) (drop_bit (64 - left_shifts) (ws ! (i - 1 - left_words)))
                              else ret ! i) [0..<n]
                  else ret)
      in (ret', overflows))"

definition overflowing_shr :: "limbs \<Rightarrow> nat \<Rightarrow> limbs \<times> bool" where
  "overflowing_shr ws s =
     (let n = length ws; overflows = 64 * n \<le> s; s = s mod (64 * n);
          left_words = s div 64; left_shifts = s mod 64;
          ret = map (\<lambda>k. if k + left_words < n then drop_bit left_shifts (ws ! (k + left_words)) else 0) [0..<n];
          ret' = (if 0 < left_shifts
                  then map (\<lambda>k. if k + left_words + 1 < n
                              then or (ret ! k) (push_bit (64 - left_shifts) (ws ! (k + left_words + 1)))
                              else ret ! k) [0..<n]
                  else ret)
      in (ret', overflows))"

datatype ordering = Less | Equal | Greater

fun lex_cmp :: "limbs \<Rightarrow> limbs \<Rightarrow> ordering" where
  "lex_cmp [] [] = Equal"
| "lex_cmp [] (y # ys) = Less"
| "lex_cmp (x # xs) [] = Greater"
| "lex_cmp (x # xs) (y # ys) = (if x < y then Less else if y < x then Greater else lex_cmp xs ys)"

definition uint_cmp :: "limbs \<Rightarrow> limbs \<Rightarrow> ordering" where
  "uint_cmp xs ys = lex_cmp (rev xs) (rev ys)"

definition uint_and :: "limbs \<Rightarrow> limbs \<Rightarrow> limbs" where
  "uint_and xs ys = map2 and xs ys"

definition uint_or :: "limbs \<Rightarrow> limbs \<Rightarrow> limbs" where
  "uint_or xs ys = map2 or xs ys"

definition uint_xor :: "limbs \<Rightarrow> limbs \<Rightarrow> limbs" where
  "uint_xor xs ys = map2 xor xs ys"

definition uint_not :: "limbs \<Rightarrow> limbs" where
  "uint_not xs = map not xs"

text \<open>\<^verbatim>\<open>div_rem_u64\<close>: from the most significant limb down; \<^verbatim>\<open>n / other\<close> panics on zero.\<close>

fun div_u64_loop :: "limbs \<Rightarrow> u64 \<Rightarrow> nat \<Rightarrow> limbs \<times> nat" where
  "div_u64_loop [] y rem = ([], rem)"
| "div_u64_loop (d # ds) y rem =
     (let n = rem * 2 ^ 64 + unat d; (qs, r) = div_u64_loop ds y (n mod unat y)
      in (of_nat (n div unat y) # qs, r))"

definition div_rem_u64 :: "limbs \<Rightarrow> u64 \<Rightarrow> (limbs \<times> u64, 'e) outcome" where
  "div_rem_u64 ws y =
     (if y = 0 \<and> ws \<noteq> [] then Panic
      else let (qs, r) = div_u64_loop (rev ws) y 0 in Ok (rev qs, of_nat r))"

text \<open>The loop of the long division, from the given shift down to zero.\<close>

fun div_loop :: "nat \<Rightarrow> limbs \<Rightarrow> limbs \<Rightarrow> limbs \<Rightarrow> limbs \<times> limbs" where
  "div_loop shift sub_copy shift_copy ret =
     (let (sub', ret') =
        (if uint_cmp sub_copy shift_copy \<noteq> Less
         then (fst (overflowing_sub sub_copy shift_copy),
               ret[shift div 64 := or (ret ! (shift div 64)) (push_bit (shift mod 64) 1)])
         else (sub_copy, ret));
        shift_copy' = fst (overflowing_shr shift_copy 1)
      in case shift of 0 \<Rightarrow> (ret', sub') | Suc shift' \<Rightarrow> div_loop shift' sub' shift_copy' ret')"

definition div_rem :: "limbs \<Rightarrow> limbs \<Rightarrow> (limbs \<times> limbs, 'e) outcome" where
  "div_rem xs ys =
     (if uint_bits ys = 0 then Panic
      else if uint_bits xs < uint_bits ys then Ok (replicate (length xs) 0, xs)
      else let shift = uint_bits xs - uint_bits ys
           in Ok (div_loop shift xs (fst (overflowing_shl ys shift)) (replicate (length xs) 0)))"

section \<open>Bytes\<close>

definition uint_to_le_bytes :: "limbs \<Rightarrow> u8 list" where
  "uint_to_le_bytes ws = concat (map (\<lambda>w. to_le_bytes 8 (unat w)) ws)"

definition uint_to_be_bytes :: "limbs \<Rightarrow> u8 list" where
  "uint_to_be_bytes ws = concat (map (\<lambda>w. rev (to_le_bytes 8 (unat w))) (rev ws))"

definition uint_from_le_bytes :: "nat \<Rightarrow> u8 list \<Rightarrow> limbs" where
  "uint_from_le_bytes n bs = map (\<lambda>i. of_nat (le_value (take 8 (drop (8 * i) bs)))) [0..<n]"

definition uint_from_be_bytes :: "nat \<Rightarrow> u8 list \<Rightarrow> limbs" where
  "uint_from_be_bytes n bs = rev (map (\<lambda>i. of_nat (le_value (rev (take 8 (drop (8 * i) bs))))) [0..<n])"

definition to_be_bytes_var :: "limbs \<Rightarrow> u8 list" where
  "to_be_bytes_var ws = dropWhile (\<lambda>b. b = 0) (uint_to_be_bytes ws)"


section \<open>Values of lists\<close>

lemma uval_less: "uval ws < 2 ^ (64 * length ws)"
proof (induction ws)
  case (Cons w ws)
  have "unat w < 2 ^ 64" using unat_bound [of w] by simp
  then have "unat w + 2 ^ 64 * uval ws < 2 ^ 64 * Suc (uval ws)" by simp
  also have "\<dots> \<le> 2 ^ 64 * 2 ^ (64 * length ws)" using Cons by (intro mult_le_mono2) simp
  finally show ?case by (simp add: power_add)
qed simp

lemma uval_append: "uval (xs @ ys) = uval xs + 2 ^ (64 * length xs) * uval ys"
  by (induction xs) (simp_all add: power_add algebra_simps)

lemma uval_replicate_0 [simp]: "uval (replicate n 0) = 0"
  by (induction n) simp_all

lemma uval_0_iff: "uval ws = 0 \<longleftrightarrow> list_all (\<lambda>w. w = 0) ws"
  by (induction ws) (auto simp: unat_eq_0)

lemma uval_inj: "length xs = length ys \<Longrightarrow> uval xs = uval ys \<longleftrightarrow> xs = ys"
proof (induction xs ys rule: list_induct2)
  case (Cons x xs y ys)
  have "unat x + 2 ^ 64 * uval xs = unat y + 2 ^ 64 * uval ys \<longleftrightarrow> unat x = unat y \<and> uval xs = uval ys"
  proof
    assume eq: "unat x + 2 ^ 64 * uval xs = unat y + 2 ^ 64 * uval ys"
    have "(unat x + 2 ^ 64 * uval xs) mod 2 ^ 64 = (unat y + 2 ^ 64 * uval ys) mod 2 ^ 64" using eq by (rule arg_cong)
    then have "unat x = unat y" using unat_bound [of x] unat_bound [of y] by simp
    with eq show "unat x = unat y \<and> uval xs = uval ys" by simp
  qed simp
  with Cons show ?case by (simp add: word_unat_eq_iff)
qed simp

lemma unat_of_nat64: "unat (of_nat n :: u64) = n mod 2 ^ 64"
  by (simp add: unat_of_nat take_bit_nat_def)

lemma uval_update:
  assumes "i < length ws"
  shows "uval (ws[i := w]) + 2 ^ (64 * i) * unat (ws ! i) = uval ws + 2 ^ (64 * i) * unat w"
proof -
  have ws: "ws = take i ws @ ws ! i # drop (Suc i) ws" using assms by (simp add: id_take_nth_drop)
  have up: "ws[i := w] = take i ws @ w # drop (Suc i) ws" using assms by (simp add: upd_conv_take_nth_drop)
  have "length (take i ws) = i" using assms by simp
  then show ?thesis unfolding up by (subst (2) ws) (simp add: uval_append algebra_simps)
qed

section \<open>Addition and subtraction\<close>

lemma carrying_add: "carrying_add_u64 x y c = (r, d) \<Longrightarrow> unat x + unat y + of_bool c = unat r + 2 ^ 64 * of_bool d"
proof -
  assume "carrying_add_u64 x y c = (r, d)"
  then have r: "r = x + y + of_bool c" and d: "d = ((2 ^ 64 \<le> unat x + unat y) \<noteq> (2 ^ 64 \<le> unat (x + y) + unat (of_bool c :: u64)))"
    by (auto simp: carrying_add_u64_def ov_add_def Let_def)
  have b: "unat (of_bool c :: u64) = of_bool c" "unat x < 2 ^ 64" "unat y < 2 ^ 64"
    using unat_bound [of x] unat_bound [of y] by (auto split: if_splits)
  have s: "unat (x + y) = (if unat x + unat y < 2 ^ 64 then unat x + unat y else unat x + unat y - 2 ^ 64)"
    using b by (simp add: unat_word_ariths mod_if)
  have "unat r = (unat (x + y) + of_bool c) mod 2 ^ 64" unfolding r by (simp add: unat_word_ariths b(1))
  then show ?thesis using b s unfolding d b(1) by (auto simp: mod_if split: if_splits)
qed

lemma borrowing_sub: "borrowing_sub_u64 x y c = (r, d) \<Longrightarrow> unat x + 2 ^ 64 * of_bool d = unat r + unat y + of_bool c"
proof -
  assume "borrowing_sub_u64 x y c = (r, d)"
  then have r: "r = x - y - of_bool c" and d: "d = ((unat x < unat y) \<noteq> (unat (x - y) < unat (of_bool c :: u64)))"
    by (auto simp: borrowing_sub_u64_def ov_sub_def Let_def)
  have b: "unat (of_bool c :: u64) = of_bool c" "unat x < 2 ^ 64" "unat y < 2 ^ 64"
    using unat_bound [of x] unat_bound [of y] by (auto split: if_splits)
  have sub: "unat (a - e) = (if unat e \<le> unat a then unat a - unat e else unat a + 2 ^ 64 - unat e)" for a e :: u64
    using unat_sub_if' [of a e] by simp
  define X Y S R where "X = unat x" and "Y = unat y" and "S = unat (x - y)" and "R = unat r"
  have S: "S = (if Y \<le> X then X - Y else X + 2 ^ 64 - Y)" unfolding S_def X_def Y_def by (rule sub)
  have R: "R = (if of_bool c \<le> S then S - of_bool c else S + 2 ^ 64 - of_bool c)"
    unfolding R_def r S_def using sub [of "x - y" "of_bool c"] b(1) by simp
  have "X + 2 ^ 64 * of_bool d = R + Y + of_bool c"
    using b(2,3) S R unfolding d b(1) X_def [symmetric] Y_def [symmetric] S_def [symmetric]
    by (cases c; cases "Y \<le> X"; simp split: if_splits)
  then show ?thesis by (simp add: X_def Y_def R_def)
qed

lemma limb_loop_length: "length xs = length ys \<Longrightarrow> length (fst (limb_loop f xs ys c)) = length xs"
  by (induction xs ys arbitrary: c rule: list_induct2) (simp_all add: Let_def case_prod_unfold)

lemma add_loop:
  assumes "length xs = length ys" "limb_loop carrying_add_u64 xs ys c = (rs, d)"
  shows "uval xs + uval ys + of_bool c = uval rs + 2 ^ (64 * length xs) * of_bool d"
  using assms
proof (induction xs ys arbitrary: c rs d rule: list_induct2)
  case (Cons x xs y ys)
  obtain r c' where r: "carrying_add_u64 x y c = (r, c')" by fastforce
  obtain rs' where rs': "limb_loop carrying_add_u64 xs ys c' = (rs', d)" "rs = r # rs'"
    using Cons.prems r by (auto simp: Let_def split: prod.splits)
  show ?case using Cons.IH [OF rs'(1)] carrying_add [OF r] rs'(2) by (simp add: power_add algebra_simps)
qed simp

lemma sub_loop:
  assumes "length xs = length ys" "limb_loop borrowing_sub_u64 xs ys c = (rs, d)"
  shows "uval xs + 2 ^ (64 * length xs) * of_bool d = uval rs + uval ys + of_bool c"
  using assms
proof (induction xs ys arbitrary: c rs d rule: list_induct2)
  case (Cons x xs y ys)
  obtain r c' where r: "borrowing_sub_u64 x y c = (r, c')" by fastforce
  obtain rs' where rs': "limb_loop borrowing_sub_u64 xs ys c' = (rs', d)" "rs = r # rs'"
    using Cons.prems r by (auto simp: Let_def split: prod.splits)
  show ?case using Cons.IH [OF rs'(1)] borrowing_sub [OF r] rs'(2) by (simp add: power_add algebra_simps)
qed simp

text \<open>A digit and a carry out determine each other.\<close>

lemma carry_unique:
  assumes "v = r + 2 ^ n * of_bool d" "r < (2 :: nat) ^ n"
  shows "r = v mod 2 ^ n" "d \<longleftrightarrow> 2 ^ n \<le> v"
  using assms by auto

lemma overflowing_add_correct:
  assumes "length xs = length ys"
  shows "uval (fst (overflowing_add xs ys)) = (uval xs + uval ys) mod 2 ^ (64 * length xs)"
    and "snd (overflowing_add xs ys) \<longleftrightarrow> 2 ^ (64 * length xs) \<le> uval xs + uval ys"
    and "length (fst (overflowing_add xs ys)) = length xs"
proof -
  obtain rs d where r: "overflowing_add xs ys = (rs, d)" by fastforce
  have l: "length rs = length xs" using limb_loop_length [OF assms] r by (metis fst_conv overflowing_add_def)
  have "uval xs + uval ys = uval rs + 2 ^ (64 * length xs) * of_bool d"
    using add_loop [OF assms, of False rs d] r by (simp add: overflowing_add_def)
  from carry_unique [OF this] show "uval (fst (overflowing_add xs ys)) = (uval xs + uval ys) mod 2 ^ (64 * length xs)"
    "snd (overflowing_add xs ys) \<longleftrightarrow> 2 ^ (64 * length xs) \<le> uval xs + uval ys"
    using uval_less [of rs] l r by simp_all
  show "length (fst (overflowing_add xs ys)) = length xs" using l r by simp
qed

lemma overflowing_sub_correct:
  assumes "length xs = length ys"
  shows "snd (overflowing_sub xs ys) \<longleftrightarrow> uval xs < uval ys"
    and "uval (fst (overflowing_sub xs ys)) = (uval xs + 2 ^ (64 * length xs) - uval ys) mod 2 ^ (64 * length xs)"
    and "length (fst (overflowing_sub xs ys)) = length xs"
proof -
  let ?m = "2 ^ (64 * length xs) :: nat"
  obtain rs d where r: "overflowing_sub xs ys = (rs, d)" by fastforce
  have l: "length rs = length xs" using limb_loop_length [OF assms] r by (metis fst_conv overflowing_sub_def)
  have eq: "uval xs + ?m * of_bool d = uval rs + uval ys"
    using sub_loop [OF assms, of False rs d] r by (simp add: overflowing_sub_def)
  have lt: "uval rs < ?m" "uval xs < ?m" "uval ys < ?m" using uval_less [of rs] uval_less [of xs] uval_less [of ys] l assms by simp_all
  show "snd (overflowing_sub xs ys) \<longleftrightarrow> uval xs < uval ys" using eq lt r by (cases d) auto
  show "uval (fst (overflowing_sub xs ys)) = (uval xs + ?m - uval ys) mod ?m"
    using eq lt r by (cases d) (auto simp: mod_if)
  show "length (fst (overflowing_sub xs ys)) = length xs" using l r by simp
qed


lemma ov_add_correct: "ov_add x y = (r, c) \<Longrightarrow> unat x + unat y = unat r + 2 ^ 64 * of_bool c"
  using unat_bound [of x] unat_bound [of y] by (auto simp: ov_add_def unat_word_ariths mod_if)

lemma carry_loop_correct:
  "carry_loop xs c = (rs, d) \<Longrightarrow> uval xs + of_bool c = uval rs + 2 ^ (64 * length xs) * of_bool d \<and> length rs = length xs"
proof (induction xs c arbitrary: rs d rule: carry_loop.induct)
  case (2 x xs carry)
  show ?case
  proof (cases carry)
    case True
    obtain r c where r: "ov_add x 1 = (r, c)" by fastforce
    obtain rs' where rs': "carry_loop xs c = (rs', d)" "rs = r # rs'"
      using 2 True r by (auto simp: Let_def split: prod.splits)
    have "unat x + 1 = unat r + 2 ^ 64 * of_bool c"
      using ov_add_correct [OF r] by simp
    then show ?thesis
      using 2(1) [OF _ refl r [symmetric] rs'(1)] rs'(2) True by (simp add: power_add algebra_simps)
  qed (use 2 in auto)
qed auto

lemma overflowing_add_u64_correct:
  assumes "xs \<noteq> []"
  shows "uval (fst (overflowing_add_u64 xs y)) = (uval xs + unat y) mod 2 ^ (64 * length xs)"
    and "snd (overflowing_add_u64 xs y) \<longleftrightarrow> 2 ^ (64 * length xs) \<le> uval xs + unat y"
    and "length (fst (overflowing_add_u64 xs y)) = length xs"
proof -
  obtain x xs' where xs: "xs = x # xs'" using assms by (cases xs) auto
  obtain r c where r: "ov_add x y = (r, c)" by fastforce
  obtain rs d where rs: "carry_loop xs' c = (rs, d)" by fastforce
  note loop = carry_loop_correct [OF rs]
  have "unat x + unat y = unat r + 2 ^ 64 * of_bool c"
    by (rule ov_add_correct [OF r])
  then have eq: "uval xs + unat y = uval (r # rs) + 2 ^ (64 * length xs) * of_bool d"
    using loop xs by (simp add: power_add algebra_simps)
  have res: "overflowing_add_u64 xs y = (r # rs, d)" using xs r rs by simp
  from carry_unique [OF eq] show "uval (fst (overflowing_add_u64 xs y)) = (uval xs + unat y) mod 2 ^ (64 * length xs)"
    "snd (overflowing_add_u64 xs y) \<longleftrightarrow> 2 ^ (64 * length xs) \<le> uval xs + unat y"
    using uval_less [of "r # rs"] loop xs res by simp_all
  show "length (fst (overflowing_add_u64 xs y)) = length xs" using res loop xs by simp
qed

section \<open>Multiplication\<close>

text \<open>One step of a product: the 128-bit sum fits.\<close>

lemma mul_step_fits:
  assumes "a < 2 ^ 64" "b < 2 ^ 64" "c < 2 ^ 64" "d < 2 ^ 64"
  shows "a * b + c + d < (2 :: nat) ^ 128"
proof -
  have "a * b \<le> (2 ^ 64 - 1) * (2 ^ 64 - 1)" using assms by (intro mult_le_mono) simp_all
  then show ?thesis using assms by simp
qed

text \<open>The inner loop as a recursion on the limbs it reads.\<close>

fun mac :: "limbs \<Rightarrow> u64 \<Rightarrow> limbs \<Rightarrow> u64 \<Rightarrow> limbs \<times> u64" where
  "mac (x # xs) y (r # rs) carry =
     (let n = unat x * unat y + unat r + unat carry; (rs', c) = mac xs y rs (of_nat (n div 2 ^ 64))
      in (of_nat n # rs', c))"
| "mac _ y rs carry = (rs, carry)"

lemma mac_correct:
  assumes "length xs = length rs" "mac xs y rs c = (rs', c')"
  shows "uval xs * unat y + uval rs + unat c = uval rs' + 2 ^ (64 * length xs) * unat c' \<and> length rs' = length xs"
  using assms
proof (induction xs rs arbitrary: c rs' c' rule: list_induct2)
  case (Cons x xs r rs)
  let ?n = "unat x * unat y + unat r + unat c"
  have lt: "?n < 2 ^ 128" using unat_bound [of x] unat_bound [of y] unat_bound [of r] unat_bound [of c] by (intro mul_step_fits) simp_all
  then have "?n div 2 ^ 64 < 2 ^ 64" by (intro less_mult_imp_div_less) simp
  then have hi: "unat (of_nat (?n div 2 ^ 64) :: u64) = ?n div 2 ^ 64" by (simp only: unat_of_nat64 mod_less)
  have lo: "unat (of_nat ?n :: u64) = ?n mod 2 ^ 64" by (rule unat_of_nat64)
  obtain rs'' where rs'': "mac xs y rs (of_nat (?n div 2 ^ 64)) = (rs'', c')" "rs' = of_nat ?n # rs''"
    using Cons.prems by (auto simp: Let_def split: prod.splits)
  note IH = Cons.IH [OF rs''(1), unfolded hi]
  have "uval rs' + 2 ^ (64 * length (x # xs)) * unat c' = ?n mod 2 ^ 64 + 2 ^ 64 * (uval rs'' + 2 ^ (64 * length xs) * unat c')"
    unfolding rs''(2) uval.simps lo by (simp add: power_add algebra_simps)
  also have "\<dots> = ?n mod 2 ^ 64 + 2 ^ 64 * (?n div 2 ^ 64) + 2 ^ 64 * (uval xs * unat y + uval rs)"
    unfolding conjunct1 [OF IH, symmetric] by (simp only: distrib_left add_ac)
  also have "\<dots> = ?n + 2 ^ 64 * (uval xs * unat y + uval rs)" by (simp only: mod_mult_div_eq)
  finally show ?case using IH rs''(2) by (simp add: algebra_simps)
qed auto

lemma mul_u64_loop_mac:
  assumes "c < 2 ^ 64"
  shows "mul_u64_loop xs y c = (case mac xs y (replicate (length xs) 0) (of_nat c) of (rs, d) \<Rightarrow> (rs, unat d))"
  using assms
proof (induction xs arbitrary: c)
  case Nil
  then show ?case by (simp add: unat_of_nat64)
next
  case (Cons x xs)
  have c: "unat (of_nat c :: u64) = c" using Cons.prems by (simp add: unat_of_nat64)
  have "unat x * unat y + 0 + c < 2 ^ 128" using unat_bound [of x] unat_bound [of y] Cons.prems by (intro mul_step_fits) simp_all
  then have "(c + unat y * unat x) div 2 ^ 64 < 2 ^ 64" by (intro less_mult_imp_div_less) (simp add: algebra_simps)
  then show ?case using Cons.IH [of "(c + unat y * unat x) div 2 ^ 64"] c
    by (simp add: Let_def algebra_simps split: prod.splits)
qed

lemma carrying_mul_u64_correct:
  "carrying_mul_u64 xs y = (rs, c) \<Longrightarrow> uval xs * unat y = uval rs + 2 ^ (64 * length xs) * unat c \<and> length rs = length xs"
proof -
  assume a: "carrying_mul_u64 xs y = (rs, c)"
  obtain rs' c' where m: "mac xs y (replicate (length xs) 0) 0 = (rs', c')" by fastforce
  then have "rs = rs'" "c = c'" using a by (simp_all add: carrying_mul_u64_def mul_u64_loop_mac)
  then show ?thesis using mac_correct [OF _ m] by simp
qed

lemma mul_inner_mac:
  assumes "length res = length xs" "i + j \<le> length xs"
  shows "mul_inner xs y j i c res =
    (case mac (take (length xs - (i + j)) (drop i xs)) y (drop (i + j) res) c of (rs, c') \<Rightarrow> (take (i + j) res @ rs, c'))"
  using assms
proof (induction xs y j i c res rule: mul_inner.induct)
  case (1 xs y j i c res)
  show ?case
  proof (cases "i + j < length xs")
    case True
    let ?n = "unat (xs ! i) * unat y + unat (res ! (i + j)) + unat c"
    have x: "take (length xs - (i + j)) (drop i xs) = xs ! i # take (length xs - (i + 1 + j)) (drop (i + 1) xs)"
      using True by (subst Cons_nth_drop_Suc [symmetric]) (simp_all add: Suc_diff_Suc take_Cons')
    have r: "drop (i + j) res = res ! (i + j) # drop (i + 1 + j) res"
      using True 1(2) by (simp add: Cons_nth_drop_Suc)
    have t: "take (i + 1 + j) (res[i + j := of_nat ?n]) = take (i + j) res @ [of_nat ?n]"
      using True 1(2) by (simp add: take_Suc_conv_app_nth)
    have "mul_inner xs y j i c res = mul_inner xs y j (i + 1) (of_nat (?n div 2 ^ 64)) (res[i + j := of_nat ?n])"
      using True by (subst mul_inner.simps) (simp add: Let_def)
    also have "\<dots> = (case mac (take (length xs - (i + 1 + j)) (drop (i + 1) xs)) y (drop (i + 1 + j) (res[i + j := of_nat ?n]))
        (of_nat (?n div 2 ^ 64)) of (rs, c') \<Rightarrow> (take (i + 1 + j) (res[i + j := of_nat ?n]) @ rs, c'))"
      by (rule 1(1)) (use True 1(2) in auto)
    finally show ?thesis
      unfolding x r t by (simp add: Let_def split: prod.splits)
  next
    case False
    then show ?thesis using 1(2,3) by (subst mul_inner.simps) simp
  qed
qed

text \<open>One row of the schoolbook product. The limbs of the first factor that would land beyond the
  result are left out; they are multiples of the modulus.\<close>

lemma mul_row:
  assumes "length res = length xs" "j < length xs" "mul_inner xs y j 0 0 res = (res', c)"
  shows "uval res' + 2 ^ (64 * length xs) * unat c = uval res + 2 ^ (64 * j) * (uval (take (length xs - j) xs) * unat y)"
    and "length res' = length xs"
proof -
  obtain rs where m: "mac (take (length xs - j) xs) y (drop j res) 0 = (rs, c)" "res' = take j res @ rs"
    using mul_inner_mac [of res xs 0 j y 0] assms by (auto split: prod.splits)
  note eq = mac_correct [OF _ m(1)]
  have res: "uval res = uval (take j res) + 2 ^ (64 * j) * uval (drop j res)"
    using uval_append [of "take j res" "drop j res"] assms(1,2) by simp
  have M: "2 ^ (64 * length xs) = (2 ^ (64 * j) * 2 ^ (64 * (length xs - j)) :: nat)"
    using assms(2) by (simp add: power_add [symmetric] algebra_simps)
  have "uval (take (length xs - j) xs) * unat y + uval (drop j res) = uval rs + 2 ^ (64 * (length xs - j)) * unat c"
    and l: "length rs = length xs - j"
    using eq assms(1,2) by simp_all
  from this(1) [THEN arg_cong [where f = "\<lambda>v. 2 ^ (64 * j) * v"]]
  show "uval res' + 2 ^ (64 * length xs) * unat c = uval res + 2 ^ (64 * j) * (uval (take (length xs - j) xs) * unat y)"
    unfolding m(2) uval_append M res using assms(1,2) by (simp add: distrib_left)
  show "length res' = length xs" using m(2) l assms(1,2) by simp
qed

lemma take_limbs: "j < length xs \<Longrightarrow>
  (2 ^ (64 * j) * (uval (take (length xs - j) xs) * y)) mod 2 ^ (64 * length xs) = (2 ^ (64 * j) * (uval xs * y)) mod 2 ^ (64 * length xs)"
  and take_limbs_le: "j < length xs \<Longrightarrow> uval (take (length xs - j) xs) \<le> uval xs"
proof -
  assume j: "j < length xs"
  have xs: "uval xs = uval (take (length xs - j) xs) + 2 ^ (64 * (length xs - j)) * uval (drop (length xs - j) xs)"
    using uval_append [of "take (length xs - j) xs" "drop (length xs - j) xs"] j by simp
  have M: "2 ^ (64 * length xs) = (2 ^ (64 * j) * 2 ^ (64 * (length xs - j)) :: nat)"
    using j by (simp add: power_add [symmetric] algebra_simps)
  have "2 ^ (64 * j) * (uval xs * y) =
      2 ^ (64 * j) * (uval (take (length xs - j) xs) * y) + 2 ^ (64 * length xs) * (uval (drop (length xs - j) xs) * y)"
    unfolding M by (subst xs) (simp add: algebra_simps)
  then show "(2 ^ (64 * j) * (uval (take (length xs - j) xs) * y)) mod 2 ^ (64 * length xs) = (2 ^ (64 * j) * (uval xs * y)) mod 2 ^ (64 * length xs)"
    by simp
  show "uval (take (length xs - j) xs) \<le> uval xs" using xs by simp
qed

lemma mul_rows:
  assumes "length ys = length xs" "j \<le> length xs"
    and "fold (\<lambda>j (res, carry_out).
         let (res', carry) = mul_inner xs (ys ! j) j 0 0 res in (res', carry_out \<or> carry \<noteq> 0))
       [0..<j] (replicate (length xs) 0, False) = (res, flag)"
  shows "length res = length xs \<and> uval res = uval xs * uval (take j ys) mod 2 ^ (64 * length xs)
    \<and> (flag \<longrightarrow> 2 ^ (64 * length xs) \<le> uval xs * uval (take j ys))"
  using assms(2,3)
proof (induction j arbitrary: res flag)
  case (Suc j)
  let ?M = "2 ^ (64 * length xs) :: nat"
  obtain r f where r: "fold (\<lambda>j (res, carry_out).
         let (res', carry) = mul_inner xs (ys ! j) j 0 0 res in (res', carry_out \<or> carry \<noteq> 0))
       [0..<j] (replicate (length xs) 0, False) = (r, f)" by fastforce
  obtain c where c: "mul_inner xs (ys ! j) j 0 0 r = (res, c)" "flag \<longleftrightarrow> f \<or> c \<noteq> 0"
    using Suc.prems(2) r by (auto split: prod.splits)
  have j: "j < length xs" using Suc.prems(1) by simp
  have IH: "length r = length xs" "uval r = uval xs * uval (take j ys) mod ?M" "f \<longrightarrow> ?M \<le> uval xs * uval (take j ys)"
    using Suc.IH [OF _ r] j by simp_all
  note row = mul_row [OF IH(1) j c(1)]
  have t: "uval xs * uval (take (Suc j) ys) = uval xs * uval (take j ys) + 2 ^ (64 * j) * (uval xs * unat (ys ! j))"
    using j assms(1) by (simp add: take_Suc_conv_app_nth uval_append algebra_simps)
  have "uval res = (uval res + ?M * unat c) mod ?M" using uval_less [of res] row(2) by simp
  also have "\<dots> = (uval r + 2 ^ (64 * j) * (uval xs * unat (ys ! j))) mod ?M"
    unfolding row(1) by (rule mod_add_cong [OF refl take_limbs [OF j]])
  also have "\<dots> = uval xs * uval (take (Suc j) ys) mod ?M" unfolding IH(2) t by (rule mod_add_left_eq)
  finally have v: "uval res = uval xs * uval (take (Suc j) ys) mod ?M" .
  have "?M \<le> uval xs * uval (take (Suc j) ys)" if "c \<noteq> 0"
  proof -
    have "0 < unat c" using that by (simp add: unat_gt_0)
    then have "?M \<le> ?M * unat c" by simp
    also have "\<dots> \<le> uval r + 2 ^ (64 * j) * (uval (take (length xs - j) xs) * unat (ys ! j))" using row(1) by simp
    also have "\<dots> \<le> uval xs * uval (take j ys) + 2 ^ (64 * j) * (uval xs * unat (ys ! j))"
      using take_limbs_le [OF j] by (intro add_mono mult_le_mono2 mult_le_mono1) (simp_all add: IH(2))
    finally show ?thesis unfolding t .
  qed
  then show ?case using v row(2) IH(3) c(2) t by auto
qed simp

lemma overflowing_mul_correct:
  assumes "length ys = length xs"
  shows "uval (fst (overflowing_mul xs ys)) = uval xs * uval ys mod 2 ^ (64 * length xs)"
    and "snd (overflowing_mul xs ys) \<Longrightarrow> 2 ^ (64 * length xs) \<le> uval xs * uval ys"
    and "length (fst (overflowing_mul xs ys)) = length xs"
proof -
  obtain res flag where r: "overflowing_mul xs ys = (res, flag)" by fastforce
  note rows = mul_rows [OF assms order_refl r [unfolded overflowing_mul_def]]
  show "uval (fst (overflowing_mul xs ys)) = uval xs * uval ys mod 2 ^ (64 * length xs)"
    "snd (overflowing_mul xs ys) \<Longrightarrow> 2 ^ (64 * length xs) \<le> uval xs * uval ys"
    "length (fst (overflowing_mul xs ys)) = length xs"
    using rows assms unfolding r by simp_all
qed

section \<open>Bits\<close>

lemma bit_split:
  assumes "a < 2 ^ n"
  shows "bit (a + 2 ^ n * v) k \<longleftrightarrow> (if k < n then bit a k else bit (v :: nat) (k - n))"
proof (cases "k < n")
  case True
  have "take_bit n (a + 2 ^ n * v) = a" using assms by (simp add: take_bit_nat_def)
  then show ?thesis using True bit_take_bit_iff [of n "a + 2 ^ n * v" k] by simp
next
  case False
  have "drop_bit n (a + 2 ^ n * v) = v" using assms by (simp add: drop_bit_eq_div)
  then show ?thesis using False by (metis bit_drop_bit_eq comp_apply le_add_diff_inverse not_less)
qed

lemma bit_uval: "bit (uval ws) k \<longleftrightarrow> k < 64 * length ws \<and> bit (ws ! (k div 64)) (k mod 64)"
proof (induction ws arbitrary: k)
  case (Cons w ws)
  have "unat w < 2 ^ 64" using unat_bound [of w] by simp
  note split = bit_split [OF this, of "uval ws" k]
  show ?case
  proof (cases "k < 64")
    case False
    then have "k div 64 = Suc ((k - 64) div 64)" "k mod 64 = (k - 64) mod 64" by (simp_all add: div_if mod_if)
    then show ?thesis using split Cons [of "k - 64"] False by auto
  qed (use split in \<open>simp add: bit_unsigned_iff\<close>)
qed simp

lemma bit_uval_at: "b < 64 \<Longrightarrow> bit (uval ws) (64 * i + b) \<longleftrightarrow> i < length ws \<and> bit (ws ! i) b"
  by (auto simp: bit_uval)

lemma uval_eqI:
  assumes "\<And>i b. \<lbrakk>i < length ws; b < 64\<rbrakk> \<Longrightarrow> bit (ws ! i) b \<longleftrightarrow> bit v (64 * i + b)" "v < 2 ^ (64 * length ws)"
  shows "uval ws = v"
proof (rule bit_eqI)
  fix k
  have "take_bit (64 * length ws) v = v" using assms(2) by (simp add: take_bit_nat_eq_self)
  then have v: "bit v k \<Longrightarrow> k < 64 * length ws" by (metis bit_take_bit_iff)
  have "k < 64 * length ws \<Longrightarrow> k div 64 < length ws" by (simp add: less_mult_imp_div_less mult.commute)
  then show "bit (uval ws) k \<longleftrightarrow> bit v k" using v assms(1) [of "k div 64" "k mod 64"] by (auto simp: bit_uval)
qed

lemma uint_bitwise_correct:
  assumes "length xs = length ys"
  shows "uval (uint_and xs ys) = and (uval xs) (uval ys)"
    and "uval (uint_or xs ys) = or (uval xs) (uval ys)"
    and "uval (uint_xor xs ys) = xor (uval xs) (uval ys)"
  using assms
  by (auto intro!: bit_eqI simp: bit_uval uint_and_def uint_or_def uint_xor_def bit_simps less_mult_imp_div_less mult.commute)

lemma uint_not_correct: "uval (uint_not xs) = 2 ^ (64 * length xs) - 1 - uval xs"
proof (induction xs)
  case (Cons x xs)
  have "not x = - 1 - x" by (simp add: not_eq_complement)
  then have n: "unat (not x) = 2 ^ 64 - 1 - unat x" by (simp add: unat_sub [OF word_order.extremum] unsigned_minus_1_eq_mask mask_eq_exp_minus_1)
  show ?case using Cons uval_less [of xs] unat_bound [of x] n by (simp add: uint_not_def power_add)
qed (simp add: uint_not_def)

text \<open>A shift by \<open>64 * a + c\<close> bits moves limbs by \<open>a\<close> and bits within them by \<open>c\<close>.\<close>

lemma shl_limb:
  assumes "b < 64" "c < 64" "i < length ws"
  shows "bit (or (if a \<le> i then push_bit c (ws ! (i - a)) else 0)
      (if 0 < c \<and> a + 1 \<le> i then drop_bit (64 - c) (ws ! (i - 1 - a)) else 0)) b
    \<longleftrightarrow> 64 * a + c \<le> 64 * i + b \<and> bit (uval ws) (64 * i + b - (64 * a + c))"
proof (cases "c \<le> b")
  case True
  have hi: "\<not> bit (drop_bit (64 - c) w) b" for w :: u64 using assms True by (auto simp: bit_simps dest: bit_imp_le_length)
  show ?thesis
  proof (cases "a \<le> i")
    case a: True
    then have "64 * i + b - (64 * a + c) = 64 * (i - a) + (b - c)" using True by (simp add: diff_mult_distrib2)
    then show ?thesis using a True assms hi bit_uval_at [of "b - c" ws "i - a"] by (auto simp: bit_simps)
  qed (use assms True in auto)
next
  case False
  show ?thesis
  proof (cases "a + 1 \<le> i")
    case a: True
    then obtain d where "i = a + 1 + d" using le_Suc_ex by blast
    then show ?thesis using False assms bit_uval_at [of "64 + b - c" ws d] by (auto simp: bit_simps algebra_simps)
  qed (use assms False in \<open>auto simp: bit_simps\<close>)
qed

lemma overflowing_shl_correct:
  fixes s :: nat and ws :: limbs
  defines "t \<equiv> s mod (64 * length ws)"
  shows "uval (fst (overflowing_shl ws s)) = uval ws * 2 ^ t mod 2 ^ (64 * length ws)"
    and "snd (overflowing_shl ws s) \<longleftrightarrow> 64 * length ws \<le> s"
    and "length (fst (overflowing_shl ws s)) = length ws"
proof -
  have len: "length (fst (overflowing_shl ws s)) = length ws" by (simp add: overflowing_shl_def Let_def)
  have ret: "fst (overflowing_shl ws s) ! i = or (if t div 64 \<le> i then push_bit (t mod 64) (ws ! (i - t div 64)) else 0)
      (if 0 < t mod 64 \<and> t div 64 + 1 \<le> i then drop_bit (64 - t mod 64) (ws ! (i - 1 - t div 64)) else 0)" if "i < length ws" for i
    unfolding overflowing_shl_def Let_def t_def [symmetric] using that by simp
  have lt: "take_bit (64 * length ws) (push_bit t (uval ws)) < 2 ^ (64 * length ws)" by simp
  have "uval (fst (overflowing_shl ws s)) = take_bit (64 * length ws) (push_bit t (uval ws))"
  proof (rule uval_eqI)
    fix i b :: nat assume i: "i < length (fst (overflowing_shl ws s))" and b: "b < 64"
    then have "64 * i + b < 64 * length ws" using len by linarith
    then show "bit (fst (overflowing_shl ws s) ! i) b \<longleftrightarrow> bit (take_bit (64 * length ws) (push_bit t (uval ws))) (64 * i + b)"
      using ret [of i] i len shl_limb [OF b, of "t mod 64" i ws "t div 64"] by (simp add: bit_take_bit_iff bit_push_bit_iff)
  qed (simp only: len lt)
  then show "uval (fst (overflowing_shl ws s)) = uval ws * 2 ^ t mod 2 ^ (64 * length ws)"
    by (simp add: take_bit_nat_def push_bit_nat_def)
  show "length (fst (overflowing_shl ws s)) = length ws" by (rule len)
qed (simp add: overflowing_shl_def Let_def)

lemma shr_limb:
  assumes "b < 64" "c < 64"
  shows "bit (or (if i + a < length ws then drop_bit c (ws ! (i + a)) else 0)
      (if 0 < c \<and> i + a + 1 < length ws then push_bit (64 - c) (ws ! (i + a + 1)) else 0)) b
    \<longleftrightarrow> bit (uval ws) (64 * a + c + (64 * i + b))"
proof (cases "b + c < 64")
  case True
  then have eq: "64 * a + c + (64 * i + b) = 64 * (i + a) + (c + b)" and lt: "c + b < 64" by simp_all
  show ?thesis unfolding eq bit_uval_at [OF lt] using True by (auto simp: bit_simps)
next
  case False
  have hi: "\<not> bit (drop_bit c w) b" for w :: u64 using False by (auto simp: bit_simps dest: bit_imp_le_length)
  have eq: "64 * a + c + (64 * i + b) = 64 * (i + a + 1) + (c + b - 64)" and lt: "c + b - 64 < 64"
    using False assms by simp_all
  have "b - (64 - c) = c + b - 64" using assms by simp
  then show ?thesis unfolding eq bit_uval_at [OF lt] using False assms hi by (auto simp: bit_simps)
qed

lemma overflowing_shr_correct:
  fixes s :: nat and ws :: limbs
  defines "t \<equiv> s mod (64 * length ws)"
  shows "uval (fst (overflowing_shr ws s)) = uval ws div 2 ^ t"
    and "snd (overflowing_shr ws s) \<longleftrightarrow> 64 * length ws \<le> s"
    and "length (fst (overflowing_shr ws s)) = length ws"
proof -
  have len: "length (fst (overflowing_shr ws s)) = length ws" by (simp add: overflowing_shr_def Let_def)
  have ret: "fst (overflowing_shr ws s) ! i = or (if i + t div 64 < length ws then drop_bit (t mod 64) (ws ! (i + t div 64)) else 0)
      (if 0 < t mod 64 \<and> i + t div 64 + 1 < length ws then push_bit (64 - t mod 64) (ws ! (i + t div 64 + 1)) else 0)" if "i < length ws" for i
    unfolding overflowing_shr_def Let_def t_def [symmetric] using that by simp
  have lt: "drop_bit t (uval ws) < 2 ^ (64 * length ws)"
    using uval_less [of ws] div_le_dividend [of "uval ws" "2 ^ t"] by (simp add: drop_bit_nat_def del: div_le_dividend)
  have "uval (fst (overflowing_shr ws s)) = drop_bit t (uval ws)"
  proof (rule uval_eqI)
    fix i b :: nat assume i: "i < length (fst (overflowing_shr ws s))" and b: "b < 64"
    then show "bit (fst (overflowing_shr ws s) ! i) b \<longleftrightarrow> bit (drop_bit t (uval ws)) (64 * i + b)"
      using ret [of i] len shr_limb [OF b, of "t mod 64" i "t div 64" ws] by (simp add: bit_drop_bit_eq)
  qed (simp only: len lt)
  then show "uval (fst (overflowing_shr ws s)) = uval ws div 2 ^ t" by (simp add: drop_bit_nat_def)
  show "length (fst (overflowing_shr ws s)) = length ws" by (rule len)
qed (simp add: overflowing_shr_def Let_def)

section \<open>Order and size\<close>

lemma lex_cmp_correct:
  "length xs = length ys \<Longrightarrow> lex_cmp xs ys =
     (if uval (rev xs) < uval (rev ys) then Less else if uval (rev xs) = uval (rev ys) then Equal else Greater)"
proof (induction xs ys rule: list_induct2)
  case (Cons x xs y ys)
  let ?M = "2 ^ (64 * length xs) :: nat"
  have lt: "uval (rev xs) < ?M" "uval (rev ys) < ?M" using uval_less [of "rev xs"] uval_less [of "rev ys"] Cons.hyps by simp_all
  have less: "a + ?M * m < b + ?M * n" if "a < ?M" "m < n" for a b m n
  proof -
    have "a + ?M * m < ?M * Suc m" using that(1) by simp
    also have "\<dots> \<le> ?M * n" using that(2) by (intro mult_le_mono2) simp
    finally show ?thesis by simp
  qed
  consider "unat x < unat y" | "unat y < unat x" | "x = y" by (meson linorder_neqE_nat word_unat_eq_iff)
  then show ?case
  proof cases
    case 1
    then show ?thesis using less [OF lt(1) 1, of "uval (rev ys)"] Cons.hyps by (simp add: uval_append word_less_nat_alt)
  next
    case 2
    then show ?thesis using less [OF lt(2) 2, of "uval (rev xs)"] Cons.hyps by (simp add: uval_append word_less_nat_alt)
  next
    case 3
    then show ?thesis using Cons by (simp add: uval_append)
  qed
qed simp

lemma uint_cmp_correct:
  "length xs = length ys \<Longrightarrow> uint_cmp xs ys = (if uval xs < uval ys then Less else if uval xs = uval ys then Equal else Greater)"
  using lex_cmp_correct [of "rev xs" "rev ys"] by (simp add: uint_cmp_def)

lemma floorlog_unique: "\<lbrakk>2 ^ k \<le> x; x < 2 ^ Suc k\<rbrakk> \<Longrightarrow> floorlog 2 x = Suc k"
  by (meson antisym floorlog_ge_SucI floorlog_leI one_less_numeral_iff semiring_norm(76) zero_le)

lemma floorlog_high:
  assumes "a < 2 ^ m" "0 < b"
  shows "floorlog 2 (a + 2 ^ m * b) = m + floorlog 2 (b :: nat)"
proof -
  obtain k where k: "floorlog 2 b = Suc k" using assms(2) by (cases "floorlog 2 b") (auto simp: floorlog_eq_zero_iff)
  then have b: "2 ^ k \<le> b" "b < 2 ^ Suc k" using floorlog_bounds [of b 2] assms(2) by simp_all
  have "2 ^ (m + k) \<le> a + 2 ^ m * b" using b(1) by (simp add: power_add trans_le_add2)
  moreover have "a + 2 ^ m * b < 2 ^ Suc (m + k)"
  proof -
    have "a + 2 ^ m * b < 2 ^ m * Suc b" using assms(1) by simp
    also have "\<dots> \<le> 2 ^ m * 2 ^ Suc k" using b(2) by (intro mult_le_mono2) simp
    finally show ?thesis by (simp add: power_add)
  qed
  ultimately show ?thesis using k by (simp add: floorlog_unique)
qed

lemma uint_bits_snoc: "uint_bits (ws @ [w]) = (if w = 0 then uint_bits ws else 64 * (length ws + 1) - leading_zeros w)"
  by (simp add: uint_bits_def enumerate_append_eq)

text \<open>\<^verbatim>\<open>bits\<close> is the length of the binary representation.\<close>

lemma uint_bits_correct: "uint_bits ws = floorlog 2 (uval ws)"
proof (induction ws rule: rev_induct)
  case Nil
  show ?case by (simp add: uint_bits_def floorlog_def)
next
  case (snoc w ws)
  show ?case
  proof (cases "w = 0")
    case False
    have "floorlog 2 (unat w) \<le> 64" using unat_bound [of w] by (intro floorlog_leI) simp_all
    moreover have "0 < unat w" using False by (simp add: unat_gt_0)
    ultimately show ?thesis using False floorlog_high [OF uval_less [of ws], of "unat w"]
      by (simp add: uint_bits_snoc uval_append leading_zeros_def)
  qed (simp add: snoc uint_bits_snoc uval_append)
qed

section \<open>Division\<close>

lemma div_u64_loop_correct:
  assumes "0 < unat y" "rem < unat y" "div_u64_loop ds y rem = (qs, r)"
  shows "length qs = length ds \<and> r < unat y
    \<and> rem * 2 ^ (64 * length ds) + uval (rev ds) = uval (rev qs) * unat y + r"
  using assms(2,3)
proof (induction ds arbitrary: rem qs r)
  case (Cons d ds)
  define n where "n = rem * 2 ^ 64 + unat d"
  obtain qs' where q: "div_u64_loop ds y (n mod unat y) = (qs', r)" "qs = of_nat (n div unat y) # qs'"
    using Cons.prems(2) by (auto simp: n_def Let_def split: prod.splits)
  have IH: "length qs' = length ds" "r < unat y"
    "(n mod unat y) * 2 ^ (64 * length ds) + uval (rev ds) = uval (rev qs') * unat y + r"
    using Cons.IH [OF _ q(1)] assms(1) by simp_all
  have "Suc rem * 2 ^ 64 \<le> unat y * 2 ^ 64" using Cons.prems(1) by (intro mult_le_mono1) simp
  then have "n < 2 ^ 64 * unat y" using unat_bound [of d] by (simp add: n_def)
  then have "n div unat y < 2 ^ 64" by (rule less_mult_imp_div_less)
  then have d: "unat (of_nat (n div unat y) :: u64) = n div unat y" by (simp only: unat_of_nat64 mod_less)
  have "rem * 2 ^ (64 * length (d # ds)) + uval (rev (d # ds)) = uval (rev ds) + 2 ^ (64 * length ds) * n"
    by (simp add: n_def uval_append power_add algebra_simps)
  also have "\<dots> = uval (rev ds) + 2 ^ (64 * length ds) * (n div unat y * unat y + n mod unat y)" by (simp only: div_mult_mod_eq)
  finally have "rem * 2 ^ (64 * length (d # ds)) + uval (rev (d # ds)) =
      (uval (rev qs') + 2 ^ (64 * length ds) * (n div unat y)) * unat y + r"
    using IH(3) by (simp only: algebra_simps)
  then show ?case using IH(1,2) d unfolding q(2) by (simp add: uval_append)
qed simp

lemma div_rem_u64_correct:
  assumes "y \<noteq> 0"
  obtains q r where "div_rem_u64 ws y = Ok (q, r)" "length q = length ws" "uval q = uval ws div unat y" "unat r = uval ws mod unat y"
proof -
  obtain qs r where d: "div_u64_loop (rev ws) y 0 = (qs, r)" by fastforce
  have y: "0 < unat y" using assms by (simp add: unat_gt_0)
  have c: "length qs = length ws" "r < unat y" "uval ws = uval (rev qs) * unat y + r"
    using div_u64_loop_correct [OF y _ d] y by simp_all
  have "unat (of_nat r :: u64) = r" using c(2) unat_bound [of y] by (simp add: unat_of_nat64)
  then show ?thesis using that [of "rev qs" "of_nat r"] assms d c y by (simp add: div_rem_u64_def)
qed

text \<open>The bit \<open>s\<close> of the quotient, set where no lower bit is.\<close>

lemma uval_set_bit:
  assumes "s < 64 * length ws" "2 ^ Suc s dvd uval ws"
  shows "uval (ws[s div 64 := or (ws ! (s div 64)) (push_bit (s mod 64) 1)]) = uval ws + 2 ^ s"
proof -
  have i: "s div 64 < length ws" using assms(1) by (simp add: less_mult_imp_div_less mult.commute)
  have "\<not> bit (uval ws) s"
    using assms(2) by (auto simp: bit_iff_odd elim!: dvdE)
  then have b: "\<not> bit (ws ! (s div 64)) (s mod 64)" using assms(1) by (simp add: bit_uval)
  have "unat (push_bit (s mod 64) 1 :: u64) = 2 ^ (s mod 64)"
  proof -
    have "2 ^ (s mod 64) < (2 :: nat) ^ 64" by (intro power_strict_increasing) simp_all
    then have "unat (of_nat (2 ^ (s mod 64)) :: u64) = 2 ^ (s mod 64)" by (simp only: unat_of_nat64 mod_less)
    then show ?thesis by simp
  qed
  moreover have "and (unat (ws ! (s div 64))) (2 ^ (s mod 64)) = 0"
    using b by (intro bit_eqI) (auto simp: bit_simps bit_exp_iff)
  ultimately have "unat (or (ws ! (s div 64)) (push_bit (s mod 64) 1)) = unat (ws ! (s div 64)) + 2 ^ (s mod 64)"
    by (simp add: unsigned_or_eq disjunctive_add_eq_or)
  then have "uval (ws[s div 64 := or (ws ! (s div 64)) (push_bit (s mod 64) 1)]) = uval ws + 2 ^ (64 * (s div 64)) * 2 ^ (s mod 64)"
    using uval_update [OF i, of "or (ws ! (s div 64)) (push_bit (s mod 64) 1)"] by (simp add: algebra_simps)
  then show ?thesis by (simp add: power_add [symmetric])
qed

declare div_loop.simps [simp del]

lemma uint_cmp_Less: "length xs = length ys \<Longrightarrow> uint_cmp xs ys = Less \<longleftrightarrow> uval xs < uval ys"
  by (simp add: uint_cmp_correct)

text \<open>One round of the long division keeps quotient and remainder.\<close>

lemma div_step:
  assumes d: "0 < d" and len: "length a = length b" "length ret = length b" and s: "s < 64 * length b"
    and v: "uval b = d * 2 ^ s" "uval a < d * 2 ^ Suc s" "2 ^ Suc s dvd uval ret"
    and st: "(a', ret') = (if uint_cmp a b \<noteq> Less
         then (fst (overflowing_sub a b), ret[s div 64 := or (ret ! (s div 64)) (push_bit (s mod 64) 1)])
         else (a, ret))"
  shows "length a' = length b" "length ret' = length b" "uval a' < d * 2 ^ s" "2 ^ s dvd uval ret'"
    "uval ret' + uval a' div d = uval ret + uval a div d" "uval a' mod d = uval a mod d"
proof -
  have dvd: "2 ^ s dvd uval ret" using v(3) power_le_dvd le_SucI by blast
  show "length a' = length b" "length ret' = length b"
    using st len overflowing_sub_correct(3) [of a b] by (auto split: if_splits)
  have "uval a' < d * 2 ^ s \<and> 2 ^ s dvd uval ret' \<and> uval ret' + uval a' div d = uval ret + uval a div d \<and> uval a' mod d = uval a mod d"
  proof (cases "uval a < d * 2 ^ s")
    case True
    then show ?thesis
      using st dvd len by (simp add: uint_cmp_Less v(1))
  next
    case False
    have "uval a < 2 ^ (64 * length b)" using uval_less [of a] len by simp
    then have a': "uval a' = uval a - d * 2 ^ s"
      using st len False overflowing_sub_correct(2) [of a b] by (simp add: uint_cmp_Less v(1) mod_if)
    have ret': "uval ret' = uval ret + 2 ^ s"
      using st len False uval_set_bit [of s ret] s v(3) by (simp add: uint_cmp_Less v(1))
    have a: "uval a = uval a' + 2 ^ s * d" using a' False by simp
    then show ?thesis
      using v(2) dvd d ret' by simp
  qed
  then show "uval a' < d * 2 ^ s" "2 ^ s dvd uval ret'"
    "uval ret' + uval a' div d = uval ret + uval a div d" "uval a' mod d = uval a mod d" by simp_all
qed

lemma div_loop_correct:
  assumes "0 < d" "length a = n" "length b = n" "length ret = n" "s < 64 * n"
    and "uval b = d * 2 ^ s" "uval a < d * 2 ^ Suc s" "2 ^ Suc s dvd uval ret"
    and "div_loop s a b ret = (q, r)"
  shows "length q = n \<and> length r = n \<and> uval q = uval ret + uval a div d \<and> uval r = uval a mod d"
  using assms(2-)
proof (induction s arbitrary: a b ret)
  case 0
  obtain a' ret' where st: "(a', ret') = (if uint_cmp a b \<noteq> Less
         then (fst (overflowing_sub a b), ret[0 div 64 := or (ret ! (0 div 64)) (push_bit (0 mod 64) 1)])
         else (a, ret))" by (metis surj_pair)
  have "q = ret'" "r = a'" using 0(8) unfolding div_loop.simps [of 0] st [symmetric] by simp_all
  then show ?case using div_step [OF assms(1) _ _ _ 0(5) 0(6) 0(7) st] 0(1-4) by simp
next
  case (Suc s)
  obtain a' ret' where st: "(a', ret') = (if uint_cmp a b \<noteq> Less
         then (fst (overflowing_sub a b), ret[Suc s div 64 := or (ret ! (Suc s div 64)) (push_bit (Suc s mod 64) 1)])
         else (a, ret))" by (metis surj_pair)
  have rest: "div_loop s a' (fst (overflowing_shr b 1)) ret' = (q, r)"
    using Suc.prems(8) unfolding div_loop.simps [of "Suc s"] st [symmetric] by simp
  note step = div_step [OF assms(1) _ _ _ Suc.prems(5) Suc.prems(6) Suc.prems(7) st]
  have b: "uval (fst (overflowing_shr b 1)) = d * 2 ^ s" "length (fst (overflowing_shr b 1)) = n"
    using overflowing_shr_correct [of b 1] Suc.prems(2,4,5) by simp_all
  show ?case using Suc.IH [OF _ b(2) _ _ b(1) _ _ rest] step Suc.prems(1-4) by simp
qed

lemma div_rem_correct:
  assumes "length xs = length ys" "uval ys \<noteq> 0"
  obtains q r where "div_rem xs ys = Ok (q, r)" "length q = length xs" "length r = length xs"
    "uval q = uval xs div uval ys" "uval r = uval xs mod uval ys"
proof (cases "uint_bits xs < uint_bits ys")
  case True
  then have "\<not> uval ys \<le> uval xs" using floorlog_mono [of "uval ys" "uval xs" 2] by (auto simp: uint_bits_correct)
  then show ?thesis using that [of "replicate (length xs) 0" xs] True assms by (simp add: div_rem_def uint_bits_correct floorlog_eq_zero_iff)
next
  case False
  obtain s where s0: "uint_bits xs = uint_bits ys + s" using le_Suc_ex [of "uint_bits ys" "uint_bits xs"] False by auto
  define b where "b = fst (overflowing_shl ys s)"
  obtain q r where qr: "div_loop s xs b (replicate (length xs) 0) = (q, r)" by fastforce
  have y: "0 < uval ys" "0 < uint_bits ys" using assms(2) floorlog_eq_zero_iff [of 2 "uval ys"] by (auto simp: uint_bits_correct)
  have x: "uint_bits xs \<le> 64 * length xs" unfolding uint_bits_correct by (rule floorlog_leI) (simp_all add: uval_less)
  have s: "s < 64 * length xs" "uint_bits xs = uint_bits ys + s" using x y(2) s0 by simp_all
  have lt: "uval ys * 2 ^ s < 2 ^ (64 * length xs)"
  proof -
    have "uval ys < 2 ^ uint_bits ys" using floorlog_bounds [of "uval ys" 2] y(1) by (simp add: uint_bits_correct)
    then have "uval ys * 2 ^ s < 2 ^ uint_bits xs" unfolding s(2) by (simp add: power_add)
    also have "\<dots> \<le> 2 ^ (64 * length xs)" by (rule power_increasing [OF x]) (rule one_le_numeral)
    finally show ?thesis .
  qed
  have b: "uval b = uval ys * 2 ^ s" "length b = length xs"
    using overflowing_shl_correct(1,3) [of ys s] unfolding b_def assms(1) [symmetric] mod_less [OF s(1)] mod_less [OF lt] by simp_all
  have a: "uval xs < uval ys * 2 ^ Suc s"
  proof -
    have "uval xs < 2 ^ uint_bits xs" by (cases "uval xs = 0") (use floorlog_bounds [of "uval xs" 2] in \<open>simp_all add: uint_bits_correct\<close>)
    also have "uint_bits xs = (uint_bits ys - 1) + Suc s" using s(2) y(2) by simp
    also have "(2 :: nat) ^ ((uint_bits ys - 1) + Suc s) = 2 ^ (uint_bits ys - 1) * 2 ^ Suc s" by (rule power_add)
    also have "\<dots> \<le> uval ys * 2 ^ Suc s" using floorlog_bounds [of "uval ys" 2] y(1) by (intro mult_le_mono1) (simp add: uint_bits_correct)
    finally show ?thesis .
  qed
  have "length q = length xs \<and> length r = length xs \<and> uval q = uval (replicate (length xs) 0) + uval xs div uval ys \<and> uval r = uval xs mod uval ys"
    by (rule div_loop_correct [OF y(1) refl b(2) _ s(1) b(1) a _ qr]) simp_all
  then show ?thesis using that [of q r] s0 y(2) qr by (simp add: div_rem_def b_def)
qed

section \<open>Byte encodings\<close>

lemma length_uint_to_le_bytes: "length (uint_to_le_bytes ws) = 8 * length ws"
  by (induction ws) (simp_all add: uint_to_le_bytes_def)

lemma uint_to_be_bytes_rev: "uint_to_be_bytes ws = rev (uint_to_le_bytes ws)"
  by (simp add: uint_to_be_bytes_def uint_to_le_bytes_def rev_concat rev_map comp_def)

lemma le_value_append: "le_value (xs @ ys) = le_value xs + 256 ^ length xs * le_value ys"
  by (induction xs) (simp_all add: algebra_simps)

lemma le_value_uint: "le_value (uint_to_le_bytes ws) = uval ws"
proof (induction ws)
  case (Cons w ws)
  have "unat w < 256 ^ 8" using unat_bound [of w] by simp
  then show ?case using Cons by (simp add: uint_to_le_bytes_def le_value_append le_value_to_le_bytes)
qed (simp add: uint_to_le_bytes_def)

lemma uint_le_bytes_round_trip: "uint_from_le_bytes (length ws) (uint_to_le_bytes ws) = ws"
proof (induction ws)
  case (Cons w ws)
  have "unat w < 256 ^ 8" using unat_bound [of w] by simp
  then have w: "le_value (to_le_bytes 8 (unat w)) = unat w" by (rule le_value_to_le_bytes)
  have "uint_from_le_bytes (Suc (length ws)) (uint_to_le_bytes (w # ws)) = w # uint_from_le_bytes (length ws) (uint_to_le_bytes ws)"
    unfolding uint_from_le_bytes_def upt_conv_Cons [OF zero_less_Suc] map_Suc_upt [symmetric]
    by (simp add: uint_to_le_bytes_def w drop_append)
  then show ?case using Cons by simp
qed (simp add: uint_from_le_bytes_def)

lemma uint_from_be_rev: "length bs = 8 * n \<Longrightarrow> uint_from_be_bytes n bs = uint_from_le_bytes n (rev bs)"
proof -
  assume len: "length bs = 8 * n"
  have "take 8 (drop (8 * i) (rev bs)) = rev (take 8 (drop (8 * (n - Suc i)) bs))" if i: "i < n" for i
  proof -
    obtain d where "n = Suc i + d" using le_Suc_ex [of "Suc i" n] i by auto
    then show ?thesis using len by (simp add: drop_rev take_rev drop_take)
  qed
  then show ?thesis
    by (intro nth_equalityI) (simp_all add: uint_from_be_bytes_def uint_from_le_bytes_def rev_nth)
qed

lemma uint_be_bytes_round_trip: "uint_from_be_bytes (length ws) (uint_to_be_bytes ws) = ws"
  by (simp add: uint_from_be_rev uint_to_be_bytes_rev length_uint_to_le_bytes uint_le_bytes_round_trip)

section \<open>Properties\<close>

text \<open>C38. The fixed-size integers are arithmetic modulo a power of two: on integers with the same
  number of limbs, addition, subtraction and multiplication give the result modulo \<open>2 ^ (64 * n)\<close>,
  addition and subtraction report exactly whether the true result is out of range, the shifts
  multiply and divide by the power of two reduced modulo the width, and the comparison is the
  comparison of values.\<close>

theorem uint_arithmetic_exact:
  assumes "length xs = length ys"
  defines "M \<equiv> 2 ^ (64 * length xs)"
  shows "uval (fst (overflowing_add xs ys)) = (uval xs + uval ys) mod M
    \<and> (snd (overflowing_add xs ys) \<longleftrightarrow> M \<le> uval xs + uval ys)
    \<and> uval (fst (overflowing_sub xs ys)) = (uval xs + M - uval ys) mod M
    \<and> (snd (overflowing_sub xs ys) \<longleftrightarrow> uval xs < uval ys)
    \<and> uval (fst (overflowing_mul xs ys)) = uval xs * uval ys mod M
    \<and> uval (fst (overflowing_shl xs s)) = uval xs * 2 ^ (s mod (64 * length xs)) mod M
    \<and> uval (fst (overflowing_shr xs s)) = uval xs div 2 ^ (s mod (64 * length xs))
    \<and> uint_cmp xs ys = (if uval xs < uval ys then Less else if uval xs = uval ys then Equal else Greater)"
  using overflowing_add_correct [OF assms(1)] overflowing_sub_correct [OF assms(1)] overflowing_mul_correct(1) [OF assms(1) [symmetric]]
    overflowing_shl_correct(1) [of xs s] overflowing_shr_correct(1) [of xs s] uint_cmp_correct [OF assms(1)]
  unfolding M_def by (intro conjI) assumption+

theorem uint_arithmetic_exact_witness:
  "length [- 1, 3 :: u64] = length [5, 7 :: u64]
   \<and> uval (fst (overflowing_mul [- 1, 3] [5, 7])) = uval [- 1, 3] * uval [5, 7] mod 2 ^ 128"
  using uint_arithmetic_exact [of "[- 1, 3]" "[5, 7]" 0] by simp

text \<open>C39. Long division terminates on every input and is exact: it panics when the divisor is zero and
  otherwise returns the quotient and the remainder of the values.\<close>

theorem div_rem_exact:
  assumes "length xs = length ys"
  shows "if uval ys = 0 then div_rem xs ys = Panic
    else \<exists>q r. div_rem xs ys = Ok (q, r) \<and> length q = length xs \<and> length r = length xs
      \<and> uval q = uval xs div uval ys \<and> uval r = uval xs mod uval ys"
proof (cases "uval ys = 0")
  case True
  then show ?thesis by (simp add: div_rem_def uint_bits_correct floorlog_def)
next
  case False
  from div_rem_correct [OF assms this] show ?thesis using False by metis
qed

theorem div_rem_exact_witness:
  "\<exists>q r. div_rem [5, 9] [3, 0 :: u64] = Ok (q, r) \<and> length q = length [5, 9 :: u64] \<and> length r = length [5, 9 :: u64]
    \<and> uval q = uval [5, 9] div 3 \<and> uval r = uval [5, 9] mod 3"
  using div_rem_exact [of "[5, 9]" "[3, 0]"] by simp

lemma mul_overflow_missed: "overflowing_mul [0, 1, 0, 0] [0, 0, 0, 1] = ([0, 0, 0, 0], False)"
  by (simp add: overflowing_mul_def)

text \<open>C40. The overflow flag of the product is sound but not complete. When it is set the product does
  not fit. When two factors have limbs whose product starts beyond the result, the loop never looks
  at it: \<open>2 ^ 64 * 2 ^ 192\<close> in 256 bits is zero with the flag clear.\<close>

theorem overflowing_mul_flag:
  "(length ys = length xs \<longrightarrow> snd (overflowing_mul xs ys) \<longrightarrow> 2 ^ (64 * length xs) \<le> uval xs * uval ys)
   \<and> overflowing_mul [0, 1, 0, 0] [0, 0, 0, 1] = ([0, 0, 0, 0], False)
   \<and> 2 ^ 256 \<le> uval [0, 1, 0, 0] * uval [0, 0, 0, 1]"
  using overflowing_mul_correct(2) [of ys xs] mul_overflow_missed by simp

theorem overflowing_mul_flag_witness:
  "length [0x8000000000000000 :: u64] = length [2 :: u64]
   \<and> snd (overflowing_mul [0x8000000000000000] [2]) \<and> (2 :: nat) ^ 64 \<le> uval [0x8000000000000000] * uval [2]"
  using overflowing_mul_flag [of "[2]" "[0x8000000000000000]"]
  by (simp add: overflowing_mul_def)

end
