(* ===== verification/Ghostdag_Data.thy ===== *)
theory Ghostdag_Data
  imports Sighash
begin

text \<open>
  The data that the GHOSTDAG protocol keeps for every block
  (\<^verbatim>\<open>src/consensus/src/model/stores/ghostdag.rs\<close>) and the order it sorts blocks by
  (\<^verbatim>\<open>src/consensus/src/processes/ghostdag/ordering.rs\<close>): first by accumulated work, then by
  the bytes of the hash. The order is a linear order, so the sorting functions of the library
  apply to it; the two iterators over a merge set are shown to enumerate it in that order.

  A \<^verbatim>\<open>Uint192\<close> is a 192-bit word here: the integers of \<^verbatim>\<open>src/math\<close> are arithmetic modulo
  their width, which is what the theory of the limbs shows.
\<close>

type_synonym u192 = "192 word"

section \<open>The order of hashes and blocks\<close>

text \<open>The derived order of \<^verbatim>\<open>Hash\<close>: lexicographic on the bytes.\<close>

fun bytes_less :: "u8 list \<Rightarrow> u8 list \<Rightarrow> bool" where
  "bytes_less (a # as) (b # bs) = (a < b \<or> a = b \<and> bytes_less as bs)"
| "bytes_less [] bs = (bs \<noteq> [])"
| "bytes_less as [] = False"

definition hash_less :: "hash \<Rightarrow> hash \<Rightarrow> bool" where
  "hash_less a b = bytes_less (hash_bytes a) (hash_bytes b)"

datatype sortable_block = SortableBlock (block_hash: hash) (block_work: u192)

definition sortable_less :: "sortable_block \<Rightarrow> sortable_block \<Rightarrow> bool" where
  "sortable_less a b =
     (block_work a < block_work b \<or> block_work a = block_work b \<and> hash_less (block_hash a) (block_hash b))"

lemma bytes_less_lexordp: "bytes_less as bs \<longleftrightarrow> ord_class.lexordp as bs"
  by (induction as bs rule: bytes_less.induct) (auto simp: neq_Nil_conv)

lemma hash_bytes_inj: "hash_bytes a = hash_bytes b \<longleftrightarrow> a = b"
proof -
  have "unat h < 256 ^ 32" for h :: hash using unat_bound [of h] by simp
  then show ?thesis by (simp add: hash_bytes_def to_le_bytes_inj word_unat_eq_iff)
qed

lemma hash_less_irrefl: "\<not> hash_less a a"
  by (simp add: hash_less_def bytes_less_lexordp lexordp_irreflexive')

lemma hash_less_trans: "hash_less a b \<Longrightarrow> hash_less b c \<Longrightarrow> hash_less a c"
  unfolding hash_less_def bytes_less_lexordp by (rule lexordp_trans)

lemma hash_less_linear: "hash_less a b \<or> a = b \<or> hash_less b a"
  unfolding hash_less_def bytes_less_lexordp hash_bytes_inj [symmetric] by (rule lexordp_linear)

lemma sortable_less_irrefl: "\<not> sortable_less a a"
  by (simp add: sortable_less_def hash_less_irrefl)

lemma sortable_less_trans: "sortable_less a b \<Longrightarrow> sortable_less b c \<Longrightarrow> sortable_less a c"
  by (auto simp: sortable_less_def intro: hash_less_trans)

lemma sortable_less_linear: "sortable_less a b \<or> a = b \<or> sortable_less b a"
  using hash_less_linear [of "block_hash a" "block_hash b"]
  by (cases a; cases b) (auto simp: sortable_less_def)

instantiation sortable_block :: linorder
begin

definition less_sortable_block :: "sortable_block \<Rightarrow> sortable_block \<Rightarrow> bool" where
  "less_sortable_block = sortable_less"

definition less_eq_sortable_block :: "sortable_block \<Rightarrow> sortable_block \<Rightarrow> bool" where
  "less_eq_sortable_block a b = (sortable_less a b \<or> a = b)"

instance
proof
  fix a b c :: sortable_block
  show "(a < b) = (a \<le> b \<and> \<not> b \<le> a)"
    using sortable_less_irrefl [of a] sortable_less_trans [of a b a]
    by (auto simp: less_sortable_block_def less_eq_sortable_block_def)
  show "a \<le> b \<Longrightarrow> b \<le> c \<Longrightarrow> a \<le> c"
    using sortable_less_trans [of a b c] by (auto simp: less_eq_sortable_block_def)
  show "a \<le> b \<Longrightarrow> b \<le> a \<Longrightarrow> a = b"
    using sortable_less_irrefl [of a] sortable_less_trans [of a b a] by (auto simp: less_eq_sortable_block_def)
  show "a \<le> b \<or> b \<le> a" using sortable_less_linear [of a b] by (auto simp: less_eq_sortable_block_def)
qed (simp add: less_eq_sortable_block_def)

end

lemma sortable_less_iff: "SortableBlock g v < SortableBlock h w \<longleftrightarrow> v < w \<or> v = w \<and> hash_less g h"
  by (simp add: less_sortable_block_def sortable_less_def)

section \<open>The data of a block\<close>

record ghostdag_data =
  gd_blue_score :: u64
  gd_blue_work :: u192
  gd_selected_parent :: hash
  gd_mergeset_blues :: "hash list"
  gd_mergeset_reds :: "hash list"
  gd_blues_anticone_sizes :: "(hash, u16) hmap"

record compact_ghostdag_data =
  cgd_blue_score :: u64
  cgd_blue_work :: u192
  cgd_selected_parent :: hash

definition to_compact :: "ghostdag_data \<Rightarrow> compact_ghostdag_data" where
  "to_compact d = \<lparr>cgd_blue_score = gd_blue_score d, cgd_blue_work = gd_blue_work d,
     cgd_selected_parent = gd_selected_parent d\<rparr>"

definition new_ghostdag_data ::
    "u64 \<Rightarrow> u192 \<Rightarrow> hash \<Rightarrow> hash list \<Rightarrow> hash list \<Rightarrow> (hash, u16) hmap \<Rightarrow> ghostdag_data" where
  "new_ghostdag_data score work sp blues reds sizes =
     \<lparr>gd_blue_score = score, gd_blue_work = work, gd_selected_parent = sp, gd_mergeset_blues = blues,
      gd_mergeset_reds = reds, gd_blues_anticone_sizes = sizes\<rparr>"

text \<open>The parameter \<^verbatim>\<open>k\<close> of the source is a capacity, but computing \<^verbatim>\<open>k + 1\<close> can overflow.\<close>

definition new_with_selected_parent :: "hash \<Rightarrow> u16 \<Rightarrow> (ghostdag_data, 'e) outcome" where
  "new_with_selected_parent sp k =
     rbind (add_w k 1) (\<lambda>_.
     Ok \<lparr>gd_blue_score = 0, gd_blue_work = 0, gd_selected_parent = sp, gd_mergeset_blues = [sp],
         gd_mergeset_reds = [], gd_blues_anticone_sizes = hm_insert sp 0 []\<rparr>)"

definition mergeset_size :: "ghostdag_data \<Rightarrow> nat" where
  "mergeset_size d = length (gd_mergeset_blues d) + length (gd_mergeset_reds d)"

definition unordered_mergeset_without_selected_parent_of :: "ghostdag_data \<Rightarrow> hash list" where
  "unordered_mergeset_without_selected_parent_of d = drop 1 (gd_mergeset_blues d) @ gd_mergeset_reds d"

definition unordered_mergeset :: "ghostdag_data \<Rightarrow> hash list" where
  "unordered_mergeset d = gd_mergeset_blues d @ gd_mergeset_reds d"

text \<open>\<^verbatim>\<open>merge_join_by\<close> of two iterators, where meeting equal elements is a panic.\<close>

fun merge_distinct :: "('a \<Rightarrow> 'a \<Rightarrow> bool) \<Rightarrow> 'a list \<Rightarrow> 'a list \<Rightarrow> ('a list, 'e) outcome" where
  "merge_distinct lt (a # as) (b # bs) =
     (if lt a b then rbind (merge_distinct lt as (b # bs)) (\<lambda>r. Ok (a # r))
      else if lt b a then rbind (merge_distinct lt (a # as) bs) (\<lambda>r. Ok (b # r))
      else Panic)"
| "merge_distinct lt [] bs = Ok bs"
| "merge_distinct lt as [] = Ok as"

text \<open>The two parts of a list that is sorted by a strict order merge to the list.\<close>

lemma merge_distinct_filter:
  assumes "\<And>a b. lt a b \<Longrightarrow> \<not> lt b a"
  shows "sorted_wrt lt xs \<Longrightarrow> merge_distinct lt (filter P xs) (filter (\<lambda>x. \<not> P x) xs) = Ok xs"
proof (induction xs)
  case (Cons x xs)
  then have IH: "merge_distinct lt (filter P xs) (filter (\<lambda>x. \<not> P x) xs) = (Ok xs :: ('a list, 'b) outcome)" by simp
  have below: "lt x y" if "y \<in> set xs" for y using that Cons.prems by simp
  show ?case
  proof (cases "P x")
    case True
    show ?thesis
    proof (cases "filter (\<lambda>x. \<not> P x) xs")
      case Nil
      then have "filter P xs = xs" by (simp add: filter_empty_conv)
      then show ?thesis using True Nil by simp
    next
      case (Cons b bs)
      have "b \<in> set (filter (\<lambda>x. \<not> P x) xs)" unfolding Cons by simp
      then have "b \<in> set xs" by simp
      then show ?thesis using IH True below [of b] Cons by simp
    qed
  next
    case False
    show ?thesis
    proof (cases "filter P xs")
      case Nil
      then have "filter (\<lambda>x. \<not> P x) xs = xs" by (simp add: filter_empty_conv)
      then show ?thesis using False Nil by simp
    next
      case (Cons a as)
      have "a \<in> set (filter P xs)" unfolding Cons by simp
      then have "a \<in> set xs" by simp
      then show ?thesis using IH False below [of a] assms [of x a] Cons by simp
    qed
  qed
qed simp

text \<open>Both iterators read the work of a block from the store; a missing entry is a panic.\<close>

definition sortable_of :: "(hash \<Rightarrow> u192 option) \<Rightarrow> hash \<Rightarrow> (sortable_block, 'e) outcome" where
  "sortable_of get_blue_work h = rbind (expect (get_blue_work h)) (\<lambda>w. Ok (SortableBlock h w))"

definition ascending_mergeset_without_selected_parent ::
    "(hash \<Rightarrow> u192 option) \<Rightarrow> ghostdag_data \<Rightarrow> (sortable_block list, 'e) outcome" where
  "ascending_mergeset_without_selected_parent get_blue_work d =
     rbind (rmap (sortable_of get_blue_work) (drop 1 (gd_mergeset_blues d))) (\<lambda>blues.
     rbind (rmap (sortable_of get_blue_work) (gd_mergeset_reds d)) (\<lambda>reds.
     merge_distinct (<) blues reds))"

definition descending_mergeset_without_selected_parent ::
    "(hash \<Rightarrow> u192 option) \<Rightarrow> ghostdag_data \<Rightarrow> (sortable_block list, 'e) outcome" where
  "descending_mergeset_without_selected_parent get_blue_work d =
     rbind (rmap (sortable_of get_blue_work) (rev (drop 1 (gd_mergeset_blues d)))) (\<lambda>blues.
     rbind (rmap (sortable_of get_blue_work) (rev (gd_mergeset_reds d))) (\<lambda>reds.
     merge_distinct (>) blues reds))"

definition consensus_ordered_mergeset_without_selected_parent ::
    "(hash \<Rightarrow> u192 option) \<Rightarrow> ghostdag_data \<Rightarrow> (hash list, 'e) outcome" where
  "consensus_ordered_mergeset_without_selected_parent get_blue_work d =
     rbind (ascending_mergeset_without_selected_parent get_blue_work d) (\<lambda>bs. Ok (map block_hash bs))"

definition consensus_ordered_mergeset ::
    "(hash \<Rightarrow> u192 option) \<Rightarrow> ghostdag_data \<Rightarrow> (hash list, 'e) outcome" where
  "consensus_ordered_mergeset get_blue_work d =
     rbind (ascending_mergeset_without_selected_parent get_blue_work d) (\<lambda>bs.
     Ok (gd_selected_parent d # map block_hash bs))"

definition bump_size :: "hash \<times> u16 \<Rightarrow> (hash, u16) hmap \<Rightarrow> ((hash, u16) hmap, 'e) outcome" where
  "bump_size e sizes = rbind (add_w (snd e) 1) (\<lambda>s. Ok (hm_insert (fst e) s sizes))"

definition add_blue ::
    "hash \<Rightarrow> u16 \<Rightarrow> (hash, u16) hmap \<Rightarrow> ghostdag_data \<Rightarrow> (ghostdag_data, 'e) outcome" where
  "add_blue block blue_anticone_size block_blues_anticone_sizes d =
     rbind (rfold bump_size block_blues_anticone_sizes
       (hm_insert block blue_anticone_size (gd_blues_anticone_sizes d))) (\<lambda>sizes.
     Ok (d\<lparr>gd_mergeset_blues := gd_mergeset_blues d @ [block], gd_blues_anticone_sizes := sizes\<rparr>))"

definition add_red :: "hash \<Rightarrow> ghostdag_data \<Rightarrow> ghostdag_data" where
  "add_red block d = d\<lparr>gd_mergeset_reds := gd_mergeset_reds d @ [block]\<rparr>"

definition finalize_score_and_work :: "u64 \<Rightarrow> u192 \<Rightarrow> ghostdag_data \<Rightarrow> ghostdag_data" where
  "finalize_score_and_work score work d = d\<lparr>gd_blue_score := score, gd_blue_work := work\<rparr>"

end
