(* ===== verification/Difficulty.thy ===== *)
theory Difficulty
  imports Uint Ghostdag_Data "HOL-Library.Multiset"
begin

text \<open>
  Targets, work and the difficulty adjustment: the compact form of a target and its inverse
  (\<^verbatim>\<open>src/math/src/lib.rs\<close>), the work of a block and the sampled difficulty manager
  (\<^verbatim>\<open>src/consensus/src/processes/difficulty.rs\<close>). A \<^verbatim>\<open>Uint256\<close> has four limbs and a \<^verbatim>\<open>Uint320\<close>
  five; work leaves the limbs as a 192-bit word. The theorems give the value that every one of
  these functions computes, its bounds and where it panics.
\<close>

section \<open>Compact targets\<close>

definition from_compact_target_bits :: "u32 \<Rightarrow> limbs" where
  "from_compact_target_bits bits =
     (let unshifted_expt = unat (drop_bit 24 bits);
          (mant, expt) =
            (if unshifted_expt \<le> 3
             then (drop_bit (8 * (3 - unshifted_expt)) (and bits 0xFFFFFF), 0)
             else (and bits 0xFFFFFF, 8 * (unshifted_expt - 3)))
      in if 0x7FFFFF < mant then replicate 4 0
         else fst (overflowing_shl (uint_from_u64 4 (ucast mant)) expt))"

definition compact_target_bits :: "limbs \<Rightarrow> u32" where
  "compact_target_bits ws =
     (let size = (uint_bits ws + 7) div 8;
          compact = (if size \<le> 3 then ucast (push_bit (8 * (3 - size)) (uint_as_u64 ws))
                     else ucast (uint_as_u64 (fst (overflowing_shr ws (8 * (size - 3))))) :: u32);
          (compact, size) = (if and compact 0x800000 \<noteq> 0 then (drop_bit 8 compact, size + 1) else (compact, size))
      in or compact (push_bit 24 (of_nat size)))"

definition uint320_of_uint256 :: "limbs \<Rightarrow> limbs" where
  "uint320_of_uint256 ws = ws @ [0]"

definition uint256_try_from :: "limbs \<Rightarrow> limbs option" where
  "uint256_try_from ws = (if ws ! 4 \<noteq> 0 then None else Some (take 4 ws))"

definition uint192_try_from :: "limbs \<Rightarrow> limbs option" where
  "uint192_try_from ws = (if ws ! 3 \<noteq> 0 then None else Some (take 3 ws))"

text \<open>A \<^verbatim>\<open>Uint192\<close> as a word.\<close>

definition u192_of :: "limbs \<Rightarrow> u192" where
  "u192_of ws = of_nat (uval ws)"

section \<open>Work\<close>

definition MAX_WORK_LEVEL :: nat where
  "MAX_WORK_LEVEL = 128"

text \<open>The operators \<open>/\<close> and \<open>+ 1\<close> on \<^verbatim>\<open>Uint256\<close>; the sum wraps in a release build.\<close>

definition calc_work :: "u32 \<Rightarrow> (u192, 'e) outcome" where
  "calc_work bits =
     (let target = from_compact_target_bits bits in
      rbind (div_rem (uint_not target) (fst (overflowing_add_u64 target 1))) (\<lambda>(q, _).
      rbind (expect (uint192_try_from (fst (overflowing_add_u64 q 1)))) (\<lambda>res.
      Ok (u192_of res))))"

definition level_work :: "u8 \<Rightarrow> u8 \<Rightarrow> u192" where
  "level_work level max_block_level =
     (if level = 0 then 0
      else let exp = unat level + 256 - unat max_block_level
           in u192_of (fst (overflowing_shl (uint_from_u64 3 1) (min exp MAX_WORK_LEVEL))))"

section \<open>The sampled difficulty manager\<close>

record difficulty_block =
  db_timestamp :: u64
  db_bits :: u32
  db_sortable_block :: sortable_block

definition difficulty_block_less :: "difficulty_block \<Rightarrow> difficulty_block \<Rightarrow> bool" where
  "difficulty_block_less a b =
     (db_timestamp a < db_timestamp b
      \<or> db_timestamp a = db_timestamp b \<and> db_sortable_block a < db_sortable_block b)"

datatype difficulty_error = UnderMinWindowSizeAllowed nat nat | InsufficientWindowData nat | EmptyTimestampRange

record header_store =
  get_compact_header_data :: "hash \<Rightarrow> (u64 \<times> u32) option"
  get_bits :: "hash \<Rightarrow> u32 option"
  get_daa_score :: "hash \<Rightarrow> u64 option"

record difficulty_manager =
  dm_genesis_hash :: hash
  dm_genesis_bits :: u32
  dm_max_difficulty_target :: limbs
  dm_difficulty_window_size :: u64
  dm_min_difficulty_window_size :: u64
  dm_difficulty_sample_rate :: u64
  dm_target_time_per_block :: u64

text \<open>The constructor asserts the order of the window sizes and widens the target.\<close>

definition new_difficulty_manager ::
    "hash \<Rightarrow> u32 \<Rightarrow> limbs \<Rightarrow> u64 \<Rightarrow> u64 \<Rightarrow> u64 \<Rightarrow> u64 \<Rightarrow> (difficulty_manager, 'e) outcome" where
  "new_difficulty_manager genesis bits max_target window_size min_window_size sample_rate time_per_block =
     rbind (assert_that (min_window_size \<le> window_size)) (\<lambda>_.
     Ok \<lparr>dm_genesis_hash = genesis, dm_genesis_bits = bits,
         dm_max_difficulty_target = uint320_of_uint256 max_target,
         dm_difficulty_window_size = window_size, dm_min_difficulty_window_size = min_window_size,
         dm_difficulty_sample_rate = sample_rate, dm_target_time_per_block = time_per_block\<rparr>)"

definition difficulty_full_window_size :: "difficulty_manager \<Rightarrow> (u64, 'e) outcome" where
  "difficulty_full_window_size dm = mul_w (dm_difficulty_window_size dm) (dm_difficulty_sample_rate dm)"

definition lowest_daa_blue_score :: "difficulty_manager \<Rightarrow> ghostdag_data \<Rightarrow> (u64, 'e) outcome" where
  "lowest_daa_blue_score dm gd =
     rbind (difficulty_full_window_size dm) (\<lambda>full. sub_w (max (gd_blue_score gd) full) full)"

text \<open>The blocks of the merge set outside the window come as a list without repetitions.\<close>

definition internal_calc_daa_score ::
    "header_store \<Rightarrow> ghostdag_data \<Rightarrow> hash list \<Rightarrow> (u64, 'e) outcome" where
  "internal_calc_daa_score hs gd mergeset_non_daa =
     rbind (expect (get_daa_score hs (gd_selected_parent gd))) (\<lambda>sp_daa_score.
     rbind (assert_that (length mergeset_non_daa \<le> mergeset_size gd)) (\<lambda>_.
     add_w sp_daa_score (of_nat (mergeset_size gd - length mergeset_non_daa))))"

definition calc_daa_score_and_mergeset_non_daa_blocks ::
    "difficulty_manager \<Rightarrow> header_store \<Rightarrow> (hash \<Rightarrow> u64 option) \<Rightarrow> ghostdag_data \<Rightarrow> (u64 \<times> hash list, 'e) outcome" where
  "calc_daa_score_and_mergeset_non_daa_blocks dm hs get_blue_score gd =
     rbind (lowest_daa_blue_score dm gd) (\<lambda>lowest.
     rbind (rmap (\<lambda>h. rbind (expect (get_blue_score h)) (\<lambda>s. Ok (h, s < lowest))) (unordered_mergeset gd)) (\<lambda>marked.
     let mergeset_non_daa = remdups (map fst (filter snd marked)) in
     rbind (internal_calc_daa_score hs gd mergeset_non_daa) (\<lambda>score. Ok (score, mergeset_non_daa))))"

text \<open>A window is the list of its blocks in the order of the heap's storage.\<close>

definition get_difficulty_blocks ::
    "header_store \<Rightarrow> sortable_block list \<Rightarrow> (difficulty_block list, 'e) outcome" where
  "get_difficulty_blocks hs =
     rmap (\<lambda>b. rbind (expect (get_compact_header_data hs (block_hash b))) (\<lambda>(timestamp, bits).
        Ok \<lparr>db_timestamp = timestamp, db_bits = bits, db_sortable_block = b\<rparr>))"

text \<open>
  \<^verbatim>\<open>position_minmax\<close>: the positions of the first minimum and of the last maximum, given as the
  running positions while the list is read.
\<close>

fun position_minmax :: "difficulty_block list \<Rightarrow> nat \<Rightarrow> nat \<times> difficulty_block \<Rightarrow> nat \<times> difficulty_block \<Rightarrow> nat \<times> nat" where
  "position_minmax [] i (i_min, _) (i_max, _) = (i_min, i_max)"
| "position_minmax (b # bs) i (i_min, b_min) (i_max, b_max) =
     position_minmax bs (i + 1)
       (if difficulty_block_less b b_min then (i, b) else (i_min, b_min))
       (if difficulty_block_less b b_max then (i_max, b_max) else (i, b))"

text \<open>\<^verbatim>\<open>Vec::swap_remove\<close>: the last element takes the place of the removed one.\<close>

definition swap_remove_at :: "nat \<Rightarrow> 'a list \<Rightarrow> 'a list" where
  "swap_remove_at i xs = butlast (xs[i := last xs])"

definition uint_sum :: "nat \<Rightarrow> limbs list \<Rightarrow> limbs" where
  "uint_sum n xs = (case xs of [] \<Rightarrow> replicate n 0 | first # rest \<Rightarrow> foldl (\<lambda>a b. fst (overflowing_add a b)) first rest)"

definition uint_min :: "limbs \<Rightarrow> limbs \<Rightarrow> limbs" where
  "uint_min a b = (if uint_cmp b a = Less then b else a)"

definition calculate_difficulty_bits ::
    "difficulty_manager \<Rightarrow> header_store \<Rightarrow> sortable_block list \<Rightarrow> ghostdag_data \<Rightarrow> (u32, 'e) outcome" where
  "calculate_difficulty_bits dm hs window gd =
     rbind (get_difficulty_blocks hs window) (\<lambda>blocks.
     if length blocks < unat (dm_min_difficulty_window_size dm)
     then if gd_selected_parent gd = dm_genesis_hash dm then Ok (dm_genesis_bits dm)
          else expect (get_bits hs (gd_selected_parent gd))
     else case blocks of [] \<Rightarrow> Panic | first # rest \<Rightarrow>
       let (i_min, i_max) = position_minmax rest 1 (0, first) (0, first);
           min_ts = db_timestamp (blocks ! i_min);
           max_ts = db_timestamp (blocks ! i_max);
           inner = swap_remove_at i_min blocks;
           len = of_nat (length inner);
           targets_sum = uint_sum 5 (map (\<lambda>b. uint320_of_uint256 (from_compact_target_bits (db_bits b))) inner)
       in rbind (div_rem_u64 targets_sum len) (\<lambda>(average_target, _).
          rbind (sub_w max_ts min_ts) (\<lambda>d. let measured_duration = max d 1 in
          rbind (mul_w (dm_target_time_per_block dm) (dm_difficulty_sample_rate dm)) (\<lambda>e.
          rbind (mul_w e len) (\<lambda>expected_duration.
          rbind (div_rem_u64 (fst (overflowing_mul_u64 average_target measured_duration)) expected_duration) (\<lambda>(new_target, _).
          rbind (expect (uint256_try_from (uint_min new_target (dm_max_difficulty_target dm)))) (\<lambda>t.
          Ok (compact_target_bits t))))))))"

definition MIN_WINDOW_SIZE :: nat where
  "MIN_WINDOW_SIZE = 1000"

definition internal_estimate_network_hashes_per_second ::
    "header_store \<Rightarrow> sortable_block list \<Rightarrow> (u64, difficulty_error) outcome" where
  "internal_estimate_network_hashes_per_second hs window =
     rbind (fail_if (length window < MIN_WINDOW_SIZE) (UnderMinWindowSizeAllowed (length window) MIN_WINDOW_SIZE)) (\<lambda>_.
     rbind (get_difficulty_blocks hs window) (\<lambda>blocks.
     let timestamps = map db_timestamp blocks; works = map (\<lambda>b. block_work (db_sortable_block b)) blocks;
         min_ts = Min (set timestamps); max_ts = Max (set timestamps)
     in rbind (fail_if (min_ts = max_ts) EmptyTimestampRange) (\<lambda>_.
        rbind (sub_w max_ts min_ts) (\<lambda>d. let window_duration = d div 1000 in
        if window_duration = 0 then Ok 0
        else Ok (ucast ((Max (set works) - Min (set works)) div ucast window_duration))))))"

section \<open>The value of a compact target\<close>

text \<open>A compact target as a natural number: eight bits of exponent and 24 of mantissa, whose top bit is a sign.\<close>

definition mantissa :: "u32 \<Rightarrow> nat" where
  "mantissa bits = (let e = unat bits div 2 ^ 24; m = unat bits mod 2 ^ 24 in if e \<le> 3 then m div 256 ^ (3 - e) else m)"

definition exponent :: "u32 \<Rightarrow> nat" where
  "exponent bits = 8 * (unat bits div 2 ^ 24 - 3)"

definition compact_value :: "u32 \<Rightarrow> nat" where
  "compact_value bits =
     (if 0x7FFFFF < mantissa bits then 0 else mantissa bits * 2 ^ (exponent bits mod 256) mod 2 ^ 256)"

lemma uval_from_u64: "0 < n \<Longrightarrow> uval (uint_from_u64 n x) = unat x" "length (uint_from_u64 n x) = n"
  by (cases n; simp add: uint_from_u64_def)+

lemma unat_ucast_up32: "unat (ucast (x :: u32) :: u64) = unat x"
proof -
  have "unat x < 2 ^ 64" using unat_bound [of x] by simp
  then show ?thesis by (simp add: unsigned_ucast_eq take_bit_nat_def)
qed

lemma unat_low24: "unat (and (x :: u32) 0xFFFFFF) = unat x mod 2 ^ 24"
proof -
  have "and x 0xFFFFFF = take_bit 24 x" by (simp add: take_bit_eq_mask mask_eq_exp_minus_1)
  then show ?thesis by (simp add: unsigned_take_bit_eq take_bit_nat_def)
qed

lemma unat_drop: "unat (drop_bit n (x :: 'a::len word)) = unat x div 2 ^ n"
  by (simp add: unat_drop_bit_eq drop_bit_nat_def)

lemma from_compact_correct:
  "uval (from_compact_target_bits bits) = compact_value bits" "length (from_compact_target_bits bits) = 4"
proof -
  define e where "e = unat (drop_bit 24 bits)"
  have e: "e = unat bits div 2 ^ 24" by (simp add: e_def unat_drop)
  define mant where "mant = (if e \<le> 3 then drop_bit (8 * (3 - e)) (and bits 0xFFFFFF) else and bits 0xFFFFFF)"
  have m: "unat mant = mantissa bits"
  proof (cases "e \<le> 3")
    case True
    then have "unat mant = unat bits mod 2 ^ 24 div 2 ^ (8 * (3 - e))" by (simp only: mant_def if_True unat_drop unat_low24)
    then show ?thesis using True by (simp add: mantissa_def Let_def e power_mult)
  qed (simp add: mant_def mantissa_def Let_def e unat_low24)
  have less: "0x7FFFFF < mant \<longleftrightarrow> 0x7FFFFF < mantissa bits" unfolding m [symmetric] by (simp add: word_less_nat_alt)
  have def: "from_compact_target_bits bits =
      (if 0x7FFFFF < mant then replicate 4 0 else fst (overflowing_shl (uint_from_u64 4 (ucast mant)) (exponent bits)))"
    by (simp add: from_compact_target_bits_def Let_def e_def [symmetric] mant_def exponent_def e)
  show "length (from_compact_target_bits bits) = 4" unfolding def by (simp add: overflowing_shl_correct(3) uval_from_u64)
  have "uval (fst (overflowing_shl (uint_from_u64 4 (ucast mant)) (exponent bits))) = mantissa bits * 2 ^ (exponent bits mod 256) mod 2 ^ 256"
    using overflowing_shl_correct(1) [of "uint_from_u64 4 (ucast mant)" "exponent bits"]
    by (simp only: uval_from_u64 unat_ucast_up32 m zero_less_numeral) simp
  then show "uval (from_compact_target_bits bits) = compact_value bits" unfolding def compact_value_def less by simp
qed

section \<open>Work\<close>

lemma compact_value_bound: "compact_value bits + 1 < 2 ^ 256"
proof (cases "0x7FFFFF < mantissa bits \<or> exponent bits mod 256 = 0")
  case True
  then have "compact_value bits \<le> 0x7FFFFF" by (auto simp: compact_value_def)
  then show ?thesis by simp
next
  case False
  then obtain t where t: "exponent bits mod 256 = Suc t" by (cases "exponent bits mod 256") auto
  have "even (compact_value bits)" using False unfolding compact_value_def t by (simp add: dvd_mod_iff)
  moreover have "compact_value bits < 2 ^ 256" by (simp add: compact_value_def)
  ultimately show ?thesis by (cases "compact_value bits + 1 = 2 ^ 256") (auto elim!: evenE)
qed

text \<open>Dropping limbs that are zero, and the test for it.\<close>

lemma top_limb_zero:
  assumes "length ws = Suc n"
  shows "ws ! n = 0 \<longleftrightarrow> uval ws < 2 ^ (64 * n)" and "ws ! n = 0 \<Longrightarrow> uval (take n ws) = uval ws"
proof -
  have ws: "ws = take n ws @ [ws ! n]" using assms by (metis lessI take_Suc_conv_app_nth take_all order_refl)
  have v: "uval ws = uval (take n ws) + 2 ^ (64 * n) * unat (ws ! n)"
    by (subst ws) (use assms in \<open>simp add: uval_append\<close>)
  have "uval (take n ws) < 2 ^ (64 * n)" using uval_less [of "take n ws"] assms by simp
  moreover have "\<not> uval ws < 2 ^ (64 * n)" if "ws ! n \<noteq> 0"
  proof -
    have "2 ^ (64 * n) * 1 \<le> 2 ^ (64 * n) * unat (ws ! n)"
      using that by (intro mult_le_mono2) (simp add: Suc_leI unat_gt_0)
    then show ?thesis unfolding v by linarith
  qed
  ultimately show "ws ! n = 0 \<longleftrightarrow> uval ws < 2 ^ (64 * n)" using v by (cases "ws ! n = 0") simp_all
  show "ws ! n = 0 \<Longrightarrow> uval (take n ws) = uval ws" unfolding v by simp
qed

lemma work_formula: "(2 ^ 256 - 1 - t) div (t + 1) + 1 = (2 :: nat) ^ 256 div (t + 1)" if "t + 1 < 2 ^ 256" for t :: nat
proof -
  have "(2 :: nat) ^ 256 = (2 ^ 256 - 1 - t) + (t + 1)" using that by simp
  then show ?thesis by (metis div_add_self2 add_is_0 one_neq_zero)
qed

lemma calc_work_value:
  fixes bits :: u32
  defines "t \<equiv> compact_value bits"
  defines "w \<equiv> 2 ^ 256 div (t + 1)"
  shows "calc_work bits = ((if t = 0 then Ok 0 else if w < 2 ^ 192 then Ok (of_nat w) else Panic) :: (u192, 'e) outcome)"
proof -
  define target where "target = from_compact_target_bits bits"
  have target: "uval target = t" "length target = 4" by (simp_all add: target_def t_def from_compact_correct)
  have t: "t + 1 < 2 ^ 256" unfolding t_def by (rule compact_value_bound)
  define d where "d = fst (overflowing_add_u64 target 1)"
  have ne: "target \<noteq> []" using target(2) by auto
  have d: "uval d = t + 1" "length d = 4"
    using overflowing_add_u64_correct(1,3) [OF ne, of 1] target t by (simp_all add: d_def)
  have n: "uval (uint_not target) = 2 ^ 256 - 1 - t" "length (uint_not target) = length d"
    using uint_not_correct [of target] target d by (simp_all add: uint_not_def)
  obtain q r where qr: "div_rem (uint_not target) d = (Ok (q, r) :: (limbs \<times> limbs, 'e) outcome)" "length q = 4"
      "uval q = (2 ^ 256 - 1 - t) div (t + 1)"
    using div_rem_correct [OF n(2)] d n by (metis add_is_0 one_neq_zero)
  define res where "res = fst (overflowing_add_u64 q 1)"
  have "q \<noteq> []" using qr(2) by auto
  from overflowing_add_u64_correct(1,3) [OF this, of 1]
  have res: "uval res = w mod 2 ^ 256" "length res = Suc 3"
    using qr(2,3) work_formula [OF t] by (simp_all add: res_def w_def)
  have "(calc_work bits :: (u192, 'e) outcome) = (if res ! 3 \<noteq> 0 then Panic else Ok (u192_of (take 3 res)))"
    by (simp add: calc_work_def target_def [symmetric] d_def [symmetric] res_def [symmetric] qr uint192_try_from_def)
  moreover have "t = 0 \<Longrightarrow> uval res = 0" using res by (simp add: w_def)
  moreover have "t \<noteq> 0 \<Longrightarrow> uval res = w"
  proof -
    assume "t \<noteq> 0"
    then have "w \<le> 2 ^ 256 div 2" unfolding w_def by (intro div_le_mono2) simp_all
    then show ?thesis using res by simp
  qed
  ultimately show ?thesis using top_limb_zero [OF res(2)] by (auto simp: u192_of_def)
qed

section \<open>Compact targets round down\<close>

lemma unat_ucast_down32: "unat (ucast (x :: u64) :: u32) = unat x mod 2 ^ 32"
  by (simp add: unsigned_ucast_eq take_bit_nat_def)

lemma and_bit23: "and (x :: u32) 0x800000 \<noteq> 0 \<longleftrightarrow> odd (unat x div 2 ^ 23)"
proof -
  have "and x 0x800000 \<noteq> 0 \<longleftrightarrow> bit x 23"
    using and_exp_eq_0_iff_not_bit [of x 23] by simp
  also have "\<dots> \<longleftrightarrow> bit (unat x) 23" by (simp add: bit_unsigned_iff)
  finally show ?thesis by (simp add: bit_iff_odd)
qed

lemma uval_low: "0 < length ws \<Longrightarrow> unat (uint_as_u64 ws) = uval ws mod 2 ^ 64"
  using unat_bound [of "hd ws"] by (cases ws) (simp_all add: uint_as_u64_def)

text \<open>The packed word: mantissa below, exponent above.\<close>

lemma unat_packed:
  assumes "unat c < 2 ^ 24" "s < 256"
  shows "unat (or (c :: u32) (push_bit 24 (of_nat s))) = unat c + s * 2 ^ 24"
proof -
  have s: "unat (push_bit 24 (of_nat s) :: u32) = s * 2 ^ 24"
    using assms(2) by (simp add: unsigned_push_bit_eq take_bit_nat_def push_bit_nat_def unat_of_nat)
  have "take_bit 24 c = c" using assms(1) by (simp add: take_bit_eq_mod word_unat_eq_iff unat_mod)
  then have "\<not> bit c n" if "24 \<le> n" for n using that by (metis bit_take_bit_iff not_less)
  then have "and c (push_bit 24 (of_nat s)) = 0" by (intro bit_eqI) (auto simp: bit_simps)
  then have "or c (push_bit 24 (of_nat s)) = c + push_bit 24 (of_nat s)" by (rule disjunctive_add_eq_or [symmetric])
  then show ?thesis using assms s by (simp add: unat_word_ariths)
qed

lemma packed_fields:
  assumes "unat bits = c + s * 2 ^ 24" "c < 2 ^ 24"
  shows "unat bits div 2 ^ 24 = s" "unat bits mod 2 ^ 24 = c"
  using assms by simp_all

text \<open>The mantissa and the size that \<^verbatim>\<open>compact_target_bits\<close> packs.\<close>

definition byte_size :: "nat \<Rightarrow> nat" where
  "byte_size t = (floorlog 2 t + 7) div 8"

lemma byte_size_bounds: "t < 256 ^ byte_size t" "t \<noteq> 0 \<Longrightarrow> 256 ^ byte_size t \<le> 256 * t"
proof -
  have p: "(256 :: nat) ^ n = 2 ^ (8 * n)" for n by (simp add: power_mult)
  have "floorlog 2 t \<le> 8 * byte_size t" unfolding byte_size_def by linarith
  then show "t < 256 ^ byte_size t" unfolding p by (rule floorlog_leD) simp
  assume t: "t \<noteq> 0"
  have "8 * byte_size t \<le> 8 + (floorlog 2 t - 1)"
    using t floorlog_eq_zero_iff [of 2 t] unfolding byte_size_def by linarith
  then have "(2 :: nat) ^ (8 * byte_size t) \<le> 2 ^ (8 + (floorlog 2 t - 1))" by (rule power_increasing) simp
  also have "\<dots> \<le> 256 * t" using floorlog_bounds [of t 2] t by (simp add: power_add)
  finally show "256 ^ byte_size t \<le> 256 * t" unfolding p .
qed

definition pack :: "nat \<Rightarrow> nat \<times> nat" where
  "pack t =
     (let s = byte_size t; c = (if s \<le> 3 then t * 256 ^ (3 - s) else t div 256 ^ (s - 3))
      in if 2 ^ 23 \<le> c then (c div 256, s + 1) else (c, s))"

lemma raw_mantissa:
  fixes t :: nat
  defines "s \<equiv> byte_size t"
  defines "c \<equiv> (if s \<le> 3 then t * 256 ^ (3 - s) else t div 256 ^ (s - 3))"
  shows "c < 2 ^ 24" "s \<ge> 4 \<Longrightarrow> 2 ^ 16 \<le> c"
proof -
  have lt: "t < 256 ^ s" unfolding s_def by (rule byte_size_bounds)
  show "c < 2 ^ 24"
  proof (cases "s \<le> 3")
    case True
    have "t * 256 ^ (3 - s) < 256 ^ s * 256 ^ (3 - s)" using lt by simp
    also have "\<dots> = 256 ^ 3" using True by (simp add: power_add [symmetric])
    finally show ?thesis using True by (simp add: c_def)
  next
    case False
    then have "(256 :: nat) ^ s = 256 ^ (3 + (s - 3))" by simp
    then have "(256 :: nat) ^ s = 256 ^ 3 * 256 ^ (s - 3)" by (simp only: power_add)
    then have "t div 256 ^ (s - 3) < 256 ^ 3" using lt by (simp add: less_mult_imp_div_less)
    then show ?thesis using False by (simp add: c_def)
  qed
  assume s4: "s \<ge> 4"
  have "byte_size 0 = 0" by (simp add: byte_size_def floorlog_def)
  then have "t \<noteq> 0" using s4 by (cases "t = 0") (simp_all add: s_def)
  then have "256 ^ s \<le> 256 * t" unfolding s_def by (rule byte_size_bounds)
  moreover have "(256 :: nat) ^ s = 256 * (2 ^ 16 * 256 ^ (s - 3))"
  proof -
    have "(256 :: nat) ^ s = 256 ^ (3 + (s - 3))" using s4 by simp
    then show ?thesis by (simp only: power_add) simp
  qed
  ultimately have "2 ^ 16 * 256 ^ (s - 3) \<le> t" by simp
  then have "2 ^ 16 \<le> t div 256 ^ (s - 3)" by (simp add: less_eq_div_iff_mult_less_eq)
  then show "2 ^ 16 \<le> c" using s4 by (simp add: c_def)
qed

lemma compact_packed:
  assumes "length ws = 4"
  shows "unat (compact_target_bits ws) = fst (pack (uval ws)) + snd (pack (uval ws)) * 2 ^ 24"
proof -
  define t s where "t = uval ws" and "s = byte_size t"
  define c where "c = (if s \<le> 3 then t * 256 ^ (3 - s) else t div 256 ^ (s - 3))"
  define w where "w = (if s \<le> 3 then ucast (push_bit (8 * (3 - s)) (uint_as_u64 ws))
      else ucast (uint_as_u64 (fst (overflowing_shr ws (8 * (s - 3))))) :: u32)"
  have c: "c < 2 ^ 24" unfolding c_def s_def by (rule raw_mantissa(1))
  have t: "t < 256 ^ 32" using uval_less [of ws] assms by (simp add: t_def)
  have s32: "s \<le> 32"
  proof -
    have "floorlog 2 t \<le> 256" using t by (intro floorlog_leI) simp_all
    then show ?thesis by (simp add: s_def byte_size_def)
  qed
  have w: "unat w = c"
  proof (cases "s \<le> 3")
    case True
    have le: "t \<le> t * 256 ^ (3 - s)" by simp
    have small2: "t * 256 ^ (3 - s) < 2 ^ 24" using c True by (simp add: c_def)
    have "t < 2 ^ 64" by (rule le_less_trans [OF le less_trans [OF small2]]) simp
    note small = this small2
    have "unat (push_bit (8 * (3 - s)) (uint_as_u64 ws)) = t * 256 ^ (3 - s)"
      using small uval_low [of ws] assms
      by (simp add: unsigned_push_bit_eq take_bit_nat_def push_bit_nat_def t_def power_mult)
    then show ?thesis using True small by (simp add: w_def c_def unat_ucast_down32)
  next
    case False
    have "8 * (s - 3) < 64 * length ws" using s32 assms by simp
    then have "uval (fst (overflowing_shr ws (8 * (s - 3)))) = c"
      using overflowing_shr_correct(1) [of ws "8 * (s - 3)"] False by (simp add: c_def t_def power_mult)
    then have "unat (uint_as_u64 (fst (overflowing_shr ws (8 * (s - 3))))) = c"
      using uval_low [of "fst (overflowing_shr ws (8 * (s - 3)))"] c assms by (simp add: overflowing_shr_correct(3))
    then show ?thesis using False c by (simp add: w_def unat_ucast_down32)
  qed
  have b: "and w 0x800000 \<noteq> 0 \<longleftrightarrow> 2 ^ 23 \<le> c"
  proof -
    have "c div 2 ^ 23 < 2" using c by (intro less_mult_imp_div_less) simp
    then have "c div 2 ^ 23 = 0 \<or> c div 2 ^ 23 = 1" by linarith
    then show ?thesis unfolding and_bit23 w by (auto simp: div_eq_0_iff)
  qed
  have def: "compact_target_bits ws =
      (if 2 ^ 23 \<le> c then or (drop_bit 8 w) (push_bit 24 (of_nat (s + 1))) else or w (push_bit 24 (of_nat s)))"
  proof -
    have "(uint_bits ws + 7) div 8 = s" by (simp add: uint_bits_correct t_def s_def byte_size_def)
    then have "compact_target_bits ws =
        (case if and w 0x800000 \<noteq> 0 then (drop_bit 8 w, s + 1) else (w, s) of (c, s) \<Rightarrow> or c (push_bit 24 (of_nat s)))"
      unfolding compact_target_bits_def Let_def w_def by (simp only:)
    then show ?thesis using b by simp
  qed
  have "unat (drop_bit 8 w) = c div 256" by (simp add: unat_drop w)
  moreover have "c div 256 < 2 ^ 24" using c by simp
  ultimately show ?thesis unfolding def
    using unat_packed [of "drop_bit 8 w" "s + 1"] unat_packed [of w s] c s32 w
    by (simp add: pack_def Let_def t_def [symmetric] s_def [symmetric] c_def [symmetric])
qed

lemma compact_value_fields:
  assumes "unat bits = c + s * 2 ^ 24" "c < 2 ^ 23" "s \<le> 33"
  shows "compact_value bits = (if s \<le> 3 then c div 256 ^ (3 - s) else c * 256 ^ (s - 3) mod 2 ^ 256)"
proof -
  have f: "unat bits div 2 ^ 24 = s" "unat bits mod 2 ^ 24 = c" using packed_fields [OF assms(1)] assms(2) by simp_all
  have m: "mantissa bits = (if s \<le> 3 then c div 256 ^ (3 - s) else c)" by (simp only: mantissa_def Let_def f)
  have e: "exponent bits = 8 * (s - 3)" by (simp only: exponent_def f)
  have "mantissa bits \<le> 0x7FFFFF" using assms(2) unfolding m by (auto intro: le_trans [OF div_le_dividend])
  moreover have "exponent bits mod 256 = 8 * (s - 3)" using assms(3) unfolding e by simp
  moreover have "mantissa bits mod 2 ^ 256 = mantissa bits" using calculation(1) by (intro mod_less) simp
  ultimately show ?thesis unfolding compact_value_def by (cases "s \<le> 3") (simp_all add: m power_mult)
qed

lemma pack_rounds:
  fixes t :: nat
  assumes t: "t < 2 ^ 256"
  obtains k where "fst (pack t) < 2 ^ 23" "snd (pack t) \<le> 33"
    "(if snd (pack t) \<le> 3 then fst (pack t) div 256 ^ (3 - snd (pack t))
      else fst (pack t) * 256 ^ (snd (pack t) - 3)) = t div 256 ^ k * 256 ^ k"
    "t div 256 ^ k < 2 ^ 23" "k = 0 \<or> 2 ^ 15 \<le> t div 256 ^ k"
proof -
  define s where "s = byte_size t"
  define c where "c = (if s \<le> 3 then t * 256 ^ (3 - s) else t div 256 ^ (s - 3))"
  have c: "c < 2 ^ 24" unfolding c_def s_def by (rule raw_mantissa(1))
  have c16: "s \<ge> 4 \<Longrightarrow> 2 ^ 16 \<le> c" unfolding c_def s_def by (rule raw_mantissa(2))
  have s32: "s \<le> 32"
  proof -
    have "floorlog 2 t \<le> 256" using t by (intro floorlog_leI) simp_all
    then show ?thesis by (simp add: s_def byte_size_def)
  qed
  have p: "pack t = (if 2 ^ 23 \<le> c then (c div 256, s + 1) else (c, s))"
    by (simp add: pack_def Let_def s_def c_def)
  consider (tiny) "s \<le> 2" | (three) "s = 3" | (big) "s \<ge> 4" by linarith
  then show thesis
  proof cases
    case tiny
    then have ct: "c = t * 256 ^ (3 - s)" by (simp add: c_def)
    have "t < 256 ^ s" unfolding s_def by (rule byte_size_bounds)
    also have "\<dots> \<le> 256 ^ 2" using tiny by (intro power_increasing) simp_all
    finally have t2: "t < 2 ^ 16" by simp
    have "c div 256 div 256 ^ (3 - (s + 1)) = c div 256 ^ (3 - s)"
    proof -
      have "3 - s = Suc (3 - (s + 1))" using tiny by simp
      then show ?thesis by (simp add: div_mult2_eq [symmetric])
    qed
    then have "c div 256 div 256 ^ (3 - (s + 1)) = t" by (simp add: ct)
    then show ?thesis using that [of 0] tiny t2 c ct unfolding p by (cases "2 ^ 23 \<le> c") simp_all
  next
    case three
    then have "c = t" by (simp add: c_def)
    then show ?thesis using that [of 1] that [of 0] three c unfolding p by (cases "2 ^ 23 \<le> c") simp_all
  next
    case big
    have k: "c div 256 = t div 256 ^ (s - 2)"
    proof -
      have "s - 2 = Suc (s - 3)" using big by simp
      then show ?thesis using big by (simp add: c_def div_mult2_eq [symmetric] mult.commute)
    qed
    show ?thesis
    proof (cases "2 ^ 23 \<le> c")
      case True
      then have "2 ^ 15 \<le> c div 256" by simp
      then show ?thesis using that [of "s - 2"] True big c s32 k unfolding p by simp
    next
      case False
      then show ?thesis using that [of "s - 3"] big c16 s32 unfolding p by (simp add: c_def)
    qed
  qed
qed

lemma compact_rounds:
  assumes "length ws = 4"
  obtains k where "compact_value (compact_target_bits ws) = uval ws div 256 ^ k * 256 ^ k"
    "uval ws div 256 ^ k < 2 ^ 23" "k = 0 \<or> 2 ^ 15 \<le> uval ws div 256 ^ k"
proof -
  have t: "uval ws < 2 ^ 256" using uval_less [of ws] assms by simp
  obtain k where k: "fst (pack (uval ws)) < 2 ^ 23" "snd (pack (uval ws)) \<le> 33"
    "(if snd (pack (uval ws)) \<le> 3 then fst (pack (uval ws)) div 256 ^ (3 - snd (pack (uval ws)))
      else fst (pack (uval ws)) * 256 ^ (snd (pack (uval ws)) - 3)) = uval ws div 256 ^ k * 256 ^ k"
    "uval ws div 256 ^ k < 2 ^ 23" "k = 0 \<or> 2 ^ 15 \<le> uval ws div 256 ^ k"
    by (rule pack_rounds [OF t])
  have "uval ws div 256 ^ k * 256 ^ k \<le> uval ws" by simp
  then have "uval ws div 256 ^ k * 256 ^ k < 2 ^ 256" using t by linarith
  then show ?thesis
    using that [of k] k compact_value_fields [OF compact_packed [OF assms] k(1,2)] by (simp split: if_splits)
qed

section \<open>The difficulty adjustment\<close>

lemma difficulty_block_less_irrefl: "\<not> difficulty_block_less a a"
  by (simp add: difficulty_block_less_def)

lemma difficulty_block_less_trans: "difficulty_block_less a b \<Longrightarrow> difficulty_block_less b c \<Longrightarrow> difficulty_block_less a c"
  by (auto simp: difficulty_block_less_def)

lemma difficulty_block_less_cotrans: "difficulty_block_less a c \<Longrightarrow> difficulty_block_less a b \<or> difficulty_block_less b c"
  by (auto simp: difficulty_block_less_def)

definition is_minimal :: "difficulty_block list \<Rightarrow> difficulty_block \<Rightarrow> bool" where
  "is_minimal bs b = (b \<in> set bs \<and> list_all (\<lambda>x. \<not> difficulty_block_less x b) bs)"

definition is_maximal :: "difficulty_block list \<Rightarrow> difficulty_block \<Rightarrow> bool" where
  "is_maximal bs b = (b \<in> set bs \<and> list_all (\<lambda>x. \<not> difficulty_block_less b x) bs)"

lemma position_minmax_correct:
  assumes "position_minmax bs (length pre) (i, b) (j, c) = (p, q)"
    and "i < length pre" "pre ! i = b" "is_minimal pre b" "j < length pre" "pre ! j = c" "is_maximal pre c"
  shows "p < length (pre @ bs) \<and> is_minimal (pre @ bs) ((pre @ bs) ! p)
    \<and> q < length (pre @ bs) \<and> is_maximal (pre @ bs) ((pre @ bs) ! q)"
  using assms
proof (induction bs arbitrary: pre i b j c)
  case Nil
  then show ?case by simp
next
  case (Cons x bs)
  define i' where "i' = (if difficulty_block_less x b then (length pre, x) else (i, b))"
  define j' where "j' = (if difficulty_block_less x c then (j, c) else (length pre, x))"
  have min: "fst i' < length (pre @ [x])" "(pre @ [x]) ! fst i' = snd i'" "is_minimal (pre @ [x]) (snd i')"
    using Cons.prems(2,3,4) difficulty_block_less_irrefl difficulty_block_less_trans
    by (auto simp: i'_def is_minimal_def list_all_iff nth_append)
  have max: "fst j' < length (pre @ [x])" "(pre @ [x]) ! fst j' = snd j'" "is_maximal (pre @ [x]) (snd j')"
    using Cons.prems(5,6,7) difficulty_block_less_irrefl [of x] difficulty_block_less_cotrans [of x _ c]
      difficulty_block_less_trans [of c x c] difficulty_block_less_irrefl [of c]
    by (auto simp: j'_def is_maximal_def list_all_iff nth_append)
  have "position_minmax bs (length (pre @ [x])) (fst i', snd i') (fst j', snd j') = (p, q)"
    using Cons.prems(1) by (simp add: i'_def j'_def)
  from Cons.IH [OF this min max] show ?case by simp
qed

lemma mset_swap_remove_at: "i < length xs \<Longrightarrow> mset (swap_remove_at i xs) = mset xs - {#xs ! i#}"
proof -
  assume i: "i < length xs"
  then have ne: "xs \<noteq> []" by auto
  have split: "xs = butlast xs @ [last xs]" using ne by simp
  show ?thesis
  proof (cases "i = length xs - 1")
    case True
    then have "xs ! i = last xs" using ne by (simp add: last_conv_nth)
    then have "swap_remove_at i xs = butlast xs" unfolding swap_remove_at_def by (metis list_update_id)
    then show ?thesis using \<open>xs ! i = last xs\<close> by (subst (2) split) simp
  next
    case False
    then have l: "i < length (butlast xs)" using i by simp
    have "swap_remove_at i xs = (butlast xs)[i := last xs]" using False i by (simp add: swap_remove_at_def butlast_list_update)
    moreover have "xs ! i = butlast xs ! i" using l by (simp add: nth_butlast)
    ultimately show ?thesis using l by (subst (2) split) (simp add: mset_update)
  qed
qed

lemma uint_sum_correct:
  assumes "list_all (\<lambda>x. length x = n) xs"
  shows "uval (uint_sum n xs) = sum_list (map uval xs) mod 2 ^ (64 * n) \<and> length (uint_sum n xs) = n"
proof -
  have loop: "uval (foldl (\<lambda>a b. fst (overflowing_add a b)) a ys) = (uval a + sum_list (map uval ys)) mod 2 ^ (64 * n)
      \<and> length (foldl (\<lambda>a b. fst (overflowing_add a b)) a ys) = n"
    if "length a = n" "list_all (\<lambda>x. length x = n) ys" for a ys
    using that
  proof (induction ys arbitrary: a)
    case Nil
    then show ?case using uval_less [of a] by simp
  next
    case (Cons y ys)
    have "length a = length y" using Cons.prems by simp
    note add = overflowing_add_correct(1,3) [OF this]
    have len: "length (fst (overflowing_add a y)) = n" using add(2) Cons.prems by simp
    show ?case using Cons.IH [OF len] Cons.prems add(1) by (simp add: mod_add_left_eq add.assoc)
  qed
  show ?thesis using assms loop by (cases xs) (auto simp: uint_sum_def)
qed

lemma overflowing_mul_u64_correct:
  "uval (fst (overflowing_mul_u64 xs y)) = uval xs * unat y mod 2 ^ (64 * length xs)"
  "length (fst (overflowing_mul_u64 xs y)) = length xs"
proof -
  obtain rs c where m: "carrying_mul_u64 xs y = (rs, c)" by fastforce
  have eq: "uval xs * unat y = uval rs + 2 ^ (64 * length xs) * unat c" and len: "length rs = length xs"
    using carrying_mul_u64_correct [OF m] by simp_all
  show "uval (fst (overflowing_mul_u64 xs y)) = uval xs * unat y mod 2 ^ (64 * length xs)"
    using uval_less [of rs] unfolding eq by (simp add: overflowing_mul_u64_def m len)
  show "length (fst (overflowing_mul_u64 xs y)) = length xs" by (simp add: overflowing_mul_u64_def m len)
qed

lemma uint_min_correct: "length a = length b \<Longrightarrow> uval (uint_min a b) = min (uval a) (uval b) \<and> length (uint_min a b) = length a"
  by (simp add: uint_min_def uint_cmp_Less)

text \<open>The target that the adjustment aims at, over the natural numbers.\<close>

definition target_of :: "difficulty_block \<Rightarrow> nat" where
  "target_of b = compact_value (db_bits b)"

definition timestamps :: "difficulty_block list \<Rightarrow> nat set" where
  "timestamps bs = (\<lambda>b. unat (db_timestamp b)) ` set bs"

definition adjusted_target :: "difficulty_manager \<Rightarrow> difficulty_block list \<Rightarrow> difficulty_block \<Rightarrow> nat" where
  "adjusted_target dm bs b =
     (let n = length bs - 1;
          average = (sum_list (map target_of bs) - target_of b) div n;
          measured = max (Max (timestamps bs) - Min (timestamps bs)) 1;
          expected = unat (dm_target_time_per_block dm) * unat (dm_difficulty_sample_rate dm) * n
      in min (average * measured div expected) (uval (dm_max_difficulty_target dm)))"

lemma minimal_timestamp: "is_minimal bs b \<Longrightarrow> unat (db_timestamp b) = Min (timestamps bs)"
  by (intro Min_eqI [symmetric])
    (auto simp: timestamps_def is_minimal_def list_all_iff difficulty_block_less_def word_less_nat_alt not_less)

lemma maximal_timestamp: "is_maximal bs b \<Longrightarrow> unat (db_timestamp b) = Max (timestamps bs)"
  by (intro Max_eqI [symmetric])
    (auto simp: timestamps_def is_maximal_def list_all_iff difficulty_block_less_def word_less_nat_alt not_less)

lemma target_bound: "target_of b < 2 ^ 256"
  using compact_value_bound [of "db_bits b"] by (simp add: target_of_def)

lemma sum_targets_bound: "bs \<noteq> [] \<Longrightarrow> sum_list (map target_of bs) < 2 ^ 256 * length bs"
proof (induction bs rule: induct_list012)
  case (2 b)
  then show ?case using target_bound [of b] by simp
next
  case (3 b c bs)
  then have "sum_list (map target_of (c # bs)) < 2 ^ 256 * length (c # bs)" by simp
  then show ?case using target_bound [of b] by simp
qed simp

lemma average_target:
  assumes "i < length bs" "2 \<le> length bs" "length bs \<le> 2 ^ 64"
  obtains avg r where
    "div_rem_u64 (uint_sum 5 (map (\<lambda>b. uint320_of_uint256 (from_compact_target_bits (db_bits b))) (swap_remove_at i bs)))
       (of_nat (length (swap_remove_at i bs))) = (Ok (avg, r) :: (limbs \<times> u64, 'e) outcome)"
    "length avg = 5" "uval avg = (sum_list (map target_of bs) - target_of (bs ! i)) div (length bs - 1)" "uval avg < 2 ^ 256"
proof -
  define inner where "inner = swap_remove_at i bs"
  have ms: "mset inner = mset bs - {#bs ! i#}" unfolding inner_def by (rule mset_swap_remove_at [OF assms(1)])
  have len: "length inner = length bs - 1" by (simp add: inner_def swap_remove_at_def)
  have "mset bs = add_mset (bs ! i) (mset inner)" using assms(1) by (simp add: ms)
  then have "mset (map target_of bs) = mset (map target_of (bs ! i # inner))" by simp
  then have "sum_list (map target_of bs) = sum_list (map target_of (bs ! i # inner))" by (metis sum_mset_sum_list)
  then have sum: "sum_list (map target_of inner) = sum_list (map target_of bs) - target_of (bs ! i)" by simp
  define ws where "ws = map (\<lambda>b. uint320_of_uint256 (from_compact_target_bits (db_bits b))) inner"
  have vals: "map uval ws = map target_of inner"
    by (simp add: ws_def uint320_of_uint256_def uval_append from_compact_correct target_of_def)
  have "list_all (\<lambda>w. length w = 5) ws" by (simp add: ws_def uint320_of_uint256_def from_compact_correct list_all_iff)
  note total = uint_sum_correct [OF this]
  have n: "unat (of_nat (length inner) :: u64) = length inner" using assms(3) len by (simp add: unat_of_nat64)
  have "inner \<noteq> []" using len assms(2) by auto
  note bound = sum_targets_bound [OF this]
  have "2 ^ 256 * length inner \<le> 2 ^ 256 * 2 ^ 64" using assms(3) len by (intro mult_le_mono2) simp
  then have "sum_list (map target_of inner) < 2 ^ 320" using bound by simp
  then have tot: "uval (uint_sum 5 ws) = sum_list (map target_of inner)" "length (uint_sum 5 ws) = 5"
    using total by (simp_all add: vals)
  have "(of_nat (length inner) :: u64) \<noteq> 0" using n len assms(2) by (metis One_nat_def diff_is_0_eq not_less_eq_eq numeral_2_eq_2 unat_0)
  from div_rem_u64_correct [OF this, of "uint_sum 5 ws"]
  obtain q r where q: "div_rem_u64 (uint_sum 5 ws) (of_nat (length inner)) = (Ok (q, r) :: (limbs \<times> u64, 'e) outcome)" "length q = 5"
    "uval q = sum_list (map target_of inner) div length inner" using tot n by metis
  have "uval q < 2 ^ 256" unfolding q(3) using bound by (rule less_mult_imp_div_less)
  then show ?thesis using that [of q r] q sum len by (simp add: ws_def inner_def)
qed

text \<open>Scaling the average by the ratio of the durations, capped by the largest target.\<close>

lemma retarget:
  assumes "length avg = 5" "uval avg < 2 ^ 256" "length mx = 5" "uval mx < 2 ^ 256" "e \<noteq> 0"
  obtains nt r t where "div_rem_u64 (fst (overflowing_mul_u64 avg m)) e = (Ok (nt, r) :: (limbs \<times> u64, 'e) outcome)"
    "uint256_try_from (uint_min nt mx) = Some t" "length t = 4" "uval t = min (uval avg * unat m div unat e) (uval mx)"
proof -
  have "uval avg * unat m < 2 ^ 256 * 2 ^ 64"
    using assms(2) unat_bound [of m] by (intro mult_strict_mono) simp_all
  then have p: "uval (fst (overflowing_mul_u64 avg m)) = uval avg * unat m" "length (fst (overflowing_mul_u64 avg m)) = 5"
    using overflowing_mul_u64_correct [of avg m] assms(1) by simp_all
  obtain nt r where nt: "div_rem_u64 (fst (overflowing_mul_u64 avg m)) e = (Ok (nt, r) :: (limbs \<times> u64, 'e) outcome)"
    "length nt = 5" "uval nt = uval avg * unat m div unat e"
    using div_rem_u64_correct [OF assms(5), of "fst (overflowing_mul_u64 avg m)"] p by metis
  have mn: "uval (uint_min nt mx) = min (uval nt) (uval mx)" "length (uint_min nt mx) = Suc 4"
    using uint_min_correct [of nt mx] nt(2) assms(3) by simp_all
  then have "uint_min nt mx ! 4 = 0" "uval (take 4 (uint_min nt mx)) = uval (uint_min nt mx)"
    using top_limb_zero [OF mn(2)] assms(4) by simp_all
  then show ?thesis using that [OF nt(1), of "take 4 (uint_min nt mx)"] mn nt by (simp add: uint256_try_from_def)
qed

text \<open>What the function returns on a window that is large enough.\<close>

lemma calculate_difficulty_bits_value:
  assumes "get_difficulty_blocks hs window = (Ok bs :: (difficulty_block list, 'e) outcome)"
    and "unat (dm_min_difficulty_window_size dm) \<le> length bs" "2 \<le> length bs" "length bs \<le> 2 ^ 64"
    and "length (dm_max_difficulty_target dm) = 5" "uval (dm_max_difficulty_target dm) < 2 ^ 256"
    and "0 < unat (dm_target_time_per_block dm) * unat (dm_difficulty_sample_rate dm)"
    and "unat (dm_target_time_per_block dm) * unat (dm_difficulty_sample_rate dm) * (length bs - 1) < 2 ^ 64"
  obtains b t where "is_minimal bs b" "length t = 4" "uval t = adjusted_target dm bs b"
    "calculate_difficulty_bits dm hs window gd = (Ok (compact_target_bits t) :: (u32, 'e) outcome)"
proof -
  obtain first rest where bs: "bs = first # rest" using assms(3) by (cases bs) auto
  obtain p q where pq: "position_minmax rest 1 (0, first) (0, first) = (p, q)" by fastforce
  have start: "is_minimal [first] first" "is_maximal [first] first"
    by (simp_all add: is_minimal_def is_maximal_def difficulty_block_less_irrefl)
  have p: "p < length bs" "is_minimal bs (bs ! p)" and q: "is_maximal bs (bs ! q)"
    using position_minmax_correct [of rest "[first]" 0 first 0 first p q] pq start bs by simp_all
  define inner where "inner = swap_remove_at p bs"
  define len where "len = (of_nat (length inner) :: u64)"
  have n: "length inner = length bs - 1" by (simp add: inner_def swap_remove_at_def)
  have len: "unat len = length bs - 1" using assms(4) n by (simp add: len_def unat_of_nat64)
  obtain avg r where avg: "div_rem_u64 (uint_sum 5 (map (\<lambda>b. uint320_of_uint256 (from_compact_target_bits (db_bits b))) inner)) len
      = (Ok (avg, r) :: (limbs \<times> u64, 'e) outcome)"
    "length avg = 5" "uval avg = (sum_list (map target_of bs) - target_of (bs ! p)) div (length bs - 1)" "uval avg < 2 ^ 256"
    unfolding inner_def len_def by (rule average_target [OF p(1) assms(3,4)])
  define d where "d = db_timestamp (bs ! q) - db_timestamp (bs ! p)"
  have "unat (db_timestamp (bs ! p)) \<le> unat (db_timestamp (bs ! q))"
    using q p(1) by (auto simp: is_maximal_def list_all_iff difficulty_block_less_def word_less_nat_alt not_less)
  then have d: "checked_sub (db_timestamp (bs ! q)) (db_timestamp (bs ! p)) = Some d"
    "unat d = Max (timestamps bs) - Min (timestamps bs)"
    unfolding minimal_timestamp [OF p(2), symmetric] maximal_timestamp [OF q, symmetric]
    by (simp_all add: d_def checked_sub_def word_le_nat_alt unat_sub)
  define m where "m = max d 1"
  have m: "unat m = max (Max (timestamps bs) - Min (timestamps bs)) 1"
    unfolding d(2) [symmetric] by (simp add: m_def max_def word_le_nat_alt)
  define e where "e = dm_target_time_per_block dm * dm_difficulty_sample_rate dm"
  have "unat (dm_target_time_per_block dm) * unat (dm_difficulty_sample_rate dm) * 1 \<le>
      unat (dm_target_time_per_block dm) * unat (dm_difficulty_sample_rate dm) * (length bs - 1)"
    using assms(3) by (intro mult_le_mono2) simp
  then have "unat (dm_target_time_per_block dm) * unat (dm_difficulty_sample_rate dm) < 2 ^ 64" using assms(8) by linarith
  then have e: "checked_mul (dm_target_time_per_block dm) (dm_difficulty_sample_rate dm) = Some e"
    "unat e = unat (dm_target_time_per_block dm) * unat (dm_difficulty_sample_rate dm)"
    by (simp_all add: e_def checked_mul_def unat_word_ariths)
  define ex where "ex = e * len"
  have ex: "checked_mul e len = Some ex" "unat ex = unat (dm_target_time_per_block dm) * unat (dm_difficulty_sample_rate dm) * (length bs - 1)"
    using assms(8) e(2) len by (simp_all add: ex_def checked_mul_def unat_word_ariths)
  have "unat ex \<noteq> 0" unfolding ex(2) using assms(3,7) by simp
  then have "ex \<noteq> 0" by auto
  from retarget [OF avg(2,4) assms(5,6) this, of m]
  obtain nt r' t where t: "div_rem_u64 (fst (overflowing_mul_u64 avg m)) ex = (Ok (nt, r') :: (limbs \<times> u64, 'e) outcome)"
    "uint256_try_from (uint_min nt (dm_max_difficulty_target dm)) = Some t" "length t = 4"
    "uval t = min (uval avg * unat m div unat ex) (uval (dm_max_difficulty_target dm))" by metis
  have "uval t = adjusted_target dm bs (bs ! p)" by (simp only: t(4) avg(3) m ex(2) adjusted_target_def Let_def)
  moreover have "calculate_difficulty_bits dm hs window gd = (Ok (compact_target_bits t) :: (u32, 'e) outcome)"
    using assms(2) avg(1) d(1) e(1) ex(1) t(1,2) pq
    by (simp add: calculate_difficulty_bits_def assms(1) bs Let_def inner_def len_def m_def)
  ultimately show thesis using that [OF p(2) t(3)] by blast
qed

section \<open>Properties\<close>

text \<open>C37. The work of a block is \<open>2 ^ 256 div (target + 1)\<close>. Two inputs are special: a compact form
  of the target zero has no work, because the sum wraps, and a target so small that the work needs
  more than 192 bits makes the function panic.\<close>

theorem calc_work_exact:
  "calc_work bits =
     (let t = compact_value bits; w = 2 ^ 256 div (t + 1)
      in if t = 0 then Ok 0 else if w < 2 ^ 192 then Ok (of_nat w) else Panic)"
  unfolding Let_def by (rule calc_work_value)

text \<open>Packing a target into its compact form and reading it back rounds it down to a multiple of a
  power of 256 and keeps at least 15 significant bits; a target below \<open>2 ^ 15\<close> is kept as it is.\<close>

theorem compact_target_rounds_down:
  assumes "length ws = 4"
  shows "\<exists>k. uval (from_compact_target_bits (compact_target_bits ws)) = uval ws div 256 ^ k * 256 ^ k
    \<and> (k = 0 \<or> 2 ^ 15 \<le> uval ws div 256 ^ k)"
  using compact_rounds [OF assms] unfolding from_compact_correct by metis

theorem compact_target_rounds_down_witness:
  "\<exists>k. uval (from_compact_target_bits (compact_target_bits [1, 2, 3, 4])) = uval [1, 2, 3, 4] div 256 ^ k * 256 ^ k
    \<and> (k = 0 \<or> 2 ^ 15 \<le> uval [1, 2, 3, 4] div 256 ^ k)"
  by (rule compact_target_rounds_down) simp

text \<open>Blocks are read from the store by their hash, so the window as a multiset determines them.\<close>

definition block_of_header :: "header_store \<Rightarrow> sortable_block \<Rightarrow> difficulty_block" where
  "block_of_header hs b = (case get_compact_header_data hs (block_hash b) of
     Some (timestamp, bits) \<Rightarrow> \<lparr>db_timestamp = timestamp, db_bits = bits, db_sortable_block = b\<rparr>
   | None \<Rightarrow> \<lparr>db_timestamp = 0, db_bits = 0, db_sortable_block = b\<rparr>)"

lemma get_difficulty_blocks_cases:
  "get_difficulty_blocks hs window =
     (if list_all (\<lambda>b. get_compact_header_data hs (block_hash b) \<noteq> None) window
      then Ok (map (block_of_header hs) window) else Panic)"
  unfolding get_difficulty_blocks_def
  by (induction window) (auto simp: block_of_header_def split: option.splits)

lemma minimal_unique:
  assumes "set bs = set cs" "is_minimal bs b" "is_minimal cs c" "inj_on db_sortable_block (set bs)"
  shows "b = c"
proof -
  have "\<not> difficulty_block_less b c" "\<not> difficulty_block_less c b" "b \<in> set bs" "c \<in> set bs"
    using assms(1-3) by (auto simp: is_minimal_def list_all_iff)
  then have "db_sortable_block b = db_sortable_block c" by (auto simp: difficulty_block_less_def not_less)
  then show ?thesis using assms(4) \<open>b \<in> set bs\<close> \<open>c \<in> set bs\<close> by (auto dest: inj_onD)
qed

lemma uint_sum_perm:
  assumes "mset xs = mset ys" "list_all (\<lambda>x. length x = n) xs"
  shows "uint_sum n xs = uint_sum n ys"
proof -
  have y: "list_all (\<lambda>x. length x = n) ys" using assms by (metis list_all_iff set_mset_mset)
  have "sum_list (map uval xs) = sum_list (map uval ys)" using assms(1) by (metis mset_map sum_mset_sum_list)
  then show ?thesis
    using uint_sum_correct [OF assms(2)] uint_sum_correct [OF y] uval_inj [of "uint_sum n xs" "uint_sum n ys"] by simp
qed

text \<open>The extremes of a window, as positions in the order in which it is read.\<close>

lemma position_minmax_window:
  assumes "position_minmax rest 1 (0, first) (0, first) = (p, q)"
  shows "p < length (first # rest)" "is_minimal (first # rest) ((first # rest) ! p)" "is_maximal (first # rest) ((first # rest) ! q)"
proof -
  have "is_minimal [first] first" "is_maximal [first] first"
    by (simp_all add: is_minimal_def is_maximal_def difficulty_block_less_irrefl)
  then show "p < length (first # rest)" "is_minimal (first # rest) ((first # rest) ! p)" "is_maximal (first # rest) ((first # rest) ! q)"
    using position_minmax_correct [of rest "[first]" 0 first 0 first p q] assms by simp_all
qed

text \<open>C36. The window is a heap whose storage order differs between nodes. The new difficulty does not
  depend on it: windows with the same blocks give the same bits, and panic in the same cases.\<close>

theorem difficulty_order_irrelevant:
  assumes perm: "mset window = mset window'"
  shows "calculate_difficulty_bits dm hs window gd = (calculate_difficulty_bits dm hs window' gd :: (u32, 'e) outcome)"
proof (cases "list_all (\<lambda>b. get_compact_header_data hs (block_hash b) \<noteq> None) window")
  case False
  moreover have "set window = set window'" using perm by (metis set_mset_mset)
  ultimately have "get_difficulty_blocks hs window = (Panic :: (difficulty_block list, 'e) outcome)"
    "get_difficulty_blocks hs window' = (Panic :: (difficulty_block list, 'e) outcome)"
    by (simp_all add: get_difficulty_blocks_cases list_all_iff)
  then show ?thesis by (simp add: calculate_difficulty_bits_def)
next
  case True
  define bs cs where "bs = map (block_of_header hs) window" and "cs = map (block_of_header hs) window'"
  have get: "get_difficulty_blocks hs window = (Ok bs :: (difficulty_block list, 'e) outcome)"
    "get_difficulty_blocks hs window' = (Ok cs :: (difficulty_block list, 'e) outcome)"
    using True perm by (auto simp: get_difficulty_blocks_cases bs_def cs_def list_all_iff dest: mset_eq_setD)
  have m: "mset bs = mset cs" using perm by (simp add: bs_def cs_def)
  have len: "length bs = length cs" using m by (rule mset_eq_length)
  have sets: "set bs = set cs" using m by (rule mset_eq_setD)
  show ?thesis
  proof (cases bs)
    case Nil
    then show ?thesis using get len by (simp add: calculate_difficulty_bits_def)
  next
    case (Cons b bs')
    then obtain c cs' where c: "cs = c # cs'" using len by (cases cs) auto
    obtain p q where pq: "position_minmax bs' 1 (0, b) (0, b) = (p, q)" by fastforce
    obtain p' q' where pq': "position_minmax cs' 1 (0, c) (0, c) = (p', q')" by fastforce
    note w = position_minmax_window [OF pq, folded Cons] position_minmax_window [OF pq', folded c]
    have inj: "inj_on db_sortable_block (set bs)" by (auto simp: inj_on_def bs_def block_of_header_def split: option.splits)
    have min: "bs ! p = cs ! p'" by (rule minimal_unique [OF sets w(2) w(5) inj])
    have "unat (db_timestamp (bs ! q)) = unat (db_timestamp (cs ! q'))"
      using maximal_timestamp [OF w(3)] maximal_timestamp [OF w(6)] sets by (simp add: timestamps_def)
    then have max: "db_timestamp (bs ! q) = db_timestamp (cs ! q')" by (simp add: word_unat_eq_iff)
    have "mset (swap_remove_at p bs) = mset (swap_remove_at p' cs)"
      using w(1,4) m min by (simp add: mset_swap_remove_at)
    then have "uint_sum 5 (map (\<lambda>b. uint320_of_uint256 (from_compact_target_bits (db_bits b))) (swap_remove_at p bs)) =
        uint_sum 5 (map (\<lambda>b. uint320_of_uint256 (from_compact_target_bits (db_bits b))) (swap_remove_at p' cs))"
      by (intro uint_sum_perm) (simp_all add: uint320_of_uint256_def from_compact_correct list_all_iff)
    moreover have "length (swap_remove_at p bs) = length (swap_remove_at p' cs)" using len by (simp add: swap_remove_at_def)
    ultimately show ?thesis
      using min max len get pq pq' Cons c unfolding calculate_difficulty_bits_def by (simp add: Let_def)
  qed
qed

definition ex_difficulty :: difficulty_manager where
  "ex_difficulty = \<lparr>dm_genesis_hash = 0, dm_genesis_bits = 0, dm_max_difficulty_target = uint320_of_uint256 [0, 0, 0, 1],
     dm_difficulty_window_size = 3, dm_min_difficulty_window_size = 2, dm_difficulty_sample_rate = 1,
     dm_target_time_per_block = 1000\<rparr>"

definition ex_headers :: header_store where
  "ex_headers = \<lparr>get_compact_header_data = \<lambda>h. Some (ucast h, 0x1d00ffff), get_bits = \<lambda>h. None, get_daa_score = \<lambda>h. None\<rparr>"

theorem difficulty_order_irrelevant_witness:
  "mset [SortableBlock 7 1, SortableBlock 9 2] = mset [SortableBlock 9 2, SortableBlock 7 1]
   \<and> calculate_difficulty_bits ex_difficulty ex_headers [SortableBlock 7 1, SortableBlock 9 2] (new_ghostdag_data 0 0 0 [] [] []) =
     (calculate_difficulty_bits ex_difficulty ex_headers [SortableBlock 9 2, SortableBlock 7 1] (new_ghostdag_data 0 0 0 [] [] []) :: (u32, unit) outcome)"
  using difficulty_order_irrelevant [of "[SortableBlock 7 1, SortableBlock 9 2]" "[SortableBlock 9 2, SortableBlock 7 1]"] by simp

text \<open>C35. On a window that is large enough, and where the expected duration fits in 64 bits, the new
  difficulty is the compact form of the average target of all blocks but the first in time, times
  the measured duration over the expected one, capped by the largest target. No intermediate sum or
  product loses a bit.\<close>

theorem difficulty_adjustment_exact:
  assumes "list_all (\<lambda>b. get_compact_header_data hs (block_hash b) \<noteq> None) window"
    and "unat (dm_min_difficulty_window_size dm) \<le> length window" "2 \<le> length window" "length window \<le> 2 ^ 64"
    and "length (dm_max_difficulty_target dm) = 5" "uval (dm_max_difficulty_target dm) < 2 ^ 256"
    and "0 < unat (dm_target_time_per_block dm) * unat (dm_difficulty_sample_rate dm)"
    and "unat (dm_target_time_per_block dm) * unat (dm_difficulty_sample_rate dm) * (length window - 1) < 2 ^ 64"
  shows "\<exists>b t. is_minimal (map (block_of_header hs) window) b
    \<and> length t = 4 \<and> uval t = adjusted_target dm (map (block_of_header hs) window) b
    \<and> calculate_difficulty_bits dm hs window gd = (Ok (compact_target_bits t) :: (u32, 'e) outcome)"
proof -
  have "get_difficulty_blocks hs window = (Ok (map (block_of_header hs) window) :: (difficulty_block list, 'e) outcome)"
    using assms(1) by (simp add: get_difficulty_blocks_cases)
  from calculate_difficulty_bits_value [OF this, of dm gd] show ?thesis using assms(2-) by (metis length_map)
qed

theorem difficulty_adjustment_exact_witness:
  "\<exists>b t. is_minimal (map (block_of_header ex_headers) [SortableBlock 7 1, SortableBlock 9 2]) b
    \<and> length t = 4 \<and> uval t = adjusted_target ex_difficulty (map (block_of_header ex_headers) [SortableBlock 7 1, SortableBlock 9 2]) b
    \<and> calculate_difficulty_bits ex_difficulty ex_headers [SortableBlock 7 1, SortableBlock 9 2]
        (new_ghostdag_data 0 0 0 [] [] []) = (Ok (compact_target_bits t) :: (u32, unit) outcome)"
  by (rule difficulty_adjustment_exact) (simp_all add: ex_headers_def ex_difficulty_def uint320_of_uint256_def)

end
