(* ===== verification/Ghostdag.thy ===== *)
theory Ghostdag
  imports Difficulty
begin

text \<open>
  The GHOSTDAG protocol (\<^verbatim>\<open>src/consensus/src/processes/ghostdag/protocol.rs\<close>, \<^verbatim>\<open>mergeset.rs\<close>,
  \<^verbatim>\<open>ordering.rs\<close>): the selected parent of a block, its merge set, the colouring of the merge set
  into blue and red blocks, and the score and work of the block.

  The stores the manager reads are one record of lookups, and the reachability service is the
  argument \<open>anc\<close>, a function that decides whether a block is an ancestor of another or equal to
  it. The three loops are \<^theory_text>\<open>partial_function\<close>s, so \<open>None\<close> means that a loop does not end; a
  run that ends gives an outcome, where \<open>Panic\<close> stands for a failed \<^verbatim>\<open>unwrap\<close>, \<^verbatim>\<open>assert!\<close> or
  overflow.
\<close>

section \<open>Runs that may not end\<close>

type_synonym 'a run = "('a, unit) outcome option"

definition run_bind :: "'a run \<Rightarrow> ('a \<Rightarrow> 'b run) \<Rightarrow> 'b run" where
  "run_bind m f = Option.bind m (\<lambda>r. case r of Ok x \<Rightarrow> f x | Err e \<Rightarrow> Some (Err e) | Panic \<Rightarrow> Some Panic)"

lemma run_bind_simps [simp]:
  "run_bind (Some (Ok x)) f = f x" "run_bind (Some (Err e)) f = Some (Err e)" "run_bind (Some Panic) f = Some Panic"
  "run_bind None f = None"
  by (simp_all add: run_bind_def)

lemma run_bind_mono [partial_function_mono]:
  assumes "mono_option m" "\<And>x. mono_option (\<lambda>g. f x g)"
  shows "mono_option (\<lambda>g. run_bind (m g) (\<lambda>x. f x g))"
  unfolding run_bind_def
proof (rule bind_mono [OF assms(1)])
  fix r
  show "mono_option (\<lambda>g. case r of Ok x \<Rightarrow> f x g | Err e \<Rightarrow> Some (Err e) | Panic \<Rightarrow> Some Panic)"
    using assms(2) by (cases r) (simp_all add: option.const_mono)
qed

section \<open>Stores\<close>

definition ORIGIN :: hash where
  "ORIGIN = of_nat (le_value (replicate 32 0xfe))"

definition is_origin :: "hash \<Rightarrow> bool" where
  "is_origin h = (h = ORIGIN)"

record dag_store =
  get_data :: "hash \<Rightarrow> ghostdag_data option"
  get_parents :: "hash \<Rightarrow> hash list option"
  get_header_bits :: "hash \<Rightarrow> u32 option"

definition get_blue_score :: "dag_store \<Rightarrow> hash \<Rightarrow> u64 option" where
  "get_blue_score st h = map_option gd_blue_score (get_data st h)"

definition get_blue_work :: "dag_store \<Rightarrow> hash \<Rightarrow> u192 option" where
  "get_blue_work st h = map_option gd_blue_work (get_data st h)"

definition get_selected_parent :: "dag_store \<Rightarrow> hash \<Rightarrow> hash option" where
  "get_selected_parent st h = map_option gd_selected_parent (get_data st h)"

definition get_blues_anticone_sizes :: "dag_store \<Rightarrow> hash \<Rightarrow> (hash, u16) hmap option" where
  "get_blues_anticone_sizes st h = map_option gd_blues_anticone_sizes (get_data st h)"

section \<open>The manager\<close>

record ghostdag_manager =
  gm_genesis_hash :: hash
  gm_k :: u16
  gm_level_work :: u192

definition new_ghostdag_manager :: "hash \<Rightarrow> u16 \<Rightarrow> ghostdag_manager" where
  "new_ghostdag_manager genesis k = \<lparr>gm_genesis_hash = genesis, gm_k = k, gm_level_work = 0\<rparr>"

definition ghostdag_manager_with_level :: "hash \<Rightarrow> u16 \<Rightarrow> u8 \<Rightarrow> u8 \<Rightarrow> ghostdag_manager" where
  "ghostdag_manager_with_level genesis k level max_block_level =
     \<lparr>gm_genesis_hash = genesis, gm_k = k, gm_level_work = level_work level max_block_level\<rparr>"

definition genesis_ghostdag_data :: ghostdag_data where
  "genesis_ghostdag_data = new_ghostdag_data 0 0 ORIGIN [] [] []"

definition origin_ghostdag_data :: ghostdag_data where
  "origin_ghostdag_data = new_ghostdag_data 0 0 0 [] [] []"

text \<open>\<^verbatim>\<open>max\<close> over the parents as sortable blocks; both \<^verbatim>\<open>unwrap\<close>s can panic.\<close>

definition find_selected_parent :: "dag_store \<Rightarrow> hash list \<Rightarrow> (hash, unit) outcome" where
  "find_selected_parent st parents =
     rbind (rmap (sortable_of (get_blue_work st)) parents) (\<lambda>bs.
     case bs of [] \<Rightarrow> Panic | b # rest \<Rightarrow> Ok (block_hash (foldl max b rest)))"

definition sort_blocks :: "dag_store \<Rightarrow> hash list \<Rightarrow> (hash list, unit) outcome" where
  "sort_blocks st blocks =
     rbind (rmap (sortable_of (get_blue_work st)) blocks) (\<lambda>bs. Ok (map block_hash (sort bs)))"

section \<open>The merge set\<close>

text \<open>
  The sets of the source are lists without repetitions. One round reads the parents of the block
  at the front of the queue.
\<close>

definition visit_parent ::
    "(hash \<Rightarrow> hash \<Rightarrow> bool) \<Rightarrow> hash \<Rightarrow> hash \<Rightarrow> hash list \<times> hash list \<times> hash list \<Rightarrow> hash list \<times> hash list \<times> hash list" where
  "visit_parent anc selected_parent parent = (\<lambda>(queue, mergeset, past).
     if parent \<in> set mergeset \<or> parent \<in> set past then (queue, mergeset, past)
     else if anc parent selected_parent then (queue, mergeset, past @ [parent])
     else (queue @ [parent], mergeset @ [parent], past))"

partial_function (option) mergeset_loop ::
    "(hash \<Rightarrow> hash \<Rightarrow> bool) \<Rightarrow> dag_store \<Rightarrow> hash \<Rightarrow> hash list \<Rightarrow> hash list \<Rightarrow> hash list \<Rightarrow> hash list run" where
  "mergeset_loop anc st selected_parent queue mergeset past =
     (case queue of [] \<Rightarrow> Some (Ok mergeset)
      | current # queue' \<Rightarrow>
          (case get_parents st current of None \<Rightarrow> Some Panic
           | Some ps \<Rightarrow>
               (case fold (visit_parent anc selected_parent) ps (queue', mergeset, past) of
                  (queue'', mergeset', past') \<Rightarrow> mergeset_loop anc st selected_parent queue'' mergeset' past')))"

definition unordered_mergeset_without_selected_parent ::
    "(hash \<Rightarrow> hash \<Rightarrow> bool) \<Rightarrow> dag_store \<Rightarrow> hash \<Rightarrow> hash list \<Rightarrow> hash list run" where
  "unordered_mergeset_without_selected_parent anc st selected_parent parents =
     (let queue = filter (\<lambda>p. p \<noteq> selected_parent) parents
      in mergeset_loop anc st selected_parent queue (remdups queue) [])"

definition ordered_mergeset_without_selected_parent ::
    "(hash \<Rightarrow> hash \<Rightarrow> bool) \<Rightarrow> dag_store \<Rightarrow> hash \<Rightarrow> hash list \<Rightarrow> hash list run" where
  "ordered_mergeset_without_selected_parent anc st selected_parent parents =
     run_bind (unordered_mergeset_without_selected_parent anc st selected_parent parents) (\<lambda>m. Some (sort_blocks st m))"

section \<open>Colouring\<close>

datatype coloring_state = StateBlue | StateRed | StatePending

datatype coloring_output = OutputBlue u16 "(hash, u16) hmap" | OutputRed

text \<open>\<^verbatim>\<open>blue_anticone_size\<close> walks up the selected chain to the nearest entry for the block.\<close>

partial_function (option) blue_anticone_size_loop ::
    "ghostdag_manager \<Rightarrow> dag_store \<Rightarrow> hash \<Rightarrow> (hash, u16) hmap \<Rightarrow> hash \<Rightarrow> u16 run" where
  "blue_anticone_size_loop gm st block sizes selected_parent =
     (case hm_get sizes block of Some found \<Rightarrow> Some (Ok found)
      | None \<Rightarrow>
          if selected_parent = gm_genesis_hash gm \<or> selected_parent = ORIGIN then Some Panic
          else case get_blues_anticone_sizes st selected_parent of None \<Rightarrow> Some Panic
               | Some sizes' \<Rightarrow>
                   (case get_selected_parent st selected_parent of None \<Rightarrow> Some Panic
                    | Some sp \<Rightarrow> blue_anticone_size_loop gm st block sizes' sp))"

definition blue_anticone_size :: "ghostdag_manager \<Rightarrow> dag_store \<Rightarrow> hash \<Rightarrow> ghostdag_data \<Rightarrow> u16 run" where
  "blue_anticone_size gm st block context =
     blue_anticone_size_loop gm st block (gd_blues_anticone_sizes context) (gd_selected_parent context)"

text \<open>The peers of one chain block. The state is the map of affected sizes and the candidate's own cnt.\<close>

fun check_peers ::
    "ghostdag_manager \<Rightarrow> (hash \<Rightarrow> hash \<Rightarrow> bool) \<Rightarrow> dag_store \<Rightarrow> ghostdag_data \<Rightarrow> hash \<Rightarrow> u16 \<Rightarrow> hash list
     \<Rightarrow> (hash, u16) hmap \<times> u16 \<Rightarrow> (coloring_state \<times> (hash, u16) hmap \<times> u16) run" where
  "check_peers gm anc st new_block_data candidate k [] (sizes, cnt) = Some (Ok (StatePending, sizes, cnt))"
| "check_peers gm anc st new_block_data candidate k (peer # peers) (sizes, cnt) =
     (if anc peer candidate then check_peers gm anc st new_block_data candidate k peers (sizes, cnt)
      else run_bind (blue_anticone_size gm st peer new_block_data) (\<lambda>peer_size.
           let sizes' = hm_insert peer peer_size sizes in
           run_bind (Some (add_w cnt 1)) (\<lambda>cnt'.
           if k < cnt' then Some (Ok (StateRed, sizes', cnt'))
           else if peer_size = k then Some (Ok (StateRed, sizes', cnt'))
           else if \<not> peer_size \<le> k then Some Panic
           else check_peers gm anc st new_block_data candidate k peers (sizes', cnt'))))"

definition check_blue_candidate_with_chain_block ::
    "ghostdag_manager \<Rightarrow> (hash \<Rightarrow> hash \<Rightarrow> bool) \<Rightarrow> dag_store \<Rightarrow> ghostdag_data \<Rightarrow> hash option \<times> ghostdag_data \<Rightarrow> hash \<Rightarrow> u16
     \<Rightarrow> (hash, u16) hmap \<times> u16 \<Rightarrow> (coloring_state \<times> (hash, u16) hmap \<times> u16) run" where
  "check_blue_candidate_with_chain_block gm anc st new_block_data chain_block candidate k acc =
     (if (case fst chain_block of Some h \<Rightarrow> anc h candidate | None \<Rightarrow> False)
      then Some (Ok (StateBlue, fst acc, snd acc))
      else check_peers gm anc st new_block_data candidate k (gd_mergeset_blues (snd chain_block)) acc)"

partial_function (option) check_chain ::
    "ghostdag_manager \<Rightarrow> (hash \<Rightarrow> hash \<Rightarrow> bool) \<Rightarrow> dag_store \<Rightarrow> ghostdag_data \<Rightarrow> hash \<Rightarrow> u16
     \<Rightarrow> hash option \<times> ghostdag_data \<Rightarrow> (hash, u16) hmap \<times> u16 \<Rightarrow> coloring_output run" where
  "check_chain gm anc st new_block_data candidate k chain_block acc =
     run_bind (check_blue_candidate_with_chain_block gm anc st new_block_data chain_block candidate k acc)
       (\<lambda>(state, sizes, cnt).
          case state of
            StateBlue \<Rightarrow> Some (Ok (OutputBlue cnt sizes))
          | StateRed \<Rightarrow> Some (Ok OutputRed)
          | StatePending \<Rightarrow>
              (let sp = gd_selected_parent (snd chain_block) in
               case get_data st sp of None \<Rightarrow> Some Panic
               | Some d \<Rightarrow> check_chain gm anc st new_block_data candidate k (Some sp, d) (sizes, cnt)))"

definition check_blue_candidate ::
    "ghostdag_manager \<Rightarrow> (hash \<Rightarrow> hash \<Rightarrow> bool) \<Rightarrow> dag_store \<Rightarrow> ghostdag_data \<Rightarrow> hash \<Rightarrow> u16 \<Rightarrow> coloring_output run" where
  "check_blue_candidate gm anc st new_block_data candidate k =
     run_bind (Some (add_w k 1)) (\<lambda>k1.
     if of_nat (length (gd_mergeset_blues new_block_data)) = k1 then Some (Ok OutputRed)
     else check_chain gm anc st new_block_data candidate k (None, new_block_data) ([], 0))"

fun color_mergeset ::
    "ghostdag_manager \<Rightarrow> (hash \<Rightarrow> hash \<Rightarrow> bool) \<Rightarrow> dag_store \<Rightarrow> u16 \<Rightarrow> hash list \<Rightarrow> ghostdag_data \<Rightarrow> ghostdag_data run" where
  "color_mergeset gm anc st k [] d = Some (Ok d)"
| "color_mergeset gm anc st k (candidate # rest) d =
     run_bind (check_blue_candidate gm anc st d candidate k) (\<lambda>coloring.
     case coloring of
       OutputBlue cnt sizes \<Rightarrow> run_bind (Some (add_blue candidate cnt sizes d)) (color_mergeset gm anc st k rest)
     | OutputRed \<Rightarrow> color_mergeset gm anc st k rest (add_red candidate d))"

text \<open>The sum of the work of the blues starts with the first summand; addition wraps at 192 bits.\<close>

definition block_work_of :: "ghostdag_manager \<Rightarrow> dag_store \<Rightarrow> hash \<Rightarrow> (u192, unit) outcome" where
  "block_work_of gm st h =
     rbind (expect (get_header_bits st h)) (\<lambda>bits. rbind (calc_work bits) (\<lambda>w. Ok (max w (gm_level_work gm))))"

definition ghostdag ::
    "ghostdag_manager \<Rightarrow> (hash \<Rightarrow> hash \<Rightarrow> bool) \<Rightarrow> dag_store \<Rightarrow> hash list \<Rightarrow> ghostdag_data run" where
  "ghostdag gm anc st parents =
     run_bind (Some (assert_that (parents \<noteq> []))) (\<lambda>_.
     run_bind (Some (find_selected_parent st parents)) (\<lambda>selected_parent.
     if is_origin selected_parent then Some (new_with_selected_parent selected_parent 1)
     else let k = gm_k gm in
       run_bind (Some (new_with_selected_parent selected_parent k)) (\<lambda>d0.
       run_bind (ordered_mergeset_without_selected_parent anc st selected_parent parents) (\<lambda>ordered_mergeset.
       run_bind (color_mergeset gm anc st k ordered_mergeset d0) (\<lambda>d.
       run_bind (Some (rbind (expect (get_blue_score st selected_parent)) (\<lambda>s.
                       add_w s (of_nat (length (gd_mergeset_blues d)))))) (\<lambda>blue_score.
       run_bind (Some (rmap (block_work_of gm st) (gd_mergeset_blues d))) (\<lambda>works.
       run_bind (Some (expect (get_blue_work st selected_parent))) (\<lambda>sp_work.
       Some (Ok (finalize_score_and_work blue_score (sp_work + sum_list works) d))))))))))"

end
