(* ===== verification/Ghostdag_Dag.thy ===== *)
theory Ghostdag_Dag
  imports Ghostdag
begin

text \<open>
  The DAG under the GHOSTDAG stores: ancestry as the closure of the parent relation, the blue set
  of a block along its selected chain, and the invariant of the stores that the protocol relies on
  and keeps. The invariant says in particular that the work of a block exceeds that of its parents,
  that the blue set of every block is a \<open>k\<close>-cluster, and that the recorded anticone sizes are
  exact.
\<close>

section \<open>Ancestry\<close>

definition blocks :: "dag_store \<Rightarrow> hash set" where
  "blocks st = {b. get_data st b \<noteq> None \<and> b \<noteq> ORIGIN}"

definition parent_of :: "dag_store \<Rightarrow> hash \<Rightarrow> hash \<Rightarrow> bool" where
  "parent_of st a b = (\<exists>ps. get_parents st b = Some ps \<and> a \<in> set ps)"

abbreviation reaches :: "dag_store \<Rightarrow> hash \<Rightarrow> hash \<Rightarrow> bool" where
  "reaches st \<equiv> (parent_of st)\<^sup>*\<^sup>*"

definition anticone :: "dag_store \<Rightarrow> hash \<Rightarrow> hash \<Rightarrow> bool" where
  "anticone st a b = (\<not> reaches st a b \<and> \<not> reaches st b a)"

text \<open>The reachability service decides ancestry between blocks.\<close>

definition decides_ancestry :: "(hash \<Rightarrow> hash \<Rightarrow> bool) \<Rightarrow> dag_store \<Rightarrow> bool" where
  "decides_ancestry anc st = (\<forall>a \<in> blocks st. \<forall>b \<in> blocks st. anc a b = reaches st a b)"

section \<open>Blue sets\<close>

inductive in_blue :: "ghostdag_manager \<Rightarrow> dag_store \<Rightarrow> hash \<Rightarrow> hash \<Rightarrow> bool" for gm st where
  own: "get_data st b = Some d \<Longrightarrow> x \<in> set (gd_mergeset_blues d) \<Longrightarrow> in_blue gm st b x"
| chain: "get_data st b = Some d \<Longrightarrow> b \<noteq> gm_genesis_hash gm \<Longrightarrow> in_blue gm st (gd_selected_parent d) x \<Longrightarrow> in_blue gm st b x"

definition blues_of :: "ghostdag_manager \<Rightarrow> dag_store \<Rightarrow> ghostdag_data \<Rightarrow> hash set" where
  "blues_of gm st d = set (gd_mergeset_blues d) \<union> {x. in_blue gm st (gd_selected_parent d) x}"

definition anticone_card :: "dag_store \<Rightarrow> hash set \<Rightarrow> hash \<Rightarrow> nat" where
  "anticone_card st B x = card {y \<in> B. anticone st x y}"

section \<open>The invariant\<close>

definition total_work :: "dag_store \<Rightarrow> hash \<Rightarrow> nat" where
  "total_work st b = (case get_data st b of Some d \<Rightarrow> unat (gd_blue_work d) | None \<Rightarrow> 0)"

definition positive_work :: "ghostdag_manager \<Rightarrow> dag_store \<Rightarrow> hash \<Rightarrow> bool" where
  "positive_work gm st b = (\<exists>w. block_work_of gm st b = Ok w \<and> 0 < w)"

definition mergeset_ok :: "dag_store \<Rightarrow> hash list \<Rightarrow> ghostdag_data \<Rightarrow> bool" where
  "mergeset_ok st ps d =
     (\<exists>rest. gd_mergeset_blues d = gd_selected_parent d # rest \<and> distinct (gd_selected_parent d # rest)
        \<and> (\<forall>x \<in> set rest. x \<in> blocks st \<and> (\<exists>p \<in> set ps. reaches st x p) \<and> \<not> reaches st x (gd_selected_parent d)))"

definition sizes_ok :: "ghostdag_manager \<Rightarrow> dag_store \<Rightarrow> ghostdag_data \<Rightarrow> bool" where
  "sizes_ok gm st d =
     (\<forall>x \<in> blues_of gm st d.
        anticone_card st (blues_of gm st d) x \<le> unat (gm_k gm)
        \<and> blue_anticone_size gm st x d = Some (Ok (of_nat (anticone_card st (blues_of gm st d) x))))"

definition block_ok :: "ghostdag_manager \<Rightarrow> dag_store \<Rightarrow> hash list \<Rightarrow> ghostdag_data \<Rightarrow> bool" where
  "block_ok gm st ps d =
     (set ps \<subseteq> blocks st \<and> gd_selected_parent d \<in> set ps
      \<and> (\<forall>p \<in> set ps. total_work st p < unat (gd_blue_work d))
      \<and> mergeset_ok st ps d \<and> sizes_ok gm st d)"

definition consistent :: "ghostdag_manager \<Rightarrow> dag_store \<Rightarrow> bool" where
  "consistent gm st =
     (finite (blocks st) \<and> gm_genesis_hash gm \<noteq> ORIGIN
      \<and> get_data st (gm_genesis_hash gm) = Some genesis_ghostdag_data
      \<and> get_parents st (gm_genesis_hash gm) = Some [ORIGIN] \<and> get_parents st ORIGIN = Some []
      \<and> (\<forall>b. get_data st b = None \<longrightarrow> get_parents st b = None)
      \<and> (\<forall>b \<in> blocks st. positive_work gm st b)
      \<and> (\<forall>b \<in> blocks st - {gm_genesis_hash gm}. \<exists>ps d.
           get_parents st b = Some ps \<and> get_data st b = Some d \<and> block_ok gm st ps d))"

lemma consistentD:
  assumes "consistent gm st"
  shows "finite (blocks st)" "gm_genesis_hash gm \<noteq> ORIGIN" "gm_genesis_hash gm \<in> blocks st"
    and "get_data st (gm_genesis_hash gm) = Some genesis_ghostdag_data"
    and "get_parents st (gm_genesis_hash gm) = Some [ORIGIN]" "get_parents st ORIGIN = Some []"
    and "get_data st b = None \<Longrightarrow> get_parents st b = None"
    and "b \<in> blocks st \<Longrightarrow> positive_work gm st b"
  using assms by (auto simp: consistent_def blocks_def)

lemma consistent_block:
  assumes "consistent gm st" "b \<in> blocks st" "b \<noteq> gm_genesis_hash gm"
  obtains ps d where "get_parents st b = Some ps" "get_data st b = Some d" "block_ok gm st ps d"
  using assms unfolding consistent_def by blast

section \<open>Order along the DAG\<close>

lemma no_parent_of_origin: "consistent gm st \<Longrightarrow> \<not> parent_of st a ORIGIN"
  by (simp add: parent_of_def consistentD)

lemma parent_of_genesis: "consistent gm st \<Longrightarrow> parent_of st a (gm_genesis_hash gm) \<longleftrightarrow> a = ORIGIN"
  by (simp add: parent_of_def consistentD)

lemma reaches_origin: "consistent gm st \<Longrightarrow> reaches st a ORIGIN \<Longrightarrow> a = ORIGIN"
  by (erule rtranclp.cases) (auto simp: no_parent_of_origin)

lemma parent_work:
  assumes "consistent gm st" "b \<in> blocks st" "b \<noteq> gm_genesis_hash gm" "parent_of st a b"
  shows "a \<in> blocks st \<and> total_work st a < total_work st b"
proof -
  obtain ps d where "get_parents st b = Some ps" "get_data st b = Some d" "block_ok gm st ps d"
    by (rule consistent_block [OF assms(1-3)])
  then show ?thesis using assms(4) by (auto simp: parent_of_def block_ok_def total_work_def)
qed

lemma reaches_work:
  assumes "consistent gm st" "reaches st a b" "b \<in> blocks st" "a \<noteq> ORIGIN"
  shows "a \<in> blocks st \<and> (a = b \<or> total_work st a < total_work st b)"
  using assms(2-)
proof (induction rule: rtranclp_induct)
  case (step c b)
  have "b \<noteq> gm_genesis_hash gm"
    using step.hyps assms(1) step.prems(2) reaches_origin by (auto simp: parent_of_genesis)
  from parent_work [OF assms(1) step.prems(1) this step.hyps(2)] step.IH step.prems(2) show ?case by auto
qed simp

lemma reaches_antisym:
  assumes "consistent gm st" "reaches st a b" "reaches st b a" "a \<in> blocks st" "b \<in> blocks st"
  shows "a = b"
  using reaches_work [OF assms(1,2,5)] reaches_work [OF assms(1,3,4)] assms(4,5) by (auto simp: blocks_def)

lemma genesis_reaches:
  assumes "consistent gm st" "b \<in> blocks st"
  shows "reaches st (gm_genesis_hash gm) b"
  using assms(2)
proof (induction "total_work st b" arbitrary: b rule: less_induct)
  case less
  show ?case
  proof (cases "b = gm_genesis_hash gm")
    case False
    obtain ps d where b: "get_parents st b = Some ps" "block_ok gm st ps d"
      using consistent_block [OF assms(1) less.prems False] by metis
    then have p: "parent_of st (gd_selected_parent d) b" by (auto simp: parent_of_def block_ok_def)
    from parent_work [OF assms(1) less.prems False this] less.hyps
    have "reaches st (gm_genesis_hash gm) (gd_selected_parent d)" by blast
    with p show ?thesis by (meson rtranclp.rtrancl_into_rtrancl)
  qed simp
qed

section \<open>Blue sets lie in the past\<close>

lemma in_blue_genesis: "consistent gm st \<Longrightarrow> \<not> in_blue gm st (gm_genesis_hash gm) x"
  by (auto elim!: in_blue.cases simp: consistentD genesis_ghostdag_data_def new_ghostdag_data_def)

lemma in_blue_iff: "get_data st b = Some d \<Longrightarrow> b \<noteq> gm_genesis_hash gm \<Longrightarrow> in_blue gm st b x \<longleftrightarrow> x \<in> blues_of gm st d"
  by (auto simp: blues_of_def intro: in_blue.intros elim: in_blue.cases)

lemma mergeset_okD:
  assumes "mergeset_ok st ps d"
  obtains rest where "gd_mergeset_blues d = gd_selected_parent d # rest" "distinct (gd_selected_parent d # rest)"
    "\<And>x. x \<in> set rest \<Longrightarrow> x \<in> blocks st \<and> (\<exists>p \<in> set ps. reaches st x p) \<and> \<not> reaches st x (gd_selected_parent d)"
  using assms unfolding mergeset_ok_def by blast

lemma block_blue:
  assumes "block_ok gm st ps d" "x \<in> set (gd_mergeset_blues d)"
  shows "x \<in> blocks st \<and> (\<exists>p \<in> set ps. reaches st x p)"
proof -
  have ok: "mergeset_ok st ps d" "gd_selected_parent d \<in> set ps" "set ps \<subseteq> blocks st" using assms(1) by (simp_all add: block_ok_def)
  obtain rest where r: "gd_mergeset_blues d = gd_selected_parent d # rest"
    "\<And>x. x \<in> set rest \<Longrightarrow> x \<in> blocks st \<and> (\<exists>p \<in> set ps. reaches st x p) \<and> \<not> reaches st x (gd_selected_parent d)"
    using mergeset_okD [OF ok(1)] by metis
  show ?thesis
  proof (cases "x = gd_selected_parent d")
    case True
    then show ?thesis using ok by auto
  next
    case False
    then show ?thesis using assms(2) r by simp
  qed
qed

lemma below_parent:
  assumes "consistent gm st" "b \<in> blocks st" "b \<noteq> gm_genesis_hash gm" "parent_of st p b" "reaches st x p" "x \<in> blocks st"
  shows "reaches st x b \<and> x \<noteq> b"
proof -
  have p: "p \<in> blocks st" "total_work st p < total_work st b" using parent_work [OF assms(1-4)] by simp_all
  have "total_work st x \<le> total_work st p" using reaches_work [OF assms(1,5) p(1)] assms(6) by (auto simp: blocks_def)
  then show ?thesis using p(2) rtranclp.rtrancl_into_rtrancl [OF assms(5,4)] by auto
qed

lemma in_blue_past:
  assumes "consistent gm st" "in_blue gm st b x" "b \<in> blocks st"
  shows "x \<in> blocks st \<and> reaches st x b \<and> x \<noteq> b"
  using assms(2,3)
proof (induction rule: in_blue.induct)
  case (own b d x)
  have ng: "b \<noteq> gm_genesis_hash gm"
    using own.hyps in_blue.own in_blue_genesis [OF assms(1)] by blast
  obtain ps where b: "get_parents st b = Some ps" "block_ok gm st ps d"
    using consistent_block [OF assms(1) own.prems ng] own.hyps(1) by (metis option.inject)
  obtain p where p: "p \<in> set ps" "reaches st x p" and x: "x \<in> blocks st"
    using block_blue [OF b(2) own.hyps(2)] by blast
  have "parent_of st p b" using p(1) b(1) by (auto simp: parent_of_def)
  from below_parent [OF assms(1) own.prems ng this p(2) x] x show ?case by simp
next
  case (chain b d x)
  obtain ps where b: "get_parents st b = Some ps" "block_ok gm st ps d"
    using consistent_block [OF assms(1) chain.prems chain.hyps(2)] chain.hyps(1) by (metis option.inject)
  then have sp: "gd_selected_parent d \<in> blocks st" "parent_of st (gd_selected_parent d) b"
    by (auto simp: block_ok_def parent_of_def)
  have x: "x \<in> blocks st" "reaches st x (gd_selected_parent d)" using chain.IH [OF sp(1)] by simp_all
  from below_parent [OF assms(1) chain.prems chain.hyps(2) sp(2) x(2,1)] x show ?case by simp
qed

end
