(* ===== verification/Ghostdag_Color.thy ===== *)
theory Ghostdag_Color
  imports Ghostdag_Dag
begin

text \<open>
  The loops of the GHOSTDAG protocol on consistent stores: the search returns exactly the merge
  set, the walk over the selected chain decides the colour of a candidate, and colouring the whole
  merge set keeps the blue set a \<open>k\<close>-cluster with exact anticone sizes. Every loop is shown to end
  and no step to panic.
\<close>

section \<open>The merge set\<close>

definition mergeset_of :: "dag_store \<Rightarrow> hash \<Rightarrow> hash list \<Rightarrow> hash set" where
  "mergeset_of st sp ps = {x \<in> blocks st. (\<exists>p \<in> set ps. reaches st x p) \<and> \<not> reaches st x sp}"

lemma visit_parents:
  assumes "decides_ancestry anc st" "sp \<in> blocks st" "set qs \<subseteq> blocks st" "\<forall>x \<in> set P. reaches st x sp"
    and "fold (visit_parent anc sp) qs (Q, M, P) = (Q', M', P')"
  shows "\<exists>new. Q' = Q @ new \<and> M' = M @ new \<and> distinct new \<and> set new \<inter> set M = {} \<and> set new \<subseteq> set qs
    \<and> (\<forall>x \<in> set new. \<not> reaches st x sp) \<and> (\<forall>x \<in> set P'. reaches st x sp) \<and> (\<forall>x \<in> set qs. x \<in> set M' \<or> reaches st x sp)"
  using assms(3-)
proof (induction qs arbitrary: Q M P)
  case Nil
  then show ?case by simp
next
  case (Cons q qs)
  have anc: "anc q sp \<longleftrightarrow> reaches st q sp" using assms(1,2) Cons.prems(1) by (simp add: decides_ancestry_def)
  have qs: "set qs \<subseteq> blocks st" using Cons.prems(1) by simp
  consider "q \<in> set M \<or> q \<in> set P" | "q \<notin> set M" "q \<notin> set P" "reaches st q sp" | "q \<notin> set M" "q \<notin> set P" "\<not> reaches st q sp"
    by blast
  then show ?case
  proof cases
    case 1
    then have "visit_parent anc sp q (Q, M, P) = (Q, M, P)" by (simp add: visit_parent_def)
    then have f: "fold (visit_parent anc sp) qs (Q, M, P) = (Q', M', P')" using Cons.prems(3) by simp
    from Cons.IH [OF qs Cons.prems(2) f] show ?thesis using 1 Cons.prems(2) by auto
  next
    case 2
    then have "visit_parent anc sp q (Q, M, P) = (Q, M, P @ [q])" using anc by (simp add: visit_parent_def)
    then have f: "fold (visit_parent anc sp) qs (Q, M, P @ [q]) = (Q', M', P')" using Cons.prems(3) by simp
    have "\<forall>x \<in> set (P @ [q]). reaches st x sp" using Cons.prems(2) 2 by simp
    from Cons.IH [OF qs this f] show ?thesis using 2 by auto
  next
    case 3
    then have "visit_parent anc sp q (Q, M, P) = (Q @ [q], M @ [q], P)" using anc by (simp add: visit_parent_def)
    then have f: "fold (visit_parent anc sp) qs (Q @ [q], M @ [q], P) = (Q', M', P')" using Cons.prems(3) by simp
    from Cons.IH [OF qs Cons.prems(2) f] obtain new where
      "Q' = (Q @ [q]) @ new" "M' = (M @ [q]) @ new" "distinct new" "set new \<inter> set (M @ [q]) = {}" "set new \<subseteq> set qs"
      "\<forall>x \<in> set new. \<not> reaches st x sp" "\<forall>x \<in> set P'. reaches st x sp" "\<forall>x \<in> set qs. x \<in> set M' \<or> reaches st x sp"
      by blast
    then show ?thesis using 3 by (intro exI [of _ "q # new"]) auto
  qed
qed

text \<open>A set of blocks closed under parents outside the past of the selected parent is the merge set.\<close>

lemma closed_mergeset:
  assumes "set M \<subseteq> mergeset_of st sp ps" "\<forall>p \<in> set ps. p = sp \<or> p \<in> set M"
    and "\<forall>x \<in> set M. \<forall>y. parent_of st y x \<longrightarrow> y \<in> set M \<or> reaches st y sp"
  shows "set M = mergeset_of st sp ps"
proof
  show "mergeset_of st sp ps \<subseteq> set M"
  proof
    fix x assume "x \<in> mergeset_of st sp ps"
    then obtain p where p: "p \<in> set ps" "reaches st x p" "\<not> reaches st x sp" by (auto simp: mergeset_of_def)
    from p(2,3) have "p \<in> set M \<Longrightarrow> x \<in> set M"
    proof (induction rule: converse_rtranclp_induct)
      case (step x y)
      then have "\<not> reaches st y sp" by (meson converse_rtranclp_into_rtranclp)
      with step have "y \<in> set M" by blast
      with step assms(3) show ?case by (meson converse_rtranclp_into_rtranclp rtranclp.rtrancl_refl)
    qed
    then show "x \<in> set M" using assms(2) p by metis
  qed
qed (rule assms(1))

lemma mergeset_parents:
  assumes "consistent gm st" "sp \<in> blocks st" "x \<in> mergeset_of st sp ps"
  obtains qs where "get_parents st x = Some qs" "set qs \<subseteq> blocks st"
proof -
  have x: "x \<in> blocks st" "\<not> reaches st x sp" using assms(3) by (auto simp: mergeset_of_def)
  then have "x \<noteq> gm_genesis_hash gm" using genesis_reaches [OF assms(1,2)] by auto
  from consistent_block [OF assms(1) x(1) this] that show thesis by (metis block_ok_def)
qed

lemma mergeset_loop_correct:
  assumes st: "consistent gm st" "decides_ancestry anc st" "sp \<in> blocks st"
    and "set M \<subseteq> mergeset_of st sp ps" "distinct M" "set Q \<subseteq> set M" "\<forall>x \<in> set P. reaches st x sp"
    and "\<forall>p \<in> set ps. p = sp \<or> p \<in> set M"
    and "\<forall>x \<in> set M - set Q. \<forall>y. parent_of st y x \<longrightarrow> y \<in> set M \<or> reaches st y sp"
  shows "\<exists>M'. mergeset_loop anc st sp Q M P = Some (Ok M') \<and> distinct M' \<and> set M' = mergeset_of st sp ps"
  using assms(4-)
proof (induction "card (blocks st - set M) + length Q" arbitrary: Q M P rule: less_induct)
  case less
  show ?case
  proof (cases Q)
    case Nil
    then have "mergeset_loop anc st sp Q M P = Some (Ok M)" by (subst mergeset_loop.simps) simp
    moreover have "set M = mergeset_of st sp ps" using closed_mergeset [OF less.prems(1,5)] less.prems(6) Nil by simp
    ultimately show ?thesis using less.prems(2) by blast
  next
    case (Cons c Q')
    have c: "c \<in> set M" "c \<in> mergeset_of st sp ps" using Cons less.prems(1,3) by auto
    obtain qs where qs: "get_parents st c = Some qs" "set qs \<subseteq> blocks st" by (rule mergeset_parents [OF st(1,3) c(2)])
    obtain Q2 M2 P2 where f: "fold (visit_parent anc sp) qs (Q', M, P) = (Q2, M2, P2)" by (metis prod_cases3)
    obtain new where new: "Q2 = Q' @ new" "M2 = M @ new" "distinct new" "set new \<inter> set M = {}" "set new \<subseteq> set qs"
      "\<forall>x \<in> set new. \<not> reaches st x sp" "\<forall>x \<in> set P2. reaches st x sp" "\<forall>x \<in> set qs. x \<in> set M2 \<or> reaches st x sp"
      using visit_parents [OF st(2,3) qs(2) less.prems(4) f] by blast
    have "mergeset_loop anc st sp Q M P = mergeset_loop anc st sp Q2 M2 P2"
      by (subst mergeset_loop.simps) (simp add: Cons qs(1) f)
    moreover have "\<exists>M'. mergeset_loop anc st sp Q2 M2 P2 = Some (Ok M') \<and> distinct M' \<and> set M' = mergeset_of st sp ps"
    proof (rule less.hyps)
      have fin: "finite (blocks st)" using st(1) by (rule consistentD)
      have "set new \<subseteq> blocks st - set M" using new(4,5) qs(2) by blast
      moreover have "blocks st - set M2 = (blocks st - set M) - set new" using new(2) by auto
      ultimately have "card (blocks st - set M) = card (blocks st - set M2) + length new"
        using fin new(3) card_mono [of "blocks st - set M" "set new"] by (simp add: card_Diff_subset distinct_card)
      then show "card (blocks st - set M2) + length Q2 < card (blocks st - set M) + length Q" using new(1) Cons by simp
      have "x \<in> mergeset_of st sp ps" if "x \<in> set new" for x
      proof -
        have "parent_of st x c" using that new(5) qs(1) by (auto simp: parent_of_def)
        then show ?thesis
          using c(2) that new(5,6) qs(2) by (auto simp: mergeset_of_def intro: converse_rtranclp_into_rtranclp)
      qed
      then show "set M2 \<subseteq> mergeset_of st sp ps" using less.prems(1) new(2) by auto
      show "\<forall>x \<in> set M2 - set Q2. \<forall>y. parent_of st y x \<longrightarrow> y \<in> set M2 \<or> reaches st y sp"
      proof (intro ballI allI impI)
        fix x y assume x: "x \<in> set M2 - set Q2" and y: "parent_of st y x"
        show "y \<in> set M2 \<or> reaches st y sp"
        proof (cases "x = c")
          case True
          then show ?thesis using y qs(1) new(8) by (auto simp: parent_of_def)
        next
          case False
          then have "x \<in> set M - set Q" using x new(1,2) Cons by auto
          then show ?thesis using less.prems(6) y new(2) by auto
        qed
      qed
    qed (use new less.prems Cons in auto)
    ultimately show ?thesis by simp
  qed
qed

text \<open>The parents of a block that passed the header checks: known blocks, none an ancestor of another.\<close>

definition valid_parents :: "dag_store \<Rightarrow> hash list \<Rightarrow> bool" where
  "valid_parents st ps =
     (ps \<noteq> [] \<and> set ps \<subseteq> blocks st \<and> (\<forall>p \<in> set ps. \<forall>q \<in> set ps. p \<noteq> q \<longrightarrow> \<not> reaches st p q))"

lemma unordered_mergeset_exact:
  assumes "consistent gm st" "decides_ancestry anc st" "valid_parents st ps" "sp \<in> set ps"
  shows "\<exists>M. unordered_mergeset_without_selected_parent anc st sp ps = Some (Ok M)
    \<and> distinct M \<and> set M = mergeset_of st sp ps"
proof -
  have ps: "set ps \<subseteq> blocks st" "sp \<in> blocks st" "\<And>p. p \<in> set ps \<Longrightarrow> p \<noteq> sp \<Longrightarrow> \<not> reaches st p sp"
    using assms(3,4) by (auto simp: valid_parents_def)
  show ?thesis unfolding unordered_mergeset_without_selected_parent_def Let_def
    by (rule mergeset_loop_correct [OF assms(1,2) ps(2)]) (use ps in \<open>auto simp: mergeset_of_def\<close>)
qed

section \<open>The colour of a candidate\<close>

text \<open>
  What the walk has collected: the set \<open>A\<close> of blue blocks in the anticone of the candidate, with
  their recorded anticone sizes \<open>f\<close>.
\<close>

definition collected :: "u16 \<Rightarrow> (hash \<Rightarrow> nat) \<Rightarrow> hash set \<Rightarrow> (hash, u16) hmap \<Rightarrow> u16 \<Rightarrow> bool" where
  "collected k f A sizes cnt =
     (hm_wf sizes \<and> (\<forall>y v. hm_get sizes y = Some v \<longleftrightarrow> y \<in> A \<and> v = of_nat (f y))
      \<and> finite A \<and> unat cnt = card A \<and> card A \<le> unat k \<and> (\<forall>y \<in> A. f y < unat k))"

lemma collected_empty: "collected k f {} [] 0"
  by (simp add: collected_def)

lemma unat_of_nat16: "n < 2 ^ 16 \<Longrightarrow> unat (of_nat n :: u16) = n"
  by (simp add: unat_of_nat take_bit_nat_def)

lemma unat_k: "unat (k :: u16) < 2 ^ 16"
  using unat_bound [of k] by simp

lemma collected_insert:
  assumes "collected k f A sizes cnt" "p \<notin> A" "f p < unat k" "card A + 1 \<le> unat k" "unat cnt' = card A + 1"
  shows "collected k f (insert p A) (hm_insert p (of_nat (f p)) sizes) cnt'"
  using assms by (auto simp: collected_def hmap_simps)

text \<open>A violation: too many collected blocks, or one that has no room left.\<close>

definition over :: "u16 \<Rightarrow> (hash \<Rightarrow> nat) \<Rightarrow> hash set \<Rightarrow> bool" where
  "over k f A = (unat k < card A \<or> (\<exists>y \<in> A. unat k \<le> f y))"

lemma over_mono: "over k f A \<Longrightarrow> A \<subseteq> B \<Longrightarrow> finite B \<Longrightarrow> over k f B"
  unfolding over_def using card_mono [of B A] by (auto intro: less_le_trans)

lemma collected_not_over: "collected k f A sizes cnt \<Longrightarrow> \<not> over k f A"
  by (auto simp: collected_def over_def)

lemma check_peers_correct:
  assumes "decides_ancestry anc st" "c \<in> blocks st" "set peers \<subseteq> blocks st" "distinct peers" "unat k < 2 ^ 16 - 1"
    and "\<forall>p \<in> set peers. blue_anticone_size gm st p d = Some (Ok (of_nat (f p))) \<and> f p \<le> unat k"
    and "collected k f A sizes cnt" "A \<inter> set peers = {}"
  shows "\<exists>s sizes' cnt'. check_peers gm anc st d c k peers (sizes, cnt) = Some (Ok (s, sizes', cnt'))
    \<and> (s = StateRed \<and> over k f (A \<union> {p \<in> set peers. \<not> reaches st p c})
       \<or> s = StatePending \<and> collected k f (A \<union> {p \<in> set peers. \<not> reaches st p c}) sizes' cnt')"
  using assms(3,4,6-)
proof (induction peers arbitrary: A sizes cnt)
  case (Cons p peers)
  have anc: "anc p c \<longleftrightarrow> reaches st p c" using assms(1,2) Cons.prems(1) by (simp add: decides_ancestry_def)
  show ?case
  proof (cases "reaches st p c")
    case True
    have "A \<union> {q \<in> set (p # peers). \<not> reaches st q c} = A \<union> {q \<in> set peers. \<not> reaches st q c}" using True by auto
    moreover have "\<exists>s sizes' cnt'. check_peers gm anc st d c k peers (sizes, cnt) = Some (Ok (s, sizes', cnt'))
        \<and> (s = StateRed \<and> over k f (A \<union> {p \<in> set peers. \<not> reaches st p c})
          \<or> s = StatePending \<and> collected k f (A \<union> {p \<in> set peers. \<not> reaches st p c}) sizes' cnt')"
      by (rule Cons.IH) (use Cons.prems in auto)
    ultimately show ?thesis using True anc by simp
  next
    case False
    have size: "blue_anticone_size gm st p d = Some (Ok (of_nat (f p)))" "f p \<le> unat k" using Cons.prems(3) by simp_all
    have u: "unat (of_nat (f p) :: u16) = f p" using size(2) unat_k [of k] by (intro unat_of_nat16) linarith
    have col: "unat cnt = card A" "card A \<le> unat k" using Cons.prems(4) by (simp_all add: collected_def)
    obtain cnt' where cnt': "checked_add cnt 1 = Some cnt'" "unat cnt' = card A + 1"
    proof -
      have "unat cnt + unat (1 :: u16) < 2 ^ 16" using col assms(5) by simp
      then have s: "checked_add cnt 1 = Some (cnt + 1)" by (simp add: checked_add_def)
      then have "unat (cnt + 1) = unat cnt + unat (1 :: u16)" by (simp only: checked_add_Some_iff)
      then show thesis using that [OF s] col(1) by simp
    qed
    consider (red) "k < cnt' \<or> of_nat (f p) = k" | (go) "\<not> k < cnt'" "of_nat (f p) \<noteq> k" by blast
    then show ?thesis
    proof cases
      case red
      have "unat k < card (insert p A) \<or> unat k \<le> f p"
        using red cnt'(2) u col Cons.prems(4,5) by (auto simp: word_less_nat_alt collected_def)
      then have "over k f (insert p A)" by (auto simp: over_def)
      then have "over k f (A \<union> {q \<in> set (p # peers). \<not> reaches st q c})"
        by (rule over_mono) (use False Cons.prems(4) in \<open>auto simp: collected_def\<close>)
      then show ?thesis using red False anc size(1) cnt'(1) by (auto simp: Let_def)
    next
      case go
      have fp: "f p < unat k" using go(2) u size(2) by (metis le_neq_implies_less word_unat_eq_iff)
      have le: "(of_nat (f p) :: u16) \<le> k" using u size(2) by (simp add: word_le_nat_alt)
      have ca: "card A + 1 \<le> unat k" using go(1) cnt'(2) by (simp add: word_less_nat_alt)
      have "p \<notin> A" using Cons.prems(5) by simp
      from collected_insert [OF Cons.prems(4) this fp ca cnt'(2)]
      have col': "collected k f (insert p A) (hm_insert p (of_nat (f p)) sizes) cnt'" .
      have "\<exists>s sizes' cnt''. check_peers gm anc st d c k peers (hm_insert p (of_nat (f p)) sizes, cnt') = Some (Ok (s, sizes', cnt''))
          \<and> (s = StateRed \<and> over k f (insert p A \<union> {p \<in> set peers. \<not> reaches st p c})
            \<or> s = StatePending \<and> collected k f (insert p A \<union> {p \<in> set peers. \<not> reaches st p c}) sizes' cnt'')"
        by (rule Cons.IH) (use Cons.prems col' in auto)
      moreover have "insert p A \<union> {q \<in> set peers. \<not> reaches st q c} = A \<union> {q \<in> set (p # peers). \<not> reaches st q c}"
        using False by auto
      moreover have "check_peers gm anc st d c k (p # peers) (sizes, cnt) =
          check_peers gm anc st d c k peers (hm_insert p (of_nat (f p)) sizes, cnt')"
        using False anc size(1) cnt'(1) go le by (simp add: Let_def)
      ultimately show ?thesis by simp
    qed
  qed
qed simp

lemma check_chain_correct:
  assumes st: "consistent gm st" "decides_ancestry anc st" "c \<in> blocks st" "unat k < 2 ^ 16 - 1"
    and "h \<in> blocks st" "get_data st h = Some dh"
    and "\<forall>x. in_blue gm st h x \<longrightarrow> blue_anticone_size gm st x d = Some (Ok (of_nat (f x))) \<and> f x \<le> unat k"
    and "collected k f A sizes cnt" "A \<inter> {x. in_blue gm st h x} = {}"
  shows "\<exists>out. check_chain gm anc st d c k (Some h, dh) (sizes, cnt) = Some (Ok out)
    \<and> (out = OutputRed \<and> over k f (A \<union> {x. in_blue gm st h x \<and> \<not> reaches st x c})
       \<or> (\<exists>cnt' sizes'. out = OutputBlue cnt' sizes'
        \<and> collected k f (A \<union> {x. in_blue gm st h x \<and> \<not> reaches st x c}) sizes' cnt'))"
  using assms(5-)
proof (induction "total_work st h" arbitrary: h dh A sizes cnt rule: less_induct)
  case less
  have anc: "anc h c \<longleftrightarrow> reaches st h c" using st(2,3) less.prems(1) by (simp add: decides_ancestry_def)
  show ?case
  proof (cases "reaches st h c")
    case True
    have none: "{x. in_blue gm st h x \<and> \<not> reaches st x c} = {}"
      using in_blue_past [OF st(1) _ less.prems(1)] True by (auto intro: rtranclp_trans)
    have "check_chain gm anc st d c k (Some h, dh) (sizes, cnt) = Some (Ok (OutputBlue cnt sizes))"
      by (subst check_chain.simps) (simp add: check_blue_candidate_with_chain_block_def anc True)
    then show ?thesis using less.prems(4) unfolding none by auto
  next
    case False
    have ng: "h \<noteq> gm_genesis_hash gm" using False genesis_reaches [OF st(1,3)] by auto
    obtain ps where h: "get_parents st h = Some ps" "block_ok gm st ps dh"
      using consistent_block [OF st(1) less.prems(1) ng] less.prems(2) by (metis option.inject)
    define sp where "sp = gd_selected_parent dh"
    obtain rest where blues: "gd_mergeset_blues dh = sp # rest" "distinct (sp # rest)"
      "\<And>x. x \<in> set rest \<Longrightarrow> x \<in> blocks st \<and> \<not> reaches st x sp"
      using h(2) mergeset_okD [of st ps dh] unfolding sp_def block_ok_def by metis
    have sp: "sp \<in> blocks st" "total_work st sp < total_work st h"
      using h parent_work [OF st(1) less.prems(1) ng, of sp] by (auto simp: block_ok_def parent_of_def sp_def)
    obtain dsp where dsp: "get_data st sp = Some dsp" using sp(1) by (auto simp: blocks_def)
    have blue: "in_blue gm st h x \<longleftrightarrow> x \<in> set (sp # rest) \<or> in_blue gm st sp x" for x
      using in_blue_iff [OF less.prems(2) ng, of x] blues(1) by (simp add: blues_of_def sp_def)
    have sub: "set (sp # rest) \<subseteq> blocks st" using sp(1) blues(3) by auto
    have dis: "\<not> in_blue gm st sp x" if "x \<in> set (sp # rest)" for x
      using in_blue_past [OF st(1) _ sp(1)] blues(3) that by auto
    obtain s sizes' cnt' where pe: "check_peers gm anc st d c k (sp # rest) (sizes, cnt) = Some (Ok (s, sizes', cnt'))"
      "s = StateRed \<and> over k f (A \<union> {p \<in> set (sp # rest). \<not> reaches st p c})
       \<or> s = StatePending \<and> collected k f (A \<union> {p \<in> set (sp # rest). \<not> reaches st p c}) sizes' cnt'"
      using check_peers_correct [OF st(2,3) sub blues(2) st(4), of gm d f A sizes cnt] less.prems(3,4,5) blue by blast
    have step: "check_chain gm anc st d c k (Some h, dh) (sizes, cnt) =
        (case s of StateBlue \<Rightarrow> Some (Ok (OutputBlue cnt' sizes')) | StateRed \<Rightarrow> Some (Ok OutputRed)
         | StatePending \<Rightarrow> check_chain gm anc st d c k (Some sp, dsp) (sizes', cnt'))"
      by (subst check_chain.simps)
        (simp add: check_blue_candidate_with_chain_block_def anc False blues(1) pe(1) sp_def [symmetric] dsp Let_def
           del: check_peers.simps split: coloring_state.splits)
    from pe(2) show ?thesis
    proof
      assume s: "s = StatePending \<and> collected k f (A \<union> {p \<in> set (sp # rest). \<not> reaches st p c}) sizes' cnt'"
      have "(A \<union> {p \<in> set (sp # rest). \<not> reaches st p c}) \<inter> {x. in_blue gm st sp x} = {}"
        using dis less.prems(5) blue by blast
      with less.hyps [OF sp(2,1) dsp _ conjunct2 [OF s]] less.prems(3) blue
      have "\<exists>out. check_chain gm anc st d c k (Some sp, dsp) (sizes', cnt') = Some (Ok out)
        \<and> (out = OutputRed \<and> over k f (A \<union> {p \<in> set (sp # rest). \<not> reaches st p c} \<union> {x. in_blue gm st sp x \<and> \<not> reaches st x c})
          \<or> (\<exists>cnt'' sizes''. out = OutputBlue cnt'' sizes''
          \<and> collected k f (A \<union> {p \<in> set (sp # rest). \<not> reaches st p c} \<union> {x. in_blue gm st sp x \<and> \<not> reaches st x c}) sizes'' cnt''))"
        by blast
      moreover have "A \<union> {p \<in> set (sp # rest). \<not> reaches st p c} \<union> {x. in_blue gm st sp x \<and> \<not> reaches st x c} =
          A \<union> {x. in_blue gm st h x \<and> \<not> reaches st x c}" using blue by blast
      ultimately show ?thesis using step s by simp
    next
      assume s: "s = StateRed \<and> over k f (A \<union> {p \<in> set (sp # rest). \<not> reaches st p c})"
      have "finite {x. in_blue gm st h x}"
        by (rule finite_subset [OF _ consistentD(1) [OF st(1)]]) (use in_blue_past [OF st(1) _ less.prems(1)] in auto)
      then have "over k f (A \<union> {x. in_blue gm st h x \<and> \<not> reaches st x c})"
        using less.prems(4) by (intro over_mono [OF conjunct2 [OF s]]) (auto simp: blue collected_def)
      then show ?thesis using step s by simp
    qed
  qed
qed

text \<open>The state of the colouring: data whose merge set is partly coloured.\<close>

definition coloring :: "ghostdag_manager \<Rightarrow> dag_store \<Rightarrow> hash list \<Rightarrow> ghostdag_data \<Rightarrow> bool" where
  "coloring gm st ps d = (gd_selected_parent d \<in> set ps \<and> mergeset_ok st ps d \<and> sizes_ok gm st d)"

lemma coloring_blues:
  assumes "consistent gm st" "coloring gm st ps d" "set ps \<subseteq> blocks st"
  obtains rest where "gd_mergeset_blues d = gd_selected_parent d # rest" "distinct (gd_selected_parent d # rest)"
    "set (gd_selected_parent d # rest) \<subseteq> blocks st"
    "\<forall>x \<in> set (gd_selected_parent d # rest). \<not> in_blue gm st (gd_selected_parent d) x"
proof -
  have sp: "gd_selected_parent d \<in> blocks st" using assms(2,3) by (auto simp: coloring_def)
  obtain rest where r: "gd_mergeset_blues d = gd_selected_parent d # rest" "distinct (gd_selected_parent d # rest)"
    "\<And>x. x \<in> set rest \<Longrightarrow> x \<in> blocks st \<and> (\<exists>p \<in> set ps. reaches st x p) \<and> \<not> reaches st x (gd_selected_parent d)"
    using assms(2) mergeset_okD [of st ps d] unfolding coloring_def by metis
  have "\<not> in_blue gm st (gd_selected_parent d) x" if "x \<in> set (gd_selected_parent d # rest)" for x
    using in_blue_past [OF assms(1) _ sp, of x] r(3) [of x] that by auto
  then show thesis using that [OF r(1,2)] r(3) sp by auto
qed

lemma blues_of_blocks:
  assumes "consistent gm st" "coloring gm st ps d" "set ps \<subseteq> blocks st"
  shows "blues_of gm st d \<subseteq> blocks st" "finite (blues_of gm st d)"
proof -
  have sp: "gd_selected_parent d \<in> blocks st" using assms(2,3) by (auto simp: coloring_def)
  obtain rest where "gd_mergeset_blues d = gd_selected_parent d # rest" "set (gd_selected_parent d # rest) \<subseteq> blocks st"
    by (rule coloring_blues [OF assms])
  then show "blues_of gm st d \<subseteq> blocks st" using in_blue_past [OF assms(1) _ sp] by (auto simp: blues_of_def)
  then show "finite (blues_of gm st d)" using consistentD(1) [OF assms(1)] by (rule finite_subset)
qed

text \<open>Beside the selected parent, the blues of the merge set lie in its anticone.\<close>

lemma selected_parent_anticone:
  assumes "consistent gm st" "coloring gm st ps d" "valid_parents st ps"
  shows "length (gd_mergeset_blues d) \<le> anticone_card st (blues_of gm st d) (gd_selected_parent d) + 1"
proof -
  define sp where "sp = gd_selected_parent d"
  have ps: "set ps \<subseteq> blocks st" "sp \<in> set ps" using assms(2,3) by (auto simp: valid_parents_def coloring_def sp_def)
  obtain rest where r: "gd_mergeset_blues d = sp # rest" "distinct (sp # rest)"
    "\<forall>x \<in> set rest. x \<in> blocks st \<and> (\<exists>p \<in> set ps. reaches st x p) \<and> \<not> reaches st x sp"
    using assms(2) unfolding coloring_def mergeset_ok_def sp_def by blast
  have "set rest \<subseteq> {y \<in> blues_of gm st d. anticone st sp y}"
  proof
    fix y assume y: "y \<in> set rest"
    then obtain p where p: "p \<in> set ps" "reaches st y p" "\<not> reaches st y sp" using r(3) by blast
    have "\<not> reaches st sp y"
    proof
      assume "reaches st sp y"
      then have "reaches st sp p" using p(2) by (rule rtranclp_trans)
      then have "p = sp" using assms(3) ps(2) p(1) by (auto simp: valid_parents_def)
      then show False using p by simp
    qed
    then show "y \<in> {y \<in> blues_of gm st d. anticone st sp y}" using y p(3) by (auto simp: blues_of_def r(1) anticone_def)
  qed
  moreover have "finite (blues_of gm st d)" by (rule blues_of_blocks(2) [OF assms(1,2) ps(1)])
  ultimately have "card (set rest) \<le> anticone_card st (blues_of gm st d) sp"
    unfolding anticone_card_def by (intro card_mono) auto
  then show ?thesis using r(1,2) by (simp add: distinct_card sp_def)
qed

lemma mergeset_blues_bound:
  assumes "consistent gm st" "coloring gm st ps d" "valid_parents st ps"
  shows "length (gd_mergeset_blues d) \<le> unat (gm_k gm) + 1"
proof -
  have "gd_selected_parent d \<in> blues_of gm st d" using assms(2) by (auto simp: coloring_def mergeset_ok_def blues_of_def)
  then have "anticone_card st (blues_of gm st d) (gd_selected_parent d) \<le> unat (gm_k gm)"
    using assms(2) by (simp add: coloring_def sizes_ok_def)
  then show ?thesis using selected_parent_anticone [OF assms] by linarith
qed

lemma mergeset_not_above:
  assumes "valid_parents st ps" "sp \<in> set ps" "c \<in> mergeset_of st sp ps"
  shows "\<not> reaches st sp c"
proof
  assume r: "reaches st sp c"
  obtain p where p: "p \<in> set ps" "reaches st c p" "\<not> reaches st c sp" using assms(3) by (auto simp: mergeset_of_def)
  from r p(2) have "reaches st sp p" by (rule rtranclp_trans)
  then have "p = sp" using assms(1,2) p(1) by (auto simp: valid_parents_def)
  then show False using p by simp
qed

lemma check_blue_candidate_correct:
  assumes st: "consistent gm st" "decides_ancestry anc st" "c \<in> mergeset_of st (gd_selected_parent d) ps" "unat (gm_k gm) < 2 ^ 16 - 1"
    and d: "coloring gm st ps d" "valid_parents st ps"
  defines "B \<equiv> blues_of gm st d"
  shows "\<exists>out. check_blue_candidate gm anc st d c (gm_k gm) = Some (Ok out)
    \<and> (out = OutputRed \<and> over (gm_k gm) (anticone_card st B) {x \<in> B. \<not> reaches st x c}
       \<or> (\<exists>cnt sizes. out = OutputBlue cnt sizes
        \<and> collected (gm_k gm) (anticone_card st B) {x \<in> B. \<not> reaches st x c} sizes cnt))"
proof -
  have cb: "c \<in> blocks st" and psb: "set ps \<subseteq> blocks st" and spp: "gd_selected_parent d \<in> set ps"
    using st(3) d by (simp_all add: mergeset_of_def valid_parents_def coloring_def)
  define k sp f where "k = gm_k gm" and "sp = gd_selected_parent d" and "f = anticone_card st B"
  obtain rest where "gd_mergeset_blues d = gd_selected_parent d # rest" "distinct (gd_selected_parent d # rest)"
    "set (gd_selected_parent d # rest) \<subseteq> blocks st"
    "\<forall>x \<in> set (gd_selected_parent d # rest). \<not> in_blue gm st (gd_selected_parent d) x"
    by (rule coloring_blues [OF st(1) d(1) psb])
  note blues = this [folded sp_def]
  have B: "B = set (sp # rest) \<union> {x. in_blue gm st sp x}" by (simp add: B_def blues_of_def blues(1) sp_def)
  have known: "blue_anticone_size gm st x d = Some (Ok (of_nat (f x))) \<and> f x \<le> unat k" if "x \<in> B" for x
    using d(1) that by (simp add: coloring_def sizes_ok_def B_def f_def k_def)
  have peers_known: "\<forall>p \<in> set (sp # rest). blue_anticone_size gm st p d = Some (Ok (of_nat (f p))) \<and> f p \<le> unat k"
    and chain_known: "\<forall>x. in_blue gm st sp x \<longrightarrow> blue_anticone_size gm st x d = Some (Ok (of_nat (f x))) \<and> f x \<le> unat k"
    using known B by blast+
  have k': "unat k < 2 ^ 16 - 1" using st(4) by (simp add: k_def)
  obtain dsp where dsp: "get_data st sp = Some dsp" using blues(3) by (auto simp: blocks_def)
  have "unat k + unat (1 :: u16) < 2 ^ 16" using st(4) by (simp add: k_def)
  then obtain k1 where k1: "checked_add k 1 = Some k1" by (simp add: checked_add_def)
  show ?thesis
  proof (cases "of_nat (length (gd_mergeset_blues d)) = k1")
    case True
    have "length (gd_mergeset_blues d) \<le> unat k + 1" using mergeset_blues_bound [OF st(1) d] by (simp add: k_def)
    then have "length (gd_mergeset_blues d) = unat k1" using True k' by (metis less_diff_conv le_less_trans unat_of_nat16)
    moreover have "unat k1 = unat k + 1" using k1 by (simp add: checked_add_Some_iff)
    ultimately have "unat k \<le> f sp" using selected_parent_anticone [OF st(1) d] by (simp add: f_def B_def sp_def)
    moreover have "sp \<in> {x \<in> B. \<not> reaches st x c}"
      using B mergeset_not_above [OF d(2) spp st(3)] by (simp add: sp_def)
    ultimately have "over k f {x \<in> B. \<not> reaches st x c}" by (auto simp: over_def)
    then show ?thesis using k1 True by (auto simp: check_blue_candidate_def k_def f_def)
  next
    case False
    obtain s sizes cnt where pe: "check_peers gm anc st d c k (sp # rest) ([], 0) = Some (Ok (s, sizes, cnt))"
      "s = StateRed \<and> over k f ({} \<union> {p \<in> set (sp # rest). \<not> reaches st p c})
       \<or> s = StatePending \<and> collected k f ({} \<union> {p \<in> set (sp # rest). \<not> reaches st p c}) sizes cnt"
      using check_peers_correct [OF st(2) cb blues(3,2) k' peers_known collected_empty] by blast
    have len: "1 + of_nat (length rest) \<noteq> k1" using False blues(1) by simp
    have step: "check_blue_candidate gm anc st d c k =
        (case s of StateBlue \<Rightarrow> Some (Ok (OutputBlue cnt sizes)) | StateRed \<Rightarrow> Some (Ok OutputRed)
         | StatePending \<Rightarrow> check_chain gm anc st d c k (Some sp, dsp) (sizes, cnt))"
      unfolding check_blue_candidate_def
      by (subst check_chain.simps)
        (simp add: k1 len check_blue_candidate_with_chain_block_def blues(1) pe(1) sp_def [symmetric] dsp Let_def
          del: check_peers.simps split: coloring_state.splits)
    from pe(2) show ?thesis
    proof
      assume s: "s = StatePending \<and> collected k f ({} \<union> {p \<in> set (sp # rest). \<not> reaches st p c}) sizes cnt"
      have spb: "sp \<in> blocks st" using blues(3) by simp
      have dis: "({} \<union> {p \<in> set (sp # rest). \<not> reaches st p c}) \<inter> {x. in_blue gm st sp x} = {}" using blues(4) by blast
      have "\<exists>out. check_chain gm anc st d c k (Some sp, dsp) (sizes, cnt) = Some (Ok out)
        \<and> (out = OutputRed \<and> over k f ({} \<union> {p \<in> set (sp # rest). \<not> reaches st p c} \<union> {x. in_blue gm st sp x \<and> \<not> reaches st x c})
          \<or> (\<exists>cnt' sizes'. out = OutputBlue cnt' sizes'
          \<and> collected k f ({} \<union> {p \<in> set (sp # rest). \<not> reaches st p c} \<union> {x. in_blue gm st sp x \<and> \<not> reaches st x c}) sizes' cnt'))"
        by (rule check_chain_correct [OF st(1,2) cb k' spb dsp chain_known conjunct2 [OF s] dis])
      moreover have "{} \<union> {p \<in> set (sp # rest). \<not> reaches st p c} \<union> {x. in_blue gm st sp x \<and> \<not> reaches st x c} =
          {x \<in> B. \<not> reaches st x c}" using B by blast
      ultimately show ?thesis using step s by (simp add: k_def f_def)
    next
      assume s: "s = StateRed \<and> over k f ({} \<union> {p \<in> set (sp # rest). \<not> reaches st p c})"
      have "finite B" unfolding B_def by (rule blues_of_blocks(2) [OF st(1) d(1) psb])
      then have "over k f {x \<in> B. \<not> reaches st x c}" by (intro over_mono [OF conjunct2 [OF s]]) (auto simp: B)
      then show ?thesis using step s by (simp add: k_def f_def)
    qed
  qed
qed

section \<open>Adding a blue block\<close>

text \<open>The loop of \<^verbatim>\<open>add_blue\<close> adds one to the recorded sizes of the affected blocks.\<close>

lemma add_blue_sizes:
  fixes sizes m :: "(hash, u16) hmap"
  assumes "hm_wf sizes" "\<forall>y v. hm_get sizes y = Some v \<longrightarrow> unat v < 2 ^ 16 - 1"
  shows "\<exists>m'. rfold bump_size sizes m = (Ok m' :: ((hash, u16) hmap, unit) outcome)
    \<and> (\<forall>y. hm_get m' y = (case hm_get sizes y of Some v \<Rightarrow> Some (v + 1) | None \<Rightarrow> hm_get m y))"
  using assms
proof (induction sizes arbitrary: m)
  case (Cons e sizes)
  obtain b n where e: "e = (b, n)" by fastforce
  have wf: "hm_wf sizes" "hm_get sizes b = None" using Cons.prems(1) by (simp_all add: e hm_wf_Cons)
  have n: "checked_add n 1 = Some (n + 1)" using Cons.prems(2) [rule_format, of b n] by (simp add: e checked_add_def)
  have "\<forall>y v. hm_get sizes y = Some v \<longrightarrow> unat v < 2 ^ 16 - 1"
    using Cons.prems(2) wf(2) unfolding e by (metis map_of_Cons_code(2) option.distinct(1))
  from Cons.IH [OF wf(1) this, of "hm_insert b (n + 1) m"]
  obtain m' where m': "rfold bump_size sizes (hm_insert b (n + 1) m) = (Ok m' :: ((hash, u16) hmap, unit) outcome)"
    "\<forall>y. hm_get m' y = (case hm_get sizes y of Some v \<Rightarrow> Some (v + 1) | None \<Rightarrow> hm_get (hm_insert b (n + 1) m) y)" by blast
  have "hm_get m' y = (case hm_get (e # sizes) y of Some v \<Rightarrow> Some (v + 1) | None \<Rightarrow> hm_get m y)" for y
    using m'(2) [rule_format, of y] wf(2) by (cases "y = b") (simp_all add: e hmap_simps split: option.split)
  moreover have "bump_size e m = (Ok (hm_insert b (n + 1) m) :: ((hash, u16) hmap, unit) outcome)" using n by (simp add: e bump_size_def)
  ultimately show ?case using m'(1) by auto
qed simp

lemma anticone_card_insert:
  assumes "finite B" "c \<notin> B" "\<forall>y \<in> B. \<not> reaches st c y"
  shows "y \<in> B \<Longrightarrow> anticone_card st (insert c B) y = anticone_card st B y + (if reaches st y c then 0 else 1)"
    and "anticone_card st (insert c B) c = card {x \<in> B. \<not> reaches st x c}"
proof -
  show "anticone_card st (insert c B) y = anticone_card st B y + (if reaches st y c then 0 else 1)" if "y \<in> B"
  proof (cases "reaches st y c")
    case True
    then have "{z \<in> insert c B. anticone st y z} = {z \<in> B. anticone st y z}" by (auto simp: anticone_def)
    then show ?thesis using True by (simp add: anticone_card_def)
  next
    case False
    then have "{z \<in> insert c B. anticone st y z} = insert c {z \<in> B. anticone st y z}" using assms(3) that by (auto simp: anticone_def)
    then show ?thesis using False assms(1,2) by (simp add: anticone_card_def)
  qed
  have "{z \<in> insert c B. anticone st c z} = {x \<in> B. \<not> reaches st x c}" using assms(3) by (auto simp: anticone_def)
  then show "anticone_card st (insert c B) c = card {x \<in> B. \<not> reaches st x c}" by (simp add: anticone_card_def)
qed

text \<open>The size of a block is looked up in the data first.\<close>

lemma blue_anticone_size_own:
  "hm_get (gd_blues_anticone_sizes d) x = Some n \<Longrightarrow> blue_anticone_size gm st x d = Some (Ok n)"
  unfolding blue_anticone_size_def by (subst blue_anticone_size_loop.simps) simp

lemma blue_anticone_size_same:
  assumes "hm_get (gd_blues_anticone_sizes d) x = hm_get (gd_blues_anticone_sizes d') x" "gd_selected_parent d = gd_selected_parent d'"
  shows "blue_anticone_size gm st x d = blue_anticone_size gm st x d'"
  unfolding blue_anticone_size_def assms(2)
  by (subst (1 2) blue_anticone_size_loop.simps) (simp only: assms(1))

lemma add_blue_keeps:
  assumes st: "consistent gm st" "unat (gm_k gm) < 2 ^ 16 - 1" and d: "coloring gm st ps d" "set ps \<subseteq> blocks st"
    and c: "c \<in> mergeset_of st (gd_selected_parent d) ps" "c \<notin> set (gd_mergeset_blues d)"
      "\<forall>y \<in> blues_of gm st d. \<not> reaches st c y"
    and col: "collected (gm_k gm) (anticone_card st (blues_of gm st d)) {x \<in> blues_of gm st d. \<not> reaches st x c} sizes cnt"
  shows "\<exists>d'. add_blue c cnt sizes d = (Ok d' :: (ghostdag_data, unit) outcome) \<and> coloring gm st ps d'
    \<and> gd_selected_parent d' = gd_selected_parent d \<and> gd_mergeset_blues d' = gd_mergeset_blues d @ [c]
    \<and> gd_mergeset_reds d' = gd_mergeset_reds d"
proof -
  define B f A where "B = blues_of gm st d" and "f = anticone_card st B" and "A = {x \<in> B. \<not> reaches st x c}"
  note col = col [folded B_def, folded f_def A_def]
  have get: "hm_get sizes y = Some v \<longleftrightarrow> y \<in> A \<and> v = of_nat (f y)" for y v using col by (simp add: collected_def)
  have small: "f y < unat (gm_k gm)" if "y \<in> A" for y using col that by (simp add: collected_def)
  have "\<forall>y v. hm_get sizes y = Some v \<longrightarrow> unat v < 2 ^ 16 - 1"
  proof (intro allI impI)
    fix y v assume "hm_get sizes y = Some v"
    then have "y \<in> A" "v = of_nat (f y)" by (simp_all add: get)
    then show "unat v < 2 ^ 16 - 1" using small [of y] st(2) by (simp add: unat_of_nat16)
  qed
  then obtain m where m: "rfold bump_size sizes (hm_insert c cnt (gd_blues_anticone_sizes d)) = (Ok m :: ((hash, u16) hmap, unit) outcome)"
    "\<forall>y. hm_get m y = (case hm_get sizes y of Some v \<Rightarrow> Some (v + 1) | None \<Rightarrow> hm_get (hm_insert c cnt (gd_blues_anticone_sizes d)) y)"
    using add_blue_sizes [of sizes "hm_insert c cnt (gd_blues_anticone_sizes d)"] col by (auto simp: collected_def)
  define d' where "d' = d\<lparr>gd_mergeset_blues := gd_mergeset_blues d @ [c], gd_blues_anticone_sizes := m\<rparr>"
  have B': "blues_of gm st d' = insert c B" by (auto simp: blues_of_def d'_def B_def)
  have fin: "finite B" and bl: "B \<subseteq> blocks st" unfolding B_def by (rule blues_of_blocks [OF st(1) d])+
  have cB: "c \<notin> B"
  proof
    assume "c \<in> B"
    then have "in_blue gm st (gd_selected_parent d) c" using c(2) by (auto simp: B_def blues_of_def)
    moreover have "gd_selected_parent d \<in> blocks st" using d by (auto simp: coloring_def)
    ultimately show False using c(1) in_blue_past [OF st(1)] by (auto simp: mergeset_of_def)
  qed
  note card = anticone_card_insert [OF fin cB c(3) [folded B_def]]
  have "anticone_card st (insert c B) x \<le> unat (gm_k gm)
      \<and> blue_anticone_size gm st x d' = Some (Ok (of_nat (anticone_card st (insert c B) x)))" if x: "x \<in> insert c B" for x
  proof -
    consider "x = c" | "x \<in> A" "x \<noteq> c" | "x \<in> B" "x \<notin> A" "x \<noteq> c" using x by (auto simp: A_def)
    then show ?thesis
    proof cases
      case 1
      have "hm_get sizes c = None" using get [of c] cB by (cases "hm_get sizes c") (auto simp: A_def)
      then have "hm_get m c = Some cnt" using m(2) by (simp add: hmap_simps)
      moreover have "unat cnt = card A" "card A \<le> unat (gm_k gm)" using col by (simp_all add: collected_def)
      moreover have "cnt = of_nat (card A)" unfolding calculation(2) [symmetric] by simp
      ultimately show ?thesis using 1 card(2) by (simp add: A_def [symmetric] blue_anticone_size_own d'_def)
    next
      case 2
      then have "hm_get m x = Some (of_nat (f x) + 1)" using m(2) get [of x "of_nat (f x)"] by simp
      moreover have "x \<in> B" "\<not> reaches st x c" using 2 by (simp_all add: A_def)
      ultimately show ?thesis using card(1) [of x] small [OF 2(1)] by (simp add: blue_anticone_size_own d'_def f_def add.commute)
    next
      case 3
      have "hm_get sizes x = None" using get [of x] 3 by (cases "hm_get sizes x") auto
      then have "hm_get m x = hm_get (gd_blues_anticone_sizes d) x" using m(2) 3 by (simp add: hmap_simps)
      then have "blue_anticone_size gm st x d' = blue_anticone_size gm st x d"
        by (intro blue_anticone_size_same) (simp_all add: d'_def)
      moreover have "reaches st x c" using 3 by (simp add: A_def)
      ultimately show ?thesis using card(1) [of x] 3 d(1) by (simp add: coloring_def sizes_ok_def B_def)
    qed
  qed
  then have "sizes_ok gm st d'" by (simp add: sizes_ok_def B')
  moreover have "mergeset_ok st ps d'"
  proof -
    obtain rest where r: "gd_mergeset_blues d = gd_selected_parent d # rest" "distinct (gd_selected_parent d # rest)"
      "\<forall>x \<in> set rest. x \<in> blocks st \<and> (\<exists>p \<in> set ps. reaches st x p) \<and> \<not> reaches st x (gd_selected_parent d)"
      using d(1) unfolding coloring_def mergeset_ok_def by blast
    then show ?thesis using c(1,2) unfolding mergeset_ok_def
      by (intro exI [of _ "rest @ [c]"]) (auto simp: d'_def mergeset_of_def)
  qed
  ultimately have "coloring gm st ps d'" using d(1) by (simp add: coloring_def d'_def)
  moreover have "add_blue c cnt sizes d = (Ok d' :: (ghostdag_data, unit) outcome)" by (simp add: add_blue_def m(1) d'_def)
  ultimately show ?thesis by (auto simp: d'_def)
qed

lemma add_red_keeps:
  assumes "coloring gm st ps d"
  shows "coloring gm st ps (add_red c d)" "blues_of gm st (add_red c d) = blues_of gm st d"
proof -
  show B: "blues_of gm st (add_red c d) = blues_of gm st d" by (simp add: blues_of_def add_red_def)
  have "blue_anticone_size gm st x (add_red c d) = blue_anticone_size gm st x d" for x
    by (intro blue_anticone_size_same) (simp_all add: add_red_def)
  then have "sizes_ok gm st (add_red c d)" using assms by (simp add: coloring_def sizes_ok_def B)
  then show "coloring gm st ps (add_red c d)" using assms by (simp add: coloring_def mergeset_ok_def add_red_def)
qed

section \<open>Colouring the merge set\<close>

lemma blues_not_above:
  assumes st: "consistent gm st" and d: "coloring gm st ps d" "set ps \<subseteq> blocks st"
    and c: "c \<in> mergeset_of st (gd_selected_parent d) ps" "\<forall>y \<in> set (drop 1 (gd_mergeset_blues d)). \<not> reaches st c y"
  shows "\<forall>y \<in> blues_of gm st d. \<not> reaches st c y"
proof
  fix y assume y: "y \<in> blues_of gm st d"
  have sp: "gd_selected_parent d \<in> blocks st" using d by (auto simp: coloring_def)
  obtain rest where r: "gd_mergeset_blues d = gd_selected_parent d # rest"
    using d(1) unfolding coloring_def mergeset_ok_def by blast
  have nc: "\<not> reaches st c (gd_selected_parent d)" using c(1) by (simp add: mergeset_of_def)
  from y consider "y = gd_selected_parent d" | "y \<in> set rest" | "in_blue gm st (gd_selected_parent d) y"
    by (auto simp: blues_of_def r)
  then show "\<not> reaches st c y"
  proof cases
    case 3
    then have "reaches st y (gd_selected_parent d)" using in_blue_past [OF st _ sp] by simp
    then show ?thesis using nc by (meson rtranclp_trans)
  qed (use nc c(2) r in auto)
qed

text \<open>
  The reference: take the candidates in order, and colour a candidate blue when neither its own
  blue anticone nor that of a blue block of its anticone exceeds \<open>k\<close>.
\<close>

definition can_be_blue :: "dag_store \<Rightarrow> nat \<Rightarrow> hash set \<Rightarrow> hash \<Rightarrow> bool" where
  "can_be_blue st k B c =
     (anticone_card st (insert c B) c \<le> k \<and> (\<forall>x \<in> B. anticone st x c \<longrightarrow> anticone_card st (insert c B) x \<le> k))"

fun greedy_blues :: "dag_store \<Rightarrow> nat \<Rightarrow> hash set \<Rightarrow> hash list \<Rightarrow> hash list" where
  "greedy_blues st k B [] = []"
| "greedy_blues st k B (c # cs) =
     (if can_be_blue st k B c then c # greedy_blues st k (insert c B) cs else greedy_blues st k B cs)"

lemma greedy_subset: "set (greedy_blues st k B cs) \<subseteq> set cs"
  by (induction cs arbitrary: B) (auto split: if_splits)

lemma greedy_filter: "distinct cs \<Longrightarrow> filter (\<lambda>c. c \<in> set (greedy_blues st k B cs)) cs = greedy_blues st k B cs"
proof (induction cs arbitrary: B)
  case (Cons c cs)
  have "filter (\<lambda>x. x = c \<or> x \<in> set (greedy_blues st k (insert c B) cs)) cs = filter (\<lambda>x. x \<in> set (greedy_blues st k (insert c B) cs)) cs"
    using Cons.prems by (intro filter_cong) auto
  then show ?case using Cons greedy_subset [of st k B cs] by auto
qed simp

lemma can_be_blue_iff:
  assumes "finite B" "c \<notin> B" "\<forall>y \<in> B. \<not> reaches st c y"
  shows "can_be_blue st (unat k) B c \<longleftrightarrow> \<not> over k (anticone_card st B) {x \<in> B. \<not> reaches st x c}"
proof -
  have "anticone st x c \<longleftrightarrow> \<not> reaches st x c" if "x \<in> B" for x using assms(3) that by (simp add: anticone_def)
  then show ?thesis
    using anticone_card_insert [OF assms] by (auto simp: can_be_blue_def over_def not_le not_less Suc_le_eq)
qed

lemma color_mergeset_correct:
  assumes st: "consistent gm st" "decides_ancestry anc st" "unat (gm_k gm) < 2 ^ 16 - 1" "valid_parents st ps"
    and "coloring gm st ps d" "set cs \<subseteq> mergeset_of st (gd_selected_parent d) ps"
    and "distinct cs" "sorted_wrt (\<lambda>x y. \<not> reaches st y x) cs"
    and "set cs \<inter> set (gd_mergeset_blues d) = {}"
    and "\<forall>c \<in> set cs. \<forall>y \<in> set (drop 1 (gd_mergeset_blues d)). \<not> reaches st c y"
  shows "\<exists>d'. color_mergeset gm anc st (gm_k gm) cs d = Some (Ok d') \<and> coloring gm st ps d'
    \<and> gd_selected_parent d' = gd_selected_parent d
    \<and> gd_mergeset_blues d' = gd_mergeset_blues d @ greedy_blues st (unat (gm_k gm)) (blues_of gm st d) cs
    \<and> gd_mergeset_reds d' = gd_mergeset_reds d
        @ filter (\<lambda>c. c \<notin> set (greedy_blues st (unat (gm_k gm)) (blues_of gm st d) cs)) cs"
  using assms(5-)
proof (induction cs arbitrary: d)
  case Nil
  then show ?case by simp
next
  case (Cons c cs)
  define k B where "k = unat (gm_k gm)" and "B = blues_of gm st d"
  have psb: "set ps \<subseteq> blocks st" using st(4) by (simp add: valid_parents_def)
  have cm: "c \<in> mergeset_of st (gd_selected_parent d) ps" using Cons.prems(2) by simp
  have new: "c \<notin> set (gd_mergeset_blues d)" using Cons.prems(5) by simp
  have above: "\<forall>y \<in> B. \<not> reaches st c y"
    unfolding B_def by (rule blues_not_above [OF st(1) Cons.prems(1) psb cm]) (use Cons.prems(6) in simp)
  have fin: "finite B" unfolding B_def by (rule blues_of_blocks(2) [OF st(1) Cons.prems(1) psb])
  have cB: "c \<notin> B" using above by auto
  obtain out where out: "check_blue_candidate gm anc st d c (gm_k gm) = Some (Ok out)"
    "out = OutputRed \<and> over (gm_k gm) (anticone_card st B) {x \<in> B. \<not> reaches st x c}
     \<or> (\<exists>cnt sizes. out = OutputBlue cnt sizes
        \<and> collected (gm_k gm) (anticone_card st B) {x \<in> B. \<not> reaches st x c} sizes cnt)"
    using check_blue_candidate_correct [OF st(1,2) cm st(3) Cons.prems(1) st(4)] unfolding B_def by blast
  from out(2) show ?case
  proof
    assume red: "out = OutputRed \<and> over (gm_k gm) (anticone_card st B) {x \<in> B. \<not> reaches st x c}"
    then have not_blue: "\<not> can_be_blue st k B c" using can_be_blue_iff [OF fin cB above] by (simp add: k_def)
    have "\<exists>d'. color_mergeset gm anc st (gm_k gm) cs (add_red c d) = Some (Ok d') \<and> coloring gm st ps d'
        \<and> gd_selected_parent d' = gd_selected_parent (add_red c d)
        \<and> gd_mergeset_blues d' = gd_mergeset_blues (add_red c d) @ greedy_blues st (unat (gm_k gm)) (blues_of gm st (add_red c d)) cs
        \<and> gd_mergeset_reds d' = gd_mergeset_reds (add_red c d)
          @ filter (\<lambda>x. x \<notin> set (greedy_blues st (unat (gm_k gm)) (blues_of gm st (add_red c d)) cs)) cs"
      by (rule Cons.IH) (use Cons.prems add_red_keeps(1) [OF Cons.prems(1)] in \<open>auto simp: add_red_def\<close>)
    moreover have "c \<notin> set (greedy_blues st k B cs)" using greedy_subset [of st k B cs] Cons.prems(3) by auto
    ultimately show ?thesis using out(1) red not_blue add_red_keeps(2) [OF Cons.prems(1)]
      by (simp add: k_def [symmetric] B_def [symmetric]) (simp add: add_red_def)
  next
    assume "\<exists>cnt sizes. out = OutputBlue cnt sizes
        \<and> collected (gm_k gm) (anticone_card st B) {x \<in> B. \<not> reaches st x c} sizes cnt"
    then obtain cnt sizes where b: "out = OutputBlue cnt sizes"
      "collected (gm_k gm) (anticone_card st B) {x \<in> B. \<not> reaches st x c} sizes cnt" by blast
    have blue: "can_be_blue st k B c"
      using can_be_blue_iff [OF fin cB above] collected_not_over [OF b(2)] by (simp add: k_def)
    obtain e where e: "add_blue c cnt sizes d = (Ok e :: (ghostdag_data, unit) outcome)" "coloring gm st ps e"
      "gd_selected_parent e = gd_selected_parent d" "gd_mergeset_blues e = gd_mergeset_blues d @ [c]"
      "gd_mergeset_reds e = gd_mergeset_reds d"
      using add_blue_keeps [OF st(1,3) Cons.prems(1) psb cm new above [unfolded B_def] b(2) [unfolded B_def]] by blast
    have Be: "blues_of gm st e = insert c B" by (auto simp: blues_of_def B_def e)
    have drop: "drop 1 (gd_mergeset_blues d @ [c]) = drop 1 (gd_mergeset_blues d) @ [c]"
      using Cons.prems(1) by (auto simp: coloring_def mergeset_ok_def)
    have "\<exists>d'. color_mergeset gm anc st (gm_k gm) cs e = Some (Ok d') \<and> coloring gm st ps d'
        \<and> gd_selected_parent d' = gd_selected_parent e
        \<and> gd_mergeset_blues d' = gd_mergeset_blues e @ greedy_blues st (unat (gm_k gm)) (blues_of gm st e) cs
        \<and> gd_mergeset_reds d' = gd_mergeset_reds e
          @ filter (\<lambda>x. x \<notin> set (greedy_blues st (unat (gm_k gm)) (blues_of gm st e) cs)) cs"
      by (rule Cons.IH) (use Cons.prems e drop in auto)
    moreover have "filter (\<lambda>x. x \<noteq> c \<and> x \<notin> set (greedy_blues st k (insert c B) cs)) cs
        = filter (\<lambda>x. x \<notin> set (greedy_blues st k (insert c B) cs)) cs" using Cons.prems(3) by (intro filter_cong) auto
    ultimately show ?thesis using out(1) b(1) e blue by (simp add: Be k_def [symmetric] B_def [symmetric])
  qed
qed

end
