(* ===== verification/Ghostdag_Safety.thy ===== *)
theory Ghostdag_Safety
  imports Ghostdag_Color
begin

text \<open>
  What the GHOSTDAG protocol guarantees. On consistent stores the protocol returns for every list
  of valid parents, and adding the block with the data it returns keeps the stores consistent. So
  in every state that is reached from genesis by adding blocks, the blue set of every block is a
  \<open>k\<close>-cluster, the recorded anticone sizes are exact and work grows along the DAG.
\<close>

section \<open>Sorting by work\<close>

definition block_key :: "dag_store \<Rightarrow> hash \<Rightarrow> sortable_block" where
  "block_key st h = SortableBlock h (case get_data st h of Some d \<Rightarrow> gd_blue_work d | None \<Rightarrow> 0)"

lemma block_key_hash [simp]: "block_hash (block_key st h) = h"
  by (simp add: block_key_def)

lemma block_key_less: "block_key st a \<le> block_key st b \<Longrightarrow> total_work st a \<le> total_work st b"
  by (auto simp: block_key_def total_work_def less_eq_sortable_block_def sortable_less_def word_less_nat_alt split: option.splits)

lemma sortable_keys:
  "set xs \<subseteq> blocks st \<Longrightarrow> rmap (sortable_of (get_blue_work st)) xs = Ok (map (block_key st) xs)"
  by (induction xs) (auto simp: sortable_of_def get_blue_work_def block_key_def blocks_def)

lemma foldl_max: "foldl max b bs \<in> set (b # bs) \<and> (\<forall>x \<in> set (b # bs). x \<le> foldl max b bs)" for b :: "'a::linorder"
proof (induction bs arbitrary: b)
  case (Cons c bs)
  from Cons.IH [of "max b c"] show ?case by (auto simp: max_def split: if_splits intro: order_trans)
qed simp

lemma find_selected_parent_correct:
  assumes "ps \<noteq> []" "set ps \<subseteq> blocks st"
  obtains sp where "find_selected_parent st ps = Ok sp" "sp \<in> set ps" "\<forall>p \<in> set ps. block_key st p \<le> block_key st sp"
proof -
  obtain p rest where ps: "ps = p # rest" using assms(1) by (cases ps) auto
  define m where "m = foldl max (block_key st p) (map (block_key st) rest)"
  have "m \<in> set (map (block_key st) ps)" "\<forall>x \<in> set (map (block_key st) ps). x \<le> m"
    using foldl_max [of "block_key st p" "map (block_key st) rest"] by (auto simp: m_def ps)
  then obtain sp where sp: "sp \<in> set ps" "m = block_key st sp" and max: "\<forall>p \<in> set ps. block_key st p \<le> block_key st sp" by auto
  have "find_selected_parent st ps = Ok sp"
    using sp(2) by (simp add: find_selected_parent_def sortable_keys [OF assms(2)]) (simp add: ps m_def [symmetric])
  then show thesis using that sp(1) max by blast
qed

lemma sorted_is_topological:
  assumes "consistent gm st" "set cs \<subseteq> blocks st" "distinct cs" "sorted (map (block_key st) cs)"
  shows "sorted_wrt (\<lambda>x y. \<not> reaches st y x) cs"
proof -
  have "\<not> reaches st (cs ! j) (cs ! i)" if "i < j" "j < length cs" for i j
  proof
    assume r: "reaches st (cs ! j) (cs ! i)"
    have in_b: "cs ! i \<in> blocks st" "cs ! j \<in> blocks st" using that assms(2) nth_mem [of i cs] nth_mem [of j cs] by auto
    have "total_work st (cs ! i) \<le> total_work st (cs ! j)"
      using sorted_nth_mono [OF assms(4), of i j] that by (intro block_key_less) simp
    moreover have "cs ! j \<noteq> cs ! i" using assms(3) that by (simp add: nth_eq_iff_index_eq)
    ultimately show False using reaches_work [OF assms(1) r in_b(1)] in_b(2) by (auto simp: blocks_def)
  qed
  then show ?thesis by (simp add: sorted_wrt_iff_nth_less)
qed

lemma sort_blocks_correct:
  assumes "consistent gm st" "set xs \<subseteq> blocks st" "distinct xs"
  obtains cs where "sort_blocks st xs = Ok cs" "set cs = set xs" "distinct cs"
    "sorted (map (block_key st) cs)" "sorted_wrt (\<lambda>x y. \<not> reaches st y x) cs"
proof -
  define cs where "cs = map block_hash (sort (map (block_key st) xs))"
  have cs: "sort_blocks st xs = Ok cs" by (simp add: sort_blocks_def sortable_keys [OF assms(2)] cs_def)
  have keys: "map (block_key st) cs = sort (map (block_key st) xs)"
    unfolding cs_def map_map by (rule map_idI) auto
  have set: "set cs = set xs" by (auto simp: cs_def image_iff)
  have "inj_on (block_key st) (set xs)" by (auto simp: inj_on_def block_key_def)
  then have "distinct (map (block_key st) cs)" using assms(3) unfolding keys by (simp add: distinct_map)
  then have dist: "distinct cs" by (simp add: distinct_map)
  have sorted: "sorted (map (block_key st) cs)" unfolding keys by simp
  show thesis using that [OF cs set dist sorted] sorted_is_topological [OF assms(1) _ dist sorted] set assms(2) by simp
qed

section \<open>The start of the colouring\<close>

lemma new_with_selected_parent_coloring:
  assumes "consistent gm st" "unat (gm_k gm) < 2 ^ 16 - 1" "set ps \<subseteq> blocks st" "sp \<in> set ps"
  obtains d where "new_with_selected_parent sp (gm_k gm) = (Ok d :: (ghostdag_data, unit) outcome)" "coloring gm st ps d"
    "gd_selected_parent d = sp" "gd_mergeset_blues d = [sp]" "gd_mergeset_reds d = []"
proof -
  define d where "d = \<lparr>gd_blue_score = 0, gd_blue_work = 0, gd_selected_parent = sp, gd_mergeset_blues = [sp],
         gd_mergeset_reds = [], gd_blues_anticone_sizes = hm_insert sp 0 []\<rparr>"
  have new: "new_with_selected_parent sp (gm_k gm) = (Ok d :: (ghostdag_data, unit) outcome)"
    using assms(2) by (simp add: new_with_selected_parent_def checked_add_def d_def)
  have sp: "sp \<in> blocks st" using assms(3,4) by auto
  define BS where "BS = {x. in_blue gm st sp x}"
  have B: "blues_of gm st d = insert sp BS" by (auto simp: blues_of_def d_def BS_def)
  have past: "x \<in> blocks st \<and> reaches st x sp \<and> x \<noteq> sp" if "x \<in> BS" for x
    using in_blue_past [OF assms(1) _ sp] that by (simp add: BS_def)
  have card: "anticone_card st (insert sp BS) x = anticone_card st BS x" if "x \<in> BS" for x
  proof -
    have "{y \<in> insert sp BS. anticone st x y} = {y \<in> BS. anticone st x y}" using past [OF that] by (auto simp: anticone_def)
    then show ?thesis by (simp add: anticone_card_def)
  qed
  have "anticone_card st (insert sp BS) x \<le> unat (gm_k gm)
      \<and> blue_anticone_size gm st x d = Some (Ok (of_nat (anticone_card st (insert sp BS) x)))" if x: "x \<in> insert sp BS" for x
  proof (cases "x = sp")
    case True
    have none: "{y \<in> insert sp BS. anticone st sp y} = {}" using past by (auto simp: anticone_def)
    have "anticone_card st (insert sp BS) sp = 0" unfolding anticone_card_def none by simp
    moreover have "blue_anticone_size gm st sp d = Some (Ok 0)" by (rule blue_anticone_size_own) (simp add: d_def)
    ultimately show ?thesis using True by simp
  next
    case False
    then have blue: "in_blue gm st sp x" using x by (simp add: BS_def)
    have ng: "sp \<noteq> gm_genesis_hash gm" using in_blue_genesis [OF assms(1)] blue by metis
    obtain qs dsp where dsp: "get_data st sp = Some dsp" "block_ok gm st qs dsp"
      using consistent_block [OF assms(1) sp ng] by metis
    have BS: "BS = blues_of gm st dsp" using in_blue_iff [OF dsp(1) ng] by (auto simp: BS_def)
    have "blue_anticone_size gm st x d = blue_anticone_size gm st x dsp"
      unfolding blue_anticone_size_def
      by (subst blue_anticone_size_loop.simps)
        (use False ng sp in \<open>simp add: d_def get_blues_anticone_sizes_def get_selected_parent_def dsp(1) blocks_def\<close>)
    moreover have "anticone_card st BS x \<le> unat (gm_k gm) \<and> blue_anticone_size gm st x dsp = Some (Ok (of_nat (anticone_card st BS x)))"
      using dsp(2) x False by (simp add: block_ok_def sizes_ok_def BS)
    ultimately show ?thesis using card [of x] x False by simp
  qed
  then have "sizes_ok gm st d" by (simp add: sizes_ok_def B)
  then have "coloring gm st ps d" using assms(4) by (simp add: coloring_def mergeset_ok_def d_def)
  then show thesis using that [OF new] by (simp add: d_def)
qed

section \<open>The protocol returns\<close>

definition own_work :: "ghostdag_manager \<Rightarrow> dag_store \<Rightarrow> hash \<Rightarrow> u192" where
  "own_work gm st b = (case block_work_of gm st b of Ok w \<Rightarrow> w | _ \<Rightarrow> 0)"

lemma own_work_positive: "consistent gm st \<Longrightarrow> b \<in> blocks st \<Longrightarrow> 0 < own_work gm st b"
  using consistentD(8) [of gm st b] by (auto simp: positive_work_def own_work_def)

lemma block_works:
  assumes "consistent gm st" "set bs \<subseteq> blocks st"
  shows "rmap (block_work_of gm st) bs = Ok (map (own_work gm st) bs)"
proof -
  have "block_work_of gm st b = Ok (own_work gm st b)" if "b \<in> blocks st" for b
    using consistentD(8) [OF assms(1) that] by (auto simp: positive_work_def own_work_def)
  then show ?thesis using assms(2) by (induction bs) auto
qed

text \<open>The scores of the parents leave room for one more block.\<close>

definition scores_fit :: "dag_store \<Rightarrow> hash list \<Rightarrow> bool" where
  "scores_fit st ps = list_all (\<lambda>p. case get_data st p of Some d \<Rightarrow> unat (gd_blue_score d) + 2 ^ 16 < 2 ^ 64 | None \<Rightarrow> True) ps"

definition greedy_of :: "ghostdag_manager \<Rightarrow> dag_store \<Rightarrow> hash \<Rightarrow> hash list \<Rightarrow> hash list" where
  "greedy_of gm st sp cs = greedy_blues st (unat (gm_k gm)) (insert sp {x. in_blue gm st sp x}) cs"

text \<open>The result: a complete colouring of the merge set, in the order of work, and the accumulated work.\<close>

definition ghostdag_result :: "ghostdag_manager \<Rightarrow> dag_store \<Rightarrow> hash list \<Rightarrow> ghostdag_data \<Rightarrow> bool" where
  "ghostdag_result gm st ps d =
     (coloring gm st ps d \<and> (\<forall>p \<in> set ps. block_key st p \<le> block_key st (gd_selected_parent d))
      \<and> (\<exists>cs. sorted (map (block_key st) cs) \<and> distinct cs \<and> set cs = mergeset_of st (gd_selected_parent d) ps
          \<and> gd_mergeset_blues d = gd_selected_parent d # greedy_of gm st (gd_selected_parent d) cs
          \<and> gd_mergeset_reds d = filter (\<lambda>c. c \<notin> set (greedy_of gm st (gd_selected_parent d) cs)) cs)
      \<and> gd_blue_work d = block_work (block_key st (gd_selected_parent d)) + sum_list (map (own_work gm st) (gd_mergeset_blues d))
      \<and> (\<exists>e. get_data st (gd_selected_parent d) = Some e
          \<and> unat (gd_blue_score d) = unat (gd_blue_score e) + length (gd_mergeset_blues d)))"

lemma finalize_coloring:
  "coloring gm st ps d \<Longrightarrow> coloring gm st ps (finalize_score_and_work s w d)"
proof -
  assume d: "coloring gm st ps d"
  have B: "blues_of gm st (finalize_score_and_work s w d) = blues_of gm st d" by (simp add: blues_of_def finalize_score_and_work_def)
  have "blue_anticone_size gm st x (finalize_score_and_work s w d) = blue_anticone_size gm st x d" for x
    by (intro blue_anticone_size_same) (simp_all add: finalize_score_and_work_def)
  then show ?thesis using d by (simp add: coloring_def sizes_ok_def B) (simp add: mergeset_ok_def finalize_score_and_work_def)
qed

lemma ghostdag_returns:
  assumes st: "consistent gm st" "decides_ancestry anc st" "unat (gm_k gm) < 2 ^ 16 - 1"
    and ps: "valid_parents st ps" "scores_fit st ps"
  shows "\<exists>d. ghostdag gm anc st ps = Some (Ok d) \<and> ghostdag_result gm st ps d"
proof -
  have psb: "ps \<noteq> []" "set ps \<subseteq> blocks st" using ps(1) by (simp_all add: valid_parents_def)
  obtain sp where sp: "find_selected_parent st ps = Ok sp" "sp \<in> set ps" "\<forall>p \<in> set ps. block_key st p \<le> block_key st sp"
    by (rule find_selected_parent_correct [OF psb])
  have spb: "sp \<in> blocks st" "\<not> is_origin sp" using sp(2) psb(2) by (auto simp: blocks_def is_origin_def)
  obtain dsp where dsp: "get_data st sp = Some dsp" using spb(1) by (auto simp: blocks_def)
  obtain d0 where d0: "new_with_selected_parent sp (gm_k gm) = (Ok d0 :: (ghostdag_data, unit) outcome)" "coloring gm st ps d0"
    "gd_selected_parent d0 = sp" "gd_mergeset_blues d0 = [sp]" "gd_mergeset_reds d0 = []"
    by (rule new_with_selected_parent_coloring [OF st(1,3) psb(2) sp(2)])
  obtain M where M: "unordered_mergeset_without_selected_parent anc st sp ps = Some (Ok M)" "distinct M" "set M = mergeset_of st sp ps"
    using unordered_mergeset_exact [OF st(1,2) ps(1) sp(2)] by blast
  have Mb: "set M \<subseteq> blocks st" using M(3) by (auto simp: mergeset_of_def)
  obtain cs where cs: "sort_blocks st M = Ok cs" "set cs = set M" "distinct cs"
    "sorted (map (block_key st) cs)" "sorted_wrt (\<lambda>x y. \<not> reaches st y x) cs"
    by (rule sort_blocks_correct [OF st(1) Mb M(2)])
  have ord: "ordered_mergeset_without_selected_parent anc st sp ps = Some (Ok cs)"
    by (simp add: ordered_mergeset_without_selected_parent_def M(1) cs(1))
  have "set cs \<inter> set (gd_mergeset_blues d0) = {}" using cs(2) M(3) by (auto simp: mergeset_of_def d0(4))
  moreover have "blues_of gm st d0 = insert sp {x. in_blue gm st sp x}" by (simp add: blues_of_def d0(3,4))
  ultimately obtain d1 where d1: "color_mergeset gm anc st (gm_k gm) cs d0 = Some (Ok d1)" "coloring gm st ps d1"
      "gd_selected_parent d1 = sp" "gd_mergeset_blues d1 = sp # greedy_of gm st sp cs"
      "gd_mergeset_reds d1 = filter (\<lambda>c. c \<notin> set (greedy_of gm st sp cs)) cs"
    using color_mergeset_correct [OF st ps(1) d0(2), of cs] cs M(3) d0(3-5) by (auto simp: greedy_of_def)
  have bb: "set (gd_mergeset_blues d1) \<subseteq> blocks st"
    using d1(4) spb(1) cs(2) Mb greedy_subset by (fastforce simp: greedy_of_def)
  define ws where "ws = map (own_work gm st) (gd_mergeset_blues d1)"
  have ws: "rmap (block_work_of gm st) (gd_mergeset_blues d1) = Ok ws" unfolding ws_def by (rule block_works [OF st(1) bb])
  have len: "length (gd_mergeset_blues d1) \<le> 2 ^ 16" using mergeset_blues_bound [OF st(1) d1(2) ps(1)] st(3) by linarith
  have "unat (gd_blue_score dsp) + 2 ^ 16 < 2 ^ 64" using ps(2) sp(2) dsp by (auto simp: scores_fit_def list_all_iff)
  moreover have "unat (of_nat (length (gd_mergeset_blues d1)) :: u64) = length (gd_mergeset_blues d1)"
    using len by (simp add: unat_of_nat64)
  ultimately obtain score where score: "checked_add (gd_blue_score dsp) (of_nat (length (gd_mergeset_blues d1))) = Some score"
      "unat score = unat (gd_blue_score dsp) + length (gd_mergeset_blues d1)"
    using len by (simp add: checked_add_def unat_word_ariths)
  define d where "d = finalize_score_and_work score (gd_blue_work dsp + sum_list ws) d1"
  have "ghostdag gm anc st ps = Some (Ok d)"
    by (simp add: ghostdag_def psb(1) sp(1) spb(2) d0(1) ord d1(1) get_blue_score_def get_blue_work_def dsp score(1) ws d_def)
  moreover have "ghostdag_result gm st ps d"
    unfolding ghostdag_result_def
  proof (intro conjI)
    show "coloring gm st ps d" unfolding d_def by (rule finalize_coloring [OF d1(2)])
    show "\<forall>p \<in> set ps. block_key st p \<le> block_key st (gd_selected_parent d)" using sp(3) d1(3) by (simp add: d_def finalize_score_and_work_def)
    show "\<exists>cs. sorted (map (block_key st) cs) \<and> distinct cs \<and> set cs = mergeset_of st (gd_selected_parent d) ps
          \<and> gd_mergeset_blues d = gd_selected_parent d # greedy_of gm st (gd_selected_parent d) cs
          \<and> gd_mergeset_reds d = filter (\<lambda>c. c \<notin> set (greedy_of gm st (gd_selected_parent d) cs)) cs"
      using cs M(3) d1(3-5) by (intro exI [of _ cs]) (simp add: d_def finalize_score_and_work_def)
    show "gd_blue_work d = block_work (block_key st (gd_selected_parent d)) + sum_list (map (own_work gm st) (gd_mergeset_blues d))"
      using d1(3) dsp by (simp add: d_def finalize_score_and_work_def block_key_def ws_def)
    show "\<exists>e. get_data st (gd_selected_parent d) = Some e \<and> unat (gd_blue_score d) = unat (gd_blue_score e) + length (gd_mergeset_blues d)"
      using dsp d1(3) score(2) by (simp add: d_def finalize_score_and_work_def)
  qed
  ultimately show ?thesis by blast
qed

section \<open>Adding a block\<close>

text \<open>
  The three insertions of \<^verbatim>\<open>commit_header\<close> into the stores GHOSTDAG reads; its other stores
  (windows, depths, reachability, tips, statuses) are not part of the state here.
\<close>

definition insert_ghostdag_data :: "hash \<Rightarrow> ghostdag_data \<Rightarrow> dag_store \<Rightarrow> dag_store" where
  "insert_ghostdag_data b d st = st\<lparr>get_data := (get_data st)(b \<mapsto> d)\<rparr>"

definition insert_header_bits :: "hash \<Rightarrow> u32 \<Rightarrow> dag_store \<Rightarrow> dag_store" where
  "insert_header_bits b bits st = st\<lparr>get_header_bits := (get_header_bits st)(b \<mapsto> bits)\<rparr>"

definition insert_relations :: "hash \<Rightarrow> hash list \<Rightarrow> dag_store \<Rightarrow> dag_store" where
  "insert_relations b ps st = st\<lparr>get_parents := (get_parents st)(b \<mapsto> ps)\<rparr>"

definition insert_block :: "hash \<Rightarrow> hash list \<Rightarrow> u32 \<Rightarrow> ghostdag_data \<Rightarrow> dag_store \<Rightarrow> dag_store" where
  "insert_block b ps bits d st = insert_relations b ps (insert_header_bits b bits (insert_ghostdag_data b d st))"

lemma insert_block_simps [simp]:
  "get_data (insert_block b ps bits d st) = (get_data st)(b \<mapsto> d)"
  "get_parents (insert_block b ps bits d st) = (get_parents st)(b \<mapsto> ps)"
  "get_header_bits (insert_block b ps bits d st) = (get_header_bits st)(b \<mapsto> bits)"
  by (simp_all add: insert_block_def insert_ghostdag_data_def insert_header_bits_def insert_relations_def)

lemma blocks_insert: "b \<noteq> ORIGIN \<Longrightarrow> blocks (insert_block b ps bits d st) = insert b (blocks st)"
  by (auto simp: blocks_def)

lemma new_is_no_parent:
  assumes "consistent gm st" "get_data st b = None" "b \<noteq> ORIGIN"
  shows "\<not> parent_of st b c"
proof
  assume p: "parent_of st b c"
  then have "get_data st c \<noteq> None" using consistentD(7) [OF assms(1), of c] by (cases "get_data st c") (auto simp: parent_of_def)
  moreover have "c \<noteq> ORIGIN" using p no_parent_of_origin [OF assms(1)] by blast
  ultimately have c: "c \<in> blocks st" by (simp add: blocks_def)
  have "c \<noteq> gm_genesis_hash gm" using p parent_of_genesis [OF assms(1)] assms(3) by blast
  then show False using parent_work [OF assms(1) c _ p] assms(2) by (simp add: blocks_def)
qed

lemma reaches_insert:
  assumes "consistent gm st" "get_data st b = None" "b \<noteq> ORIGIN" "c \<noteq> b"
  shows "reaches (insert_block b ps bits d st) a c \<longleftrightarrow> reaches st a c"
proof
  assume "reaches (insert_block b ps bits d st) a c"
  then show "reaches st a c" using assms(4)
  proof (induction rule: rtranclp_induct)
    case (step y z)
    have "parent_of st y z" using step.hyps(2) step.prems by (simp add: parent_of_def)
    moreover have "y \<noteq> b" using new_is_no_parent [OF assms(1-3)] calculation by blast
    ultimately show ?case using step.IH by (meson rtranclp.rtrancl_into_rtrancl)
  qed simp
next
  have none: "get_parents st b = None" using consistentD(7) [OF assms(1,2)] .
  assume "reaches st a c"
  then show "reaches (insert_block b ps bits d st) a c"
  proof (induction rule: rtranclp_induct)
    case (step y z)
    have "parent_of (insert_block b ps bits d st) y z" using step.hyps(2) none by (auto simp: parent_of_def)
    then show ?case using step.IH by (meson rtranclp.rtrancl_into_rtrancl)
  qed simp
qed

lemma in_blue_insert:
  assumes "consistent gm st" "get_data st b = None" "c \<in> blocks st"
  shows "in_blue gm (insert_block b ps bits d st) c x \<longleftrightarrow> in_blue gm st c x"
proof
  have sp: "gd_selected_parent e \<in> blocks st" if "get_data st c = Some e" "c \<in> blocks st" "c \<noteq> gm_genesis_hash gm" for c e
    using consistent_block [OF assms(1) that(2,3)] that(1) by (metis block_ok_def option.inject subsetD)
  have nb: "c \<noteq> b" if "c \<in> blocks st" for c using assms(2) that by (auto simp: blocks_def)
  show "in_blue gm st c x" if "in_blue gm (insert_block b ps bits d st) c x" using that assms(3)
    by (induction rule: in_blue.induct) (use sp nb in \<open>auto intro: in_blue.intros\<close>)
  show "in_blue gm (insert_block b ps bits d st) c x" if "in_blue gm st c x" using that assms(3)
    by (induction rule: in_blue.induct) (use sp nb in \<open>auto intro: in_blue.intros\<close>)
qed

lemma blue_anticone_size_insert:
  assumes "consistent gm st" "get_data st b = None" "sp \<in> blocks st"
  shows "blue_anticone_size_loop gm (insert_block b ps bits d st) x sizes sp = blue_anticone_size_loop gm st x sizes sp"
  using assms(3)
proof (induction "total_work st sp" arbitrary: sp sizes rule: less_induct)
  case less
  show ?case
  proof (cases "sp = gm_genesis_hash gm")
    case True
    then show ?thesis by (subst (1 2) blue_anticone_size_loop.simps) simp
  next
    case False
    obtain qs e where e: "get_parents st sp = Some qs" "get_data st sp = Some e" "block_ok gm st qs e"
      by (rule consistent_block [OF assms(1) less.prems False])
    have "parent_of st (gd_selected_parent e) sp" using e by (auto simp: parent_of_def block_ok_def)
    from parent_work [OF assms(1) less.prems False this] less.hyps
    have IH: "blue_anticone_size_loop gm (insert_block b ps bits d st) x sizes' (gd_selected_parent e)
        = blue_anticone_size_loop gm st x sizes' (gd_selected_parent e)" for sizes' by blast
    have "sp \<noteq> b" using assms(2) e(2) by auto
    then show ?thesis
      by (subst (1 2) blue_anticone_size_loop.simps)
        (simp add: get_blues_anticone_sizes_def get_selected_parent_def e(2) IH split: option.split)
  qed
qed

text \<open>The conditions on the data of a block depend only on the blocks below it.\<close>

lemma block_ok_insert:
  assumes st: "consistent gm st" "get_data st b = None" "b \<noteq> ORIGIN" and ok: "block_ok gm st qs e"
  shows "block_ok gm (insert_block b ps bits d st) qs e"
proof -
  define st' where "st' = insert_block b ps bits d st"
  have qs: "set qs \<subseteq> blocks st" "gd_selected_parent e \<in> set qs" using ok by (simp_all add: block_ok_def)
  then have sp: "gd_selected_parent e \<in> blocks st" by auto
  have nb: "c \<noteq> b" if "c \<in> blocks st" for c using st(2) that by (auto simp: blocks_def)
  have reach: "reaches st' a c \<longleftrightarrow> reaches st a c" if "c \<in> blocks st" for a c
    unfolding st'_def by (rule reaches_insert [OF st nb [OF that]])
  have B: "blues_of gm st' e = blues_of gm st e"
    unfolding blues_of_def st'_def using in_blue_insert [OF st(1,2) sp] by auto
  have Bb: "blues_of gm st e \<subseteq> blocks st"
    using block_blue [OF ok] in_blue_past [OF st(1) _ sp] by (auto simp: blues_of_def)
  have card: "anticone_card st' (blues_of gm st e) x = anticone_card st (blues_of gm st e) x" if "x \<in> blues_of gm st e" for x
  proof -
    have "{y \<in> blues_of gm st e. anticone st' x y} = {y \<in> blues_of gm st e. anticone st x y}"
      using reach that Bb by (auto simp: anticone_def)
    then show ?thesis by (simp add: anticone_card_def)
  qed
  have "blue_anticone_size gm st' x e = blue_anticone_size gm st x e" for x
    unfolding blue_anticone_size_def st'_def by (rule blue_anticone_size_insert [OF st(1,2) sp])
  then have "sizes_ok gm st' e" using ok card by (simp add: block_ok_def sizes_ok_def B)
  moreover have "mergeset_ok st' qs e"
  proof -
    have q: "(\<exists>p \<in> set qs. reaches st' x p) = (\<exists>p \<in> set qs. reaches st x p)" for x using reach qs(1) by blast
    have "blocks st' = insert b (blocks st)" unfolding st'_def by (rule blocks_insert [OF st(3)])
    then show ?thesis using ok unfolding block_ok_def mergeset_ok_def q reach [OF sp] by auto
  qed
  moreover have "total_work st' p = total_work st p" if "p \<in> set qs" for p
    using nb [of p] that qs(1) by (auto simp: st'_def total_work_def)
  ultimately show ?thesis unfolding st'_def [symmetric] using ok blocks_insert [OF st(3), of ps bits d st]
    by (auto simp: block_ok_def st'_def [symmetric])
qed

lemma consistent_insert:
  assumes st: "consistent gm st" "get_data st b = None" "b \<noteq> ORIGIN" and ok: "block_ok gm st ps d"
    and work: "calc_work bits = (Ok w :: (u192, unit) outcome)" "0 < max w (gm_level_work gm)"
  shows "consistent gm (insert_block b ps bits d st)"
proof -
  let ?st = "insert_block b ps bits d st"
  have bl: "blocks ?st = insert b (blocks st)" by (rule blocks_insert [OF st(3)])
  have ng: "gm_genesis_hash gm \<noteq> b" using st(2) consistentD(4) [OF st(1)] by auto
  have pw: "positive_work gm ?st c" if "c \<in> blocks ?st" for c
  proof (cases "c = b")
    case True
    then show ?thesis using work by (simp add: positive_work_def block_work_of_def)
  next
    case False
    then have "positive_work gm st c" using that bl consistentD(8) [OF st(1)] by simp
    then show ?thesis using False by (simp add: positive_work_def block_work_of_def)
  qed
  have each: "\<exists>qs e. get_parents ?st c = Some qs \<and> get_data ?st c = Some e \<and> block_ok gm ?st qs e"
    if c: "c \<in> blocks ?st - {gm_genesis_hash gm}" for c
  proof (cases "c = b")
    case True
    then show ?thesis using block_ok_insert [OF st ok] by simp
  next
    case False
    then obtain qs e where e: "get_parents st c = Some qs" "get_data st c = Some e" "block_ok gm st qs e"
      using consistent_block [OF st(1), of c] c bl by auto
    from block_ok_insert [OF st e(3)] e(1,2) False show ?thesis by simp
  qed
  have fin: "finite (blocks ?st)" using consistentD(1) [OF st(1)] bl by simp
  show ?thesis unfolding consistent_def using ng st(3) fin pw each consistentD(2,4-7) [OF st(1)] by simp
qed

section \<open>The data of the protocol fit the stores\<close>

text \<open>The work of the block does not wrap.\<close>

definition work_fits :: "ghostdag_manager \<Rightarrow> dag_store \<Rightarrow> ghostdag_data \<Rightarrow> bool" where
  "work_fits gm st d =
     (total_work st (gd_selected_parent d) + sum_list (map (\<lambda>b. unat (own_work gm st b)) (gd_mergeset_blues d)) < 2 ^ 192)"

lemma unat_sum_list:
  "n + sum_list (map unat ws) < 2 ^ LENGTH('a) \<Longrightarrow> unat w = n \<Longrightarrow> unat (w + sum_list ws) = n + sum_list (map unat ws)"
  for ws :: "'a::len word list"
proof (induction ws arbitrary: w n)
  case (Cons v ws)
  have "unat (w + v) = n + unat v" using Cons.prems by (subst unat_add_lem [THEN iffD1]) auto
  from Cons.IH [OF _ this] Cons.prems(1) show ?case by (simp add: add.assoc)
qed simp

lemma result_work:
  assumes "ghostdag_result gm st ps d" "work_fits gm st d"
  shows "unat (gd_blue_work d) = total_work st (gd_selected_parent d) + sum_list (map (\<lambda>b. unat (own_work gm st b)) (gd_mergeset_blues d))"
proof -
  have "total_work st (gd_selected_parent d) = unat (block_work (block_key st (gd_selected_parent d)))"
    by (simp add: total_work_def block_key_def split: option.split)
  then show ?thesis
    using unat_sum_list [of "total_work st (gd_selected_parent d)" "map (own_work gm st) (gd_mergeset_blues d)"] assms
    by (simp add: ghostdag_result_def work_fits_def comp_def)
qed

lemma result_block_ok:
  assumes "consistent gm st" "valid_parents st ps" "ghostdag_result gm st ps d" "work_fits gm st d"
  shows "block_ok gm st ps d"
proof -
  have d: "coloring gm st ps d" "\<forall>p \<in> set ps. total_work st p \<le> total_work st (gd_selected_parent d)"
    using assms(3) by (simp_all add: ghostdag_result_def block_key_less)
  have ps: "set ps \<subseteq> blocks st" "gd_selected_parent d \<in> blocks st"
    using assms(2) d(1) by (auto simp: valid_parents_def coloring_def)
  obtain rest where "gd_mergeset_blues d = gd_selected_parent d # rest"
    using d(1) unfolding coloring_def mergeset_ok_def by blast
  moreover have "0 < unat (own_work gm st (gd_selected_parent d))"
    using own_work_positive [OF assms(1) ps(2)] by (simp add: word_less_nat_alt)
  ultimately have "total_work st (gd_selected_parent d) < unat (gd_blue_work d)"
    using result_work [OF assms(3,4)] by simp
  then have "\<forall>p \<in> set ps. total_work st p < unat (gd_blue_work d)" using d(2) by (metis le_less_trans)
  then show ?thesis using d(1) ps(1) by (simp add: block_ok_def coloring_def)
qed

section \<open>The consensus order\<close>

lemma mergeset_iterators:
  assumes "set cs \<subseteq> blocks st" "sorted (map (block_key st) cs)" "distinct cs"
    and "gd_mergeset_blues d = gd_selected_parent d # filter blue cs" "gd_mergeset_reds d = filter (\<lambda>c. \<not> blue c) cs"
  shows "ascending_mergeset_without_selected_parent (get_blue_work st) d = Ok (map (block_key st) cs)"
    and "descending_mergeset_without_selected_parent (get_blue_work st) d = Ok (rev (map (block_key st) cs))"
proof -
  define ks where "ks = map (block_key st) cs"
  define P where "P = (\<lambda>k. blue (block_hash k))"
  have keys: "rmap (sortable_of (get_blue_work st)) (filter Q xs) = Ok (map (block_key st) (filter Q xs))" if "set xs \<subseteq> set cs" for Q xs
    using assms(1) that by (intro sortable_keys) auto
  have parts: "map (block_key st) (filter blue xs) = filter P (map (block_key st) xs)"
    "map (block_key st) (filter (\<lambda>c. \<not> blue c) xs) = filter (\<lambda>k. \<not> P k) (map (block_key st) xs)" for xs
    by (simp_all add: P_def filter_map comp_def)
  have "distinct ks" using assms(3) by (auto simp: ks_def distinct_map inj_on_def block_key_def)
  then have up: "sorted_wrt (<) ks" using assms(2) by (simp add: ks_def strict_sorted_iff)
  then have down: "sorted_wrt (>) (rev ks)" by (simp add: sorted_wrt_rev)
  show "ascending_mergeset_without_selected_parent (get_blue_work st) d = Ok (map (block_key st) cs)"
    by (simp add: ascending_mergeset_without_selected_parent_def assms(4,5) keys parts ks_def [symmetric] merge_distinct_filter [OF _ up])
  have "merge_distinct (>) (filter P (map (block_key st) (rev cs))) (filter (\<lambda>k. \<not> P k) (map (block_key st) (rev cs))) = Ok (rev ks)"
    unfolding rev_map [symmetric] ks_def [symmetric] by (rule merge_distinct_filter [OF _ down]) simp
  then show "descending_mergeset_without_selected_parent (get_blue_work st) d = Ok (rev (map (block_key st) cs))"
    by (simp add: descending_mergeset_without_selected_parent_def assms(4,5) rev_filter keys parts ks_def)
qed

lemma result_order:
  assumes "consistent gm st" "valid_parents st ps" "ghostdag_result gm st ps d"
  obtains cs where "set cs = mergeset_of st (gd_selected_parent d) ps" "distinct cs" "sorted_wrt (\<lambda>x y. \<not> reaches st y x) cs"
    "ascending_mergeset_without_selected_parent (get_blue_work st) d = (Ok (map (block_key st) cs) :: (sortable_block list, 'e) outcome)"
    "descending_mergeset_without_selected_parent (get_blue_work st) d = (Ok (rev (map (block_key st) cs)) :: (sortable_block list, 'e) outcome)"
proof -
  obtain cs where cs: "sorted (map (block_key st) cs)" "distinct cs" "set cs = mergeset_of st (gd_selected_parent d) ps"
     "gd_mergeset_blues d = gd_selected_parent d # greedy_of gm st (gd_selected_parent d) cs"
     "gd_mergeset_reds d = filter (\<lambda>c. c \<notin> set (greedy_of gm st (gd_selected_parent d) cs)) cs"
    using assms(3) unfolding ghostdag_result_def by blast
  define blue where "blue = (\<lambda>c. c \<in> set (greedy_of gm st (gd_selected_parent d) cs))"
  have parts: "gd_mergeset_blues d = gd_selected_parent d # filter blue cs" "gd_mergeset_reds d = filter (\<lambda>c. \<not> blue c) cs"
    using cs(4,5) greedy_filter [OF cs(2)] by (simp_all add: blue_def greedy_of_def)
  have bl: "set cs \<subseteq> blocks st" using cs(3) by (auto simp: mergeset_of_def)
  have "sorted_wrt (\<lambda>x y. \<not> reaches st y x) cs" by (rule sorted_is_topological [OF assms(1) bl cs(2,1)])
  then show thesis using that [OF cs(3,2)] mergeset_iterators [OF bl cs(1,2) parts] by blast
qed

section \<open>Reachable stores\<close>

text \<open>
  The stores after \<^verbatim>\<open>init\<close> and \<^verbatim>\<open>process_genesis\<close>
  (\<^verbatim>\<open>src/consensus/src/pipeline/header_processor/processor.rs\<close>): the origin without parents, and
  the genesis block with the origin as its parent.
\<close>

definition genesis_store :: "ghostdag_manager \<Rightarrow> u32 \<Rightarrow> dag_store" where
  "genesis_store gm bits =
     insert_block (gm_genesis_hash gm) [ORIGIN] bits genesis_ghostdag_data
       \<lparr>get_data = [ORIGIN \<mapsto> origin_ghostdag_data], get_parents = [ORIGIN \<mapsto> []], get_header_bits = Map.empty\<rparr>"

text \<open>
  A block is added with the data the protocol computes for it. The conditions bound the scores, the
  work and the difficulty that the machine integers can hold.
\<close>

inductive dag_reachable :: "ghostdag_manager \<Rightarrow> dag_store \<Rightarrow> bool" for gm where
  genesis: "gm_genesis_hash gm \<noteq> ORIGIN \<Longrightarrow> unat (gm_k gm) < 2 ^ 16 - 1
    \<Longrightarrow> calc_work bits = (Ok w :: (u192, unit) outcome) \<Longrightarrow> 0 < max w (gm_level_work gm)
    \<Longrightarrow> dag_reachable gm (genesis_store gm bits)"
| add: "dag_reachable gm st \<Longrightarrow> get_data st b = None \<Longrightarrow> b \<noteq> ORIGIN
    \<Longrightarrow> valid_parents st ps \<Longrightarrow> scores_fit st ps \<Longrightarrow> decides_ancestry anc st
    \<Longrightarrow> ghostdag gm anc st ps = Some (Ok d) \<Longrightarrow> work_fits gm st d
    \<Longrightarrow> calc_work bits = (Ok w :: (u192, unit) outcome) \<Longrightarrow> 0 < max w (gm_level_work gm)
    \<Longrightarrow> dag_reachable gm (insert_block b ps bits d st)"

lemma genesis_store_consistent:
  assumes "gm_genesis_hash gm \<noteq> ORIGIN" "calc_work bits = (Ok w :: (u192, unit) outcome)" "0 < max w (gm_level_work gm)"
  shows "consistent gm (genesis_store gm bits)"
proof -
  have bl: "blocks (genesis_store gm bits) = {gm_genesis_hash gm}"
    unfolding genesis_store_def using assms(1) by (auto simp: blocks_def)
  have "positive_work gm (genesis_store gm bits) (gm_genesis_hash gm)"
    using assms(2,3) by (simp add: positive_work_def block_work_of_def genesis_store_def)
  then show ?thesis using assms(1) unfolding consistent_def bl by (auto simp: genesis_store_def)
qed

lemma reachable_consistent:
  "dag_reachable gm st \<Longrightarrow> consistent gm st \<and> unat (gm_k gm) < 2 ^ 16 - 1"
proof (induction rule: dag_reachable.induct)
  case (genesis bits w)
  then show ?case using genesis_store_consistent by blast
next
  case (add st b ps anc d bits w)
  then have st: "consistent gm st" "unat (gm_k gm) < 2 ^ 16 - 1" by simp_all
  obtain d' where "ghostdag gm anc st ps = Some (Ok d')" "ghostdag_result gm st ps d'"
    using ghostdag_returns [OF st(1) add.hyps(6) st(2) add.hyps(4,5)] by blast
  then have "ghostdag_result gm st ps d" using add.hyps(7) by simp
  from result_block_ok [OF st(1) add.hyps(4) this add.hyps(8)]
  have "block_ok gm st ps d" .
  from consistent_insert [OF st(1) add.hyps(2,3) this add.hyps(9,10)] st(2) show ?case by simp
qed

text \<open>C1. On every store that is reached from genesis the protocol ends for every list of valid
  parents, without a panic. Its selected parent has the largest work. The rest of the merge set is
  exactly what lies in the past of the parents and not in the past of the selected parent. Its
  colouring, in the order of work, is the greedy one of the reference: a block is blue exactly when
  the blue set so far, extended by it, is still a \<open>k\<close>-cluster.\<close>

theorem ghostdag_colors_mergeset:
  assumes "dag_reachable gm st" "decides_ancestry anc st" "valid_parents st ps" "scores_fit st ps"
  shows "\<exists>d cs. ghostdag gm anc st ps = Some (Ok d)
    \<and> gd_selected_parent d \<in> set ps
    \<and> list_all (\<lambda>p. block_key st p \<le> block_key st (gd_selected_parent d)) ps
    \<and> set cs = {x \<in> blocks st. (\<exists>p \<in> set ps. reaches st x p) \<and> \<not> reaches st x (gd_selected_parent d)}
    \<and> distinct cs \<and> sorted (map (block_key st) cs)
    \<and> gd_mergeset_blues d = gd_selected_parent d # greedy_of gm st (gd_selected_parent d) cs
    \<and> gd_mergeset_reds d = filter (\<lambda>c. c \<notin> set (greedy_of gm st (gd_selected_parent d) cs)) cs"
proof -
  obtain d where d: "ghostdag gm anc st ps = Some (Ok d)" "ghostdag_result gm st ps d"
    using ghostdag_returns [OF _ assms(2) _ assms(3,4)] reachable_consistent [OF assms(1)] by blast
  then obtain cs where "sorted (map (block_key st) cs)" "distinct cs" "set cs = mergeset_of st (gd_selected_parent d) ps"
     "gd_mergeset_blues d = gd_selected_parent d # greedy_of gm st (gd_selected_parent d) cs"
     "gd_mergeset_reds d = filter (\<lambda>c. c \<notin> set (greedy_of gm st (gd_selected_parent d) cs)) cs"
    unfolding ghostdag_result_def by blast
  then show ?thesis using d
    by (intro exI [of _ d] exI [of _ cs]) (simp add: ghostdag_result_def coloring_def list_all_iff mergeset_of_def)
qed

definition ex_manager :: ghostdag_manager where
  "ex_manager = new_ghostdag_manager 1 18"

definition ex_genesis_store :: dag_store where
  "ex_genesis_store = genesis_store ex_manager 0x207fffff"

lemma le_value_replicate: "255 * le_value (replicate n b) + unat b = unat b * 256 ^ n"
  by (induction n) (simp_all add: algebra_simps)

lemma ORIGIN_value: "ORIGIN = 0xfefefefefefefefefefefefefefefefefefefefefefefefefefefefefefefefe"
proof -
  have "255 * le_value (replicate 32 0xfe) + 254 = 254 * 256 ^ 32" using le_value_replicate [of 32 "0xfe"] by simp
  then have "le_value (replicate 32 0xfe) = 0xfefefefefefefefefefefefefefefefefefefefefefefefefefefefefefefefe" by simp
  then show ?thesis unfolding ORIGIN_def by simp
qed

lemma ex_work: "calc_work 0x207fffff = (Ok 2 :: (u192, unit) outcome)"
proof -
  have "compact_value 0x207fffff = 0x7fffff * 2 ^ 232" by (simp add: compact_value_def mantissa_def exponent_def)
  then show ?thesis by (simp add: calc_work_value)
qed

lemma ex_genesis_reachable: "dag_reachable ex_manager ex_genesis_store"
  unfolding ex_genesis_store_def
  by (rule dag_reachable.genesis [OF _ _ ex_work]) (simp_all add: ex_manager_def new_ghostdag_manager_def ORIGIN_value)

lemma ex_genesis_blocks: "blocks ex_genesis_store = {1}"
  by (auto simp: blocks_def ex_genesis_store_def genesis_store_def ex_manager_def new_ghostdag_manager_def ORIGIN_value)

lemma ex_genesis_data: "get_data ex_genesis_store 1 = Some genesis_ghostdag_data"
  by (simp add: ex_genesis_store_def genesis_store_def ex_manager_def new_ghostdag_manager_def)

lemma ex_genesis_hyps:
  "decides_ancestry (=) ex_genesis_store" "valid_parents ex_genesis_store [1]" "scores_fit ex_genesis_store [1]"
  by (simp_all add: decides_ancestry_def valid_parents_def ex_genesis_blocks scores_fit_def ex_genesis_data
      genesis_ghostdag_data_def new_ghostdag_data_def)

theorem ghostdag_colors_mergeset_witness:
  "\<exists>d. ghostdag ex_manager (=) ex_genesis_store [1] = Some (Ok d) \<and> gd_selected_parent d = 1"
  using ghostdag_colors_mergeset [OF ex_genesis_reachable ex_genesis_hyps] by auto

text \<open>C2. The blue set of every block of a reachable store is a \<open>k\<close>-cluster: a block of it has at
  most \<open>k\<close> other blocks of it in its anticone. The lookup along the selected chain returns that
  number exactly.\<close>

theorem blue_set_k_cluster:
  assumes "dag_reachable gm st" "b \<in> blocks st" "get_data st b = Some d" "in_blue gm st b x"
  shows "card {y. in_blue gm st b y \<and> \<not> reaches st x y \<and> \<not> reaches st y x} \<le> unat (gm_k gm)
    \<and> blue_anticone_size gm st x d =
        Some (Ok (of_nat (card {y. in_blue gm st b y \<and> \<not> reaches st x y \<and> \<not> reaches st y x})))"
proof -
  have st: "consistent gm st" using reachable_consistent [OF assms(1)] by simp
  have ng: "b \<noteq> gm_genesis_hash gm" using in_blue_genesis [OF st] assms(4) by blast
  obtain ps where "block_ok gm st ps d" using consistent_block [OF st assms(2) ng] assms(3) by (metis option.inject)
  then have "sizes_ok gm st d" by (simp add: block_ok_def)
  moreover have "in_blue gm st b y \<longleftrightarrow> y \<in> blues_of gm st d" for y by (rule in_blue_iff [OF assms(3) ng])
  ultimately show ?thesis using assms(4) by (simp add: sizes_ok_def anticone_card_def anticone_def)
qed

definition ex_child_data :: ghostdag_data where
  "ex_child_data = new_ghostdag_data 1 2 1 [1] [] [(1, 0)]"

definition ex_child_store :: dag_store where
  "ex_child_store = insert_block 2 [1] 0x207fffff ex_child_data ex_genesis_store"

lemma ex_genesis_work: "block_work_of ex_manager ex_genesis_store 1 = Ok 2"
  by (simp add: block_work_of_def ex_genesis_store_def genesis_store_def ex_manager_def new_ghostdag_manager_def ex_work)

lemma ex_child_ghostdag: "ghostdag ex_manager (=) ex_genesis_store [1] = Some (Ok ex_child_data)"
proof -
  have "find_selected_parent ex_genesis_store [1] = Ok 1"
    by (simp add: find_selected_parent_def sortable_of_def get_blue_work_def ex_genesis_data)
  moreover have "gm_k ex_manager = 18" by (simp add: ex_manager_def new_ghostdag_manager_def)
  moreover have "ordered_mergeset_without_selected_parent (=) ex_genesis_store 1 [1] = Some (Ok [])"
    by (simp add: ordered_mergeset_without_selected_parent_def unordered_mergeset_without_selected_parent_def mergeset_loop.simps
        sort_blocks_def)
  ultimately show ?thesis
    by (simp add: ghostdag_def is_origin_def ORIGIN_value new_with_selected_parent_def ex_genesis_work get_blue_score_def
        get_blue_work_def ex_genesis_data genesis_ghostdag_data_def new_ghostdag_data_def finalize_score_and_work_def ex_child_data_def
        checked_add_def)
qed

lemma ex_child_reachable: "dag_reachable ex_manager ex_child_store"
  unfolding ex_child_store_def
proof (rule dag_reachable.add [OF ex_genesis_reachable _ _ ex_genesis_hyps(2,3,1) ex_child_ghostdag _ ex_work])
  show "get_data ex_genesis_store 2 = None"
    by (simp add: ex_genesis_store_def genesis_store_def ex_manager_def new_ghostdag_manager_def ORIGIN_value)
  show "work_fits ex_manager ex_genesis_store ex_child_data"
    by (simp add: work_fits_def ex_child_data_def new_ghostdag_data_def total_work_def ex_genesis_data genesis_ghostdag_data_def
        own_work_def ex_genesis_work)
qed (simp_all add: ORIGIN_value ex_manager_def new_ghostdag_manager_def)

lemma ex_child_blue: "in_blue ex_manager ex_child_store 2 1"
  by (rule in_blue.own [of _ _ ex_child_data]) (simp_all add: ex_child_store_def ex_child_data_def new_ghostdag_data_def)

lemma ex_child_block: "2 \<in> blocks ex_child_store" "get_data ex_child_store 2 = Some ex_child_data"
  by (simp_all add: blocks_def ex_child_store_def ORIGIN_value)

theorem blue_set_k_cluster_witness:
  "card {y. in_blue ex_manager ex_child_store 2 y \<and> \<not> reaches ex_child_store 1 y \<and> \<not> reaches ex_child_store y 1} \<le> 18"
  using blue_set_k_cluster [OF ex_child_reachable ex_child_block ex_child_blue]
  by (simp add: ex_manager_def new_ghostdag_manager_def)

text \<open>C4. Work grows along the DAG: an ancestor of a block has less work than the block, so the order
  of work that the protocol sorts by is a topological order.\<close>

theorem work_grows_along_dag:
  assumes "dag_reachable gm st" "a \<in> blocks st" "b \<in> blocks st" "reaches st a b" "a \<noteq> b"
  shows "block_key st a < block_key st b"
proof -
  have st: "consistent gm st" using reachable_consistent [OF assms(1)] by simp
  have "total_work st a < total_work st b" using reaches_work [OF st assms(4,3)] assms(2,5) by (simp add: blocks_def)
  then have "\<not> block_key st b \<le> block_key st a" using block_key_less [of st b a] by linarith
  then show ?thesis by simp
qed

lemma ex_child_reaches: "reaches ex_child_store 1 2" "1 \<in> blocks ex_child_store"
  by (auto intro!: r_into_rtranclp simp: parent_of_def ex_child_store_def blocks_def ORIGIN_value ex_genesis_data)

theorem work_grows_along_dag_witness: "block_key ex_child_store 1 < block_key ex_child_store 2"
  by (rule work_grows_along_dag [OF ex_child_reachable ex_child_reaches(2) ex_child_block(1) ex_child_reaches(1)]) simp

text \<open>C3. The consensus order of a merge set starts with the selected parent, contains every block of
  the merge set once, and no block stands before one of its ancestors. Walking the same merge set
  downwards gives the reverse order. Neither iterator panics.\<close>

theorem consensus_order_topological:
  assumes "dag_reachable gm st" "decides_ancestry anc st" "valid_parents st ps" "scores_fit st ps"
    and "ghostdag gm anc st ps = Some (Ok d)"
  shows "\<exists>cs. consensus_ordered_mergeset (get_blue_work st) d = (Ok (gd_selected_parent d # cs) :: (hash list, 'e) outcome)
    \<and> distinct (gd_selected_parent d # cs) \<and> set (gd_selected_parent d # cs) = set (unordered_mergeset d)
    \<and> sorted_wrt (\<lambda>x y. \<not> reaches st y x) (gd_selected_parent d # cs)
    \<and> rbind (descending_mergeset_without_selected_parent (get_blue_work st) d) (\<lambda>bs. Ok (map block_hash bs)) =
        (Ok (rev cs) :: (hash list, 'e) outcome)"
proof -
  have st: "consistent gm st" "unat (gm_k gm) < 2 ^ 16 - 1" using reachable_consistent [OF assms(1)] by simp_all
  have d: "ghostdag_result gm st ps d"
    using ghostdag_returns [OF st(1) assms(2) st(2) assms(3,4)] assms(5) by auto
  obtain cs where cs: "set cs = mergeset_of st (gd_selected_parent d) ps" "distinct cs" "sorted_wrt (\<lambda>x y. \<not> reaches st y x) cs"
    "ascending_mergeset_without_selected_parent (get_blue_work st) d = (Ok (map (block_key st) cs) :: (sortable_block list, 'e) outcome)"
    "descending_mergeset_without_selected_parent (get_blue_work st) d = (Ok (rev (map (block_key st) cs)) :: (sortable_block list, 'e) outcome)"
    by (rule result_order [OF st(1) assms(3) d])
  have out: "x \<notin> set cs" if "reaches st x (gd_selected_parent d)" for x using cs(1) that by (simp add: mergeset_of_def)
  have "set (unordered_mergeset d) = set (gd_selected_parent d # cs)"
    using d cs(1) greedy_subset by (fastforce simp: ghostdag_result_def unordered_mergeset_def greedy_of_def)
  then show ?thesis using cs out by (intro exI [of _ cs]) (auto simp: consensus_ordered_mergeset_def rev_map comp_def)
qed

theorem consensus_order_topological_witness:
  "\<exists>cs. consensus_ordered_mergeset (get_blue_work ex_genesis_store) ex_child_data = (Ok (1 # cs) :: (hash list, unit) outcome)"
  using consensus_order_topological [OF ex_genesis_reachable ex_genesis_hyps ex_child_ghostdag]
  by (auto simp: ex_child_data_def new_ghostdag_data_def)

end
