(* ===== verification/Header.thy ===== *)
theory Header
  imports Ghostdag_Data
begin

text \<open>
  Block headers (\<^verbatim>\<open>src/consensus/core/src/header.rs\<close>): the run-length encoding of the parents by
  level, the header with its cached hash (\<^verbatim>\<open>src/consensus/core/src/hashing/header.rs\<close>), and the
  status of a block (\<^verbatim>\<open>src/consensus/core/src/blockstatus.rs\<close>).

  The encoding is shown to be exact on its canonical form, and the hash to commit to every field.
  Runs that arrive from outside are checked by \<open>try_from_runs\<close>; the lemmas on it say which of the
  accepted ones the rest of the code cannot expand.
\<close>

section \<open>Iterators over runs\<close>

text \<open>\<^verbatim>\<open>dedup_with_count\<close> of \<^verbatim>\<open>itertools\<close>, and the running total of the counts.\<close>

fun dedup_with_count :: "'a list \<Rightarrow> (nat \<times> 'a) list" where
  "dedup_with_count [] = []"
| "dedup_with_count (x # xs) =
     (case dedup_with_count xs of [] \<Rightarrow> [(1, x)]
      | (n, y) # r \<Rightarrow> if x = y then (n + 1, y) # r else (1, x) # (n, y) # r)"

fun cumulate :: "nat \<Rightarrow> (nat \<times> 'a) list \<Rightarrow> (nat \<times> 'a) list" where
  "cumulate acc [] = []"
| "cumulate acc ((n, x) # r) = (acc + n, x) # cumulate (acc + n) r"

definition rle_cumulative :: "'a list \<Rightarrow> (nat \<times> 'a) list" where
  "rle_cumulative xs = cumulate 0 (dedup_with_count xs)"

fun expand_rle :: "nat \<Rightarrow> (nat \<times> 'a) list \<Rightarrow> ('a list, 'e) outcome" where
  "expand_rle prev [] = Ok []"
| "expand_rle prev ((cum, item) # r) =
     (if cum \<le> prev then Panic
      else rbind (expand_rle cum r) (\<lambda>ys. Ok (replicate (cum - prev) item @ ys)))"

text \<open>\<^verbatim>\<open>partition_point\<close>: the binary search of the standard library.\<close>

fun partition_loop :: "('a \<Rightarrow> (bool, 'e) outcome) \<Rightarrow> 'a list \<Rightarrow> nat \<Rightarrow> nat \<Rightarrow> (nat, 'e) outcome" where
  "partition_loop pred xs base n =
     (if n \<le> 1 then rbind (pred (xs ! base)) (\<lambda>b. Ok (if b then base + 1 else base))
      else let half = n div 2; mid = base + half
           in rbind (pred (xs ! mid)) (\<lambda>b. partition_loop pred xs (if b then mid else base) (n - half)))"

definition partition_point :: "('a \<Rightarrow> (bool, 'e) outcome) \<Rightarrow> 'a list \<Rightarrow> (nat, 'e) outcome" where
  "partition_point pred xs = (if xs = [] then Ok 0 else partition_loop pred xs 0 (length xs))"

declare partition_loop.simps [simp del]

section \<open>Compressed parents\<close>

type_synonym compressed_parents = "(u8 \<times> hash list) list"

datatype compressed_parents_error = LevelsExceeded | LevelsNotStrictlyIncreasing | NotFullyCompressed

definition expanded_len :: "compressed_parents \<Rightarrow> nat" where
  "expanded_len cp = (case cp of [] \<Rightarrow> 0 | _ \<Rightarrow> unat (fst (last cp)))"

definition cp_is_empty :: "compressed_parents \<Rightarrow> bool" where
  "cp_is_empty cp = (cp = [])"

definition cp_get :: "compressed_parents \<Rightarrow> nat \<Rightarrow> (hash list option, 'e) outcome" where
  "cp_get cp i =
     (if expanded_len cp \<le> i then Ok None
      else if i = 0 then (case cp of [] \<Rightarrow> Panic | (_, ps) # _ \<Rightarrow> Ok (Some ps))
      else rbind (partition_point (\<lambda>(cum, _). if cum = 0 then Panic else Ok (unat cum - 1 < i)) cp) (\<lambda>j.
           if j < length cp then Ok (Some (snd (cp ! j))) else Panic))"

definition into_levels :: "compressed_parents \<Rightarrow> (hash list list, 'e) outcome" where
  "into_levels cp = expand_rle 0 (map (\<lambda>(cum, v). (unat cum, v)) cp)"

definition cp_push :: "hash list \<Rightarrow> compressed_parents \<Rightarrow> (compressed_parents, 'e) outcome" where
  "cp_push ps cp =
     (case rev cp of
        [] \<Rightarrow> Ok [(1, ps)]
      | (cnt, last_ps) # front \<Rightarrow>
          rbind (expect (checked_add cnt 1)) (\<lambda>c.
          Ok (if last_ps = ps then rev front @ [(c, last_ps)] else cp @ [(c, ps)])))"

definition try_from_levels :: "hash list list \<Rightarrow> (compressed_parents, compressed_parents_error) outcome" where
  "try_from_levels ls =
     (if 255 < length ls then Err LevelsExceeded
      else Ok (map (\<lambda>(cnt, level). (of_nat cnt, level)) (rle_cumulative ls)))"

fun check_runs :: "compressed_parents \<Rightarrow> (unit, compressed_parents_error) outcome" where
  "check_runs ((last_cum, last_ps) # (cum, ps) # r) =
     (if cum \<le> last_cum then Err LevelsNotStrictlyIncreasing
      else if last_ps = ps then Err NotFullyCompressed
      else check_runs ((cum, ps) # r))"
| "check_runs _ = Ok ()"

definition try_from_runs :: "compressed_parents \<Rightarrow> (compressed_parents, compressed_parents_error) outcome" where
  "try_from_runs runs = rbind (check_runs runs) (\<lambda>_. Ok runs)"

definition set_direct_parents :: "hash list \<Rightarrow> compressed_parents \<Rightarrow> (compressed_parents, 'e) outcome" where
  "set_direct_parents ps cp =
     (if cp = [] then Ok [(1, ps)]
      else rbind (into_levels cp) (\<lambda>ls.
           case ls of [] \<Rightarrow> Panic
           | _ # r \<Rightarrow> (case try_from_levels (ps # r) of Ok c \<Rightarrow> Ok c | _ \<Rightarrow> Panic)))"

section \<open>Headers\<close>

record header =
  h_hash :: hash
  h_version :: u16
  h_parents_by_level :: compressed_parents
  h_hash_merkle_root :: hash
  h_accepted_id_merkle_root :: hash
  h_utxo_commitment :: hash
  h_timestamp :: u64
  h_bits :: u32
  h_nonce :: u64
  h_daa_score :: u64
  h_blue_work :: u192
  h_blue_score :: u64
  h_pruning_point :: hash

definition write_blue_work :: "u192 \<Rightarrow> u8 list" where
  "write_blue_work w = write_var_bytes (dropWhile (\<lambda>b. b = 0) (rev (to_le_bytes 24 (unat w))))"

definition write_var_array :: "hash list \<Rightarrow> u8 list" where
  "write_var_array hs = write_len (length hs) @ concat (map hash_bytes hs)"

text \<open>The bytes that are hashed; expanding the parents can panic.\<close>

definition header_preimage :: "header \<Rightarrow> u64 \<Rightarrow> u64 \<Rightarrow> (u8 list, 'e) outcome" where
  "header_preimage h nonce timestamp =
     rbind (into_levels (h_parents_by_level h)) (\<lambda>levels.
     Ok (write_u16 (h_version h) @ write_len (expanded_len (h_parents_by_level h)) @ concat (map write_var_array levels)
         @ hash_bytes (h_hash_merkle_root h) @ hash_bytes (h_accepted_id_merkle_root h) @ hash_bytes (h_utxo_commitment h)
         @ write_u64 timestamp @ write_u32 (h_bits h) @ write_u64 nonce @ write_u64 (h_daa_score h)
         @ write_u64 (h_blue_score h) @ write_blue_work (h_blue_work h) @ hash_bytes (h_pruning_point h)))"

definition hash_override_nonce_time :: "crypto \<Rightarrow> header \<Rightarrow> u64 \<Rightarrow> u64 \<Rightarrow> (hash, 'e) outcome" where
  "hash_override_nonce_time cr h nonce timestamp =
     rbind (header_preimage h nonce timestamp) (\<lambda>bs. Ok (blake2b cr ''BlockHash'' bs))"

definition header_hash :: "crypto \<Rightarrow> header \<Rightarrow> (hash, 'e) outcome" where
  "header_hash cr h = hash_override_nonce_time cr h (h_nonce h) (h_timestamp h)"

definition finalize_header :: "crypto \<Rightarrow> header \<Rightarrow> (header, 'e) outcome" where
  "finalize_header cr h = rbind (header_hash cr h) (\<lambda>x. Ok (h\<lparr>h_hash := x\<rparr>))"

definition new_finalized ::
    "crypto \<Rightarrow> u16 \<Rightarrow> compressed_parents \<Rightarrow> hash \<Rightarrow> hash \<Rightarrow> hash \<Rightarrow> u64 \<Rightarrow> u32 \<Rightarrow> u64 \<Rightarrow> u64 \<Rightarrow> u192 \<Rightarrow> u64 \<Rightarrow> hash \<Rightarrow>
     (header, 'e) outcome" where
  "new_finalized cr ver parents merkle accepted commitment timestamp bits nonce daa_score work score pruning_point =
     finalize_header cr \<lparr>h_hash = 0, h_version = ver, h_parents_by_level = parents, h_hash_merkle_root = merkle,
       h_accepted_id_merkle_root = accepted, h_utxo_commitment = commitment, h_timestamp = timestamp, h_bits = bits,
       h_nonce = nonce, h_daa_score = daa_score, h_blue_work = work, h_blue_score = score, h_pruning_point = pruning_point\<rparr>"

definition direct_parents :: "header \<Rightarrow> (hash list, 'e) outcome" where
  "direct_parents h =
     rbind (cp_get (h_parents_by_level h) 0) (\<lambda>r. Ok (case r of Some ps \<Rightarrow> ps | None \<Rightarrow> []))"

section \<open>The status of a block\<close>

datatype block_status = StatusInvalid | StatusUTXOValid | StatusUTXOPendingVerification
  | StatusDisqualifiedFromChain | StatusHeaderOnly

definition has_block_header :: "block_status \<Rightarrow> bool" where
  "has_block_header s = (s \<in> {StatusHeaderOnly, StatusUTXOValid, StatusUTXOPendingVerification, StatusDisqualifiedFromChain})"

definition is_header_only :: "block_status \<Rightarrow> bool" where
  "is_header_only s = (s = StatusHeaderOnly)"

definition has_block_body :: "block_status \<Rightarrow> bool" where
  "has_block_body s = (s \<in> {StatusUTXOValid, StatusUTXOPendingVerification, StatusDisqualifiedFromChain})"

definition is_utxo_valid_or_pending :: "block_status \<Rightarrow> bool" where
  "is_utxo_valid_or_pending s = (s \<in> {StatusUTXOValid, StatusUTXOPendingVerification})"

definition is_valid_status :: "block_status \<Rightarrow> bool" where
  "is_valid_status s = (s \<noteq> StatusInvalid)"

definition is_invalid_status :: "block_status \<Rightarrow> bool" where
  "is_invalid_status s = (s = StatusInvalid)"


section \<open>Canonical runs\<close>

fun canonical_runs :: "nat \<Rightarrow> (nat \<times> 'a) list \<Rightarrow> bool" where
  "canonical_runs prev [] = True"
| "canonical_runs prev ((c, x) # r) =
     (prev < c \<and> (case r of [] \<Rightarrow> True | (_, y) # _ \<Rightarrow> x \<noteq> y) \<and> canonical_runs c r)"

definition last_count :: "nat \<Rightarrow> (nat \<times> 'a) list \<Rightarrow> nat" where
  "last_count prev rs = (case rs of [] \<Rightarrow> prev | _ \<Rightarrow> fst (last rs))"

lemma last_count_Cons: "last_count prev ((c, x) # r) = last_count c r"
  by (simp add: last_count_def split: list.splits)

lemma canonical_bounds: "canonical_runs p rs \<Longrightarrow> p \<le> last_count p rs"
proof (induction p rs rule: canonical_runs.induct)
  case (2 p c x r)
  then show ?case by (simp add: last_count_Cons)
qed (simp add: last_count_def)

lemma expand_canonical:
  "canonical_runs p rs \<Longrightarrow> \<exists>ys. expand_rle p rs = Ok ys \<and> length ys = last_count p rs - p
     \<and> (rs \<noteq> [] \<longrightarrow> ys \<noteq> [] \<and> hd ys = snd (hd rs))"
proof (induction p rs rule: canonical_runs.induct)
  case (2 p c x r)
  then obtain ys :: "'a list" where "expand_rle c r = (Ok ys :: ('a list, 'b) outcome)" "length ys = last_count c r - c" by auto
  moreover have "p < c" "c \<le> last_count c r" using 2(2) canonical_bounds by auto
  ultimately show ?case by (auto simp: last_count_Cons)
qed (simp add: last_count_def)

lemma dedup_hd: "xs \<noteq> [] \<Longrightarrow> \<exists>n r. dedup_with_count xs = (Suc n, hd xs) # r"
  by (induction xs) (auto split: list.splits)

lemma dedup_replicate:
  assumes "0 < n" "ys = [] \<or> hd ys \<noteq> x"
  shows "dedup_with_count (replicate n x @ ys) = (n, x) # dedup_with_count ys"
  using assms(1)
proof (induction n rule: nat_induct_non_zero)
  case 1
  show ?case
  proof (cases ys)
    case (Cons y ys')
    then obtain m r where "dedup_with_count ys = (Suc m, y) # r" using dedup_hd [of ys] by auto
    then show ?thesis using Cons assms(2) by (auto simp del: dedup_with_count.simps(2) simp: dedup_with_count.simps(2) [of x])
  qed simp
next
  case (Suc n)
  then show ?case by simp
qed

lemma dedup_canonical: "canonical_runs acc (cumulate acc (dedup_with_count xs)) \<and> expand_rle acc (cumulate acc (dedup_with_count xs)) = Ok xs"
proof (induction xs arbitrary: acc rule: length_induct)
  case (1 xs)
  show ?case
  proof (cases xs)
    case (Cons x t)
    define n ys where "n = length (takeWhile (\<lambda>y. y = x) xs)" and "ys = dropWhile (\<lambda>y. y = x) xs"
    have "takeWhile (\<lambda>y. y = x) xs = replicate n x"
      unfolding n_def by (rule replicate_eqI) (auto dest: set_takeWhileD)
    then have xs: "xs = replicate n x @ ys" unfolding ys_def by (metis takeWhile_dropWhile_id)
    have n: "0 < n" using Cons by (simp add: n_def)
    have ys: "ys = [] \<or> hd ys \<noteq> x" unfolding ys_def using hd_dropWhile [of "\<lambda>y. y = x" xs] by blast
    have d: "dedup_with_count xs = (n, x) # dedup_with_count ys" unfolding xs by (rule dedup_replicate [OF n ys])
    have IH: "canonical_runs (acc + n) (cumulate (acc + n) (dedup_with_count ys))"
      "expand_rle (acc + n) (cumulate (acc + n) (dedup_with_count ys)) = (Ok ys :: ('a list, 'b) outcome)"
      using 1 n xs by auto
    have "case cumulate (acc + n) (dedup_with_count ys) of [] \<Rightarrow> True | (_, y) # _ \<Rightarrow> x \<noteq> y"
    proof (cases ys)
      case (Cons y t')
      then show ?thesis using dedup_hd [of ys] ys by auto
    qed simp
    then show ?thesis unfolding d using IH n xs by simp
  qed simp
qed

lemma canonical_unique:
  "canonical_runs p rs \<Longrightarrow> expand_rle p rs = (Ok ys :: ('a list, 'e) outcome) \<Longrightarrow> cumulate p (dedup_with_count ys) = rs"
proof (induction p rs arbitrary: ys rule: canonical_runs.induct)
  case (2 p c x r)
  obtain zs where zs: "expand_rle c r = (Ok zs :: ('a list, 'e) outcome)" "r \<noteq> [] \<longrightarrow> zs \<noteq> [] \<and> hd zs = snd (hd r)"
    "length zs = last_count c r - c" using 2(2) expand_canonical [of c r] by auto
  have ys: "ys = replicate (c - p) x @ zs" using 2(2,3) zs(1) by auto
  have "zs = [] \<or> hd zs \<noteq> x" using 2(2) zs(2,3) by (cases r) (auto simp: last_count_def)
  then have "dedup_with_count ys = (c - p, x) # dedup_with_count zs"
    unfolding ys using 2(2) by (intro dedup_replicate) auto
  moreover have "cumulate c (dedup_with_count zs) = r" using 2(1) [OF _ zs(1)] 2(2) by simp
  ultimately show ?case using 2(2) by simp
qed simp

lemma expand_nth:
  "canonical_runs p rs \<Longrightarrow> expand_rle p rs = (Ok ys :: ('a list, 'e) outcome) \<Longrightarrow> i < length ys \<Longrightarrow> j < length rs
   \<Longrightarrow> (\<forall>k < j. fst (rs ! k) \<le> p + i) \<Longrightarrow> p + i < fst (rs ! j) \<Longrightarrow> ys ! i = snd (rs ! j)"
proof (induction p rs arbitrary: ys i j rule: canonical_runs.induct)
  case (2 p c x r)
  obtain zs where zs: "expand_rle c r = (Ok zs :: ('a list, 'e) outcome)" using 2(2) expand_canonical [of c r] by auto
  have ys: "ys = replicate (c - p) x @ zs" using 2(2,3) zs by auto
  show ?case
  proof (cases j)
    case 0
    then have "i < c - p" using 2(7) by simp
    then show ?thesis using 0 ys by (simp add: nth_append)
  next
    case (Suc j')
    have c: "c \<le> p + i" "p < c" using 2(6) 2(2) Suc by auto
    define i' where "i' = i - (c - p)"
    have i: "p + i = c + i'" "\<not> i < c - p" using c by (auto simp: i'_def)
    have "zs ! i' = snd (r ! j')"
    proof (rule 2(1) [OF _ zs])
      show "\<forall>k < j'. fst (r ! k) \<le> c + i'" using 2(6) Suc i(1) by auto
    qed (use 2 Suc ys i in \<open>auto simp: i'_def\<close>)
    then show ?thesis using Suc ys i(2) by (simp add: nth_append i'_def)
  qed
qed simp

section \<open>The binary search\<close>

definition splits_at :: "(nat \<Rightarrow> bool) \<Rightarrow> nat \<Rightarrow> nat \<Rightarrow> bool" where
  "splits_at P n r = (r \<le> n \<and> (\<forall>i < r. P i) \<and> (\<forall>i. r \<le> i \<longrightarrow> i < n \<longrightarrow> \<not> P i))"

lemma partition_loop_correct:
  assumes pred: "\<forall>i < length xs. pred (xs ! i) = Ok (P i)" and mono: "\<forall>i j. i \<le> j \<longrightarrow> P j \<longrightarrow> P i"
  shows "1 \<le> n \<Longrightarrow> base + n \<le> length xs \<Longrightarrow> \<forall>i < base. P i \<Longrightarrow> \<forall>i. base + n \<le> i \<longrightarrow> i < length xs \<longrightarrow> \<not> P i
    \<Longrightarrow> \<exists>r. partition_loop pred xs base n = Ok r \<and> splits_at P (length xs) r"
proof (induction n arbitrary: base rule: less_induct)
  case (less n)
  show ?case
  proof (cases "n \<le> 1")
    case True
    then have n: "n = 1" using less.prems(1) by simp
    have at: "pred (xs ! base) = Ok (P base)" using less.prems(2) n pred by simp
    have run: "partition_loop pred xs base n = Ok (if P base then base + 1 else base)"
      using n at by (subst partition_loop.simps) simp
    have "splits_at P (length xs) (if P base then base + 1 else base)"
      unfolding splits_at_def using less.prems(2-4) n mono by (auto simp: less_Suc_eq)
    then show ?thesis using run by blast
  next
    case False
    define mid m where "mid = base + n div 2" and "m = n - n div 2"
    have mid: "mid < base + n" "mid \<le> base + m" "mid + m = base + n" "m < n" "1 \<le> m" using False by (auto simp: mid_def m_def)
    have at: "pred (xs ! mid) = Ok (P mid)" using mid(1) less.prems(2) pred by simp
    have step: "partition_loop pred xs base n = partition_loop pred xs (if P mid then mid else base) m"
      using False at by (subst partition_loop.simps) (simp add: Let_def mid_def m_def)
    show ?thesis
    proof (cases "P mid")
      case True
      have "\<exists>r. partition_loop pred xs mid m = Ok r \<and> splits_at P (length xs) r"
      proof (rule less.IH [OF mid(4,5)])
        show "\<forall>i < mid. P i" using mono True less_imp_le by blast
      qed (use less.prems(2,4) mid(3) in simp_all)
      then show ?thesis unfolding step using True by simp
    next
      case False
      have "\<exists>r. partition_loop pred xs base m = Ok r \<and> splits_at P (length xs) r"
      proof (rule less.IH [OF mid(4,5)])
        show "\<forall>i. base + m \<le> i \<longrightarrow> i < length xs \<longrightarrow> \<not> P i" using mono False mid(2) order_trans by blast
        show "base + m \<le> length xs" using less.prems(2) mid(4) by simp
      qed (rule less.prems(3))
      then show ?thesis unfolding step using False by simp
    qed
  qed
qed

lemma partition_point_correct:
  assumes "\<forall>i < length xs. pred (xs ! i) = Ok (P i)" "\<forall>i j. i \<le> j \<longrightarrow> P j \<longrightarrow> P i"
  shows "\<exists>r. partition_point pred xs = Ok r \<and> splits_at P (length xs) r"
proof (cases "xs = []")
  case True
  then show ?thesis by (simp add: partition_point_def splits_at_def)
next
  case False
  then have "\<exists>r. partition_loop pred xs 0 (length xs) = Ok r \<and> splits_at P (length xs) r"
    by (intro partition_loop_correct [OF assms]) (auto simp: Suc_le_eq)
  then show ?thesis using False by (simp add: partition_point_def)
qed

section \<open>The encoding is exact\<close>

definition nat_runs :: "compressed_parents \<Rightarrow> (nat \<times> hash list) list" where
  "nat_runs cp = map (\<lambda>(cum, v). (unat cum, v)) cp"

lemma last_count_runs: "last_count 0 (nat_runs cp) = expanded_len cp"
  by (auto simp: last_count_def expanded_len_def nat_runs_def last_map split: list.splits prod.splits)

lemma check_runs_canonical:
  "check_runs cp = Ok () \<Longrightarrow> (cp = [] \<or> p < unat (fst (hd cp))) \<Longrightarrow> canonical_runs p (nat_runs cp)"
proof (induction cp arbitrary: p rule: check_runs.induct)
  case (1 last_cum last_ps cum ps r)
  have "unat last_cum < unat cum" "last_ps \<noteq> ps" "check_runs ((cum, ps) # r) = Ok ()"
    using "1.prems"(1) by (auto simp: word_le_nat_alt split: if_splits)
  with "1.IH" [of "unat last_cum"] "1.prems" show ?case by (auto simp: nat_runs_def split: if_splits)
qed (auto simp: nat_runs_def)

lemma canonical_check_runs: "canonical_runs p (nat_runs cp) \<Longrightarrow> check_runs cp = Ok ()"
  by (induction cp arbitrary: p rule: check_runs.induct) (auto simp: nat_runs_def word_le_nat_alt)

text \<open>Counts grow, so the search stands on the run that covers the level.\<close>

lemma canonical_sorted: "canonical_runs p rs \<Longrightarrow> sorted_wrt (<) (p # map fst rs)"
  by (induction p rs rule: canonical_runs.induct) auto

lemma canonical_counts:
  assumes "canonical_runs 0 (nat_runs cp)"
  shows "k < length cp \<Longrightarrow> 0 < unat (fst (cp ! k))"
    and "k < l \<Longrightarrow> l < length cp \<Longrightarrow> unat (fst (cp ! k)) < unat (fst (cp ! l))"
proof -
  have fsts: "map fst (nat_runs cp) = map (\<lambda>r. unat (fst r)) cp" by (auto simp: nat_runs_def)
  show "k < length cp \<Longrightarrow> 0 < unat (fst (cp ! k))"
    using canonical_sorted [OF assms] unfolding fsts by (auto dest: nth_mem)
  show "k < l \<Longrightarrow> l < length cp \<Longrightarrow> unat (fst (cp ! k)) < unat (fst (cp ! l))"
    using canonical_sorted [OF assms] sorted_wrt_nth_less [of "(<)" "map (\<lambda>r. unat (fst r)) cp" k l] unfolding fsts by simp
qed

lemma run_search:
  assumes "canonical_runs 0 (nat_runs cp)" "0 < i" "i < expanded_len cp"
  shows "\<exists>r. partition_point (\<lambda>(cum, _). if cum = 0 then Panic else Ok (unat cum - 1 < i)) cp = (Ok r :: (nat, 'e) outcome) \<and> r < length cp
    \<and> (\<forall>k < r. unat (fst (cp ! k)) \<le> i) \<and> i < unat (fst (cp ! r))"
proof -
  define P where "P = (\<lambda>k. k < length cp \<and> unat (fst (cp ! k)) \<le> i)"
  have pred: "(case cp ! k of (cum, _) \<Rightarrow> if cum = 0 then Panic else Ok (unat cum - 1 < i)) = Ok (P k)" if "k < length cp" for k
    using canonical_counts(1) [OF assms(1) that] that by (cases "cp ! k") (auto simp: P_def)
  have mono: "P k" if "k \<le> l" "P l" for k l
    using canonical_counts(2) [OF assms(1), of k l] that by (cases "k = l") (auto simp: P_def)
  obtain r where r: "partition_point (\<lambda>(cum, _). if cum = 0 then Panic else Ok (unat cum - 1 < i)) cp = (Ok r :: (nat, 'e) outcome)"
    "splits_at P (length cp) r"
    using partition_point_correct [of cp "\<lambda>(cum, _). if cum = 0 then Panic else Ok (unat cum - 1 < i)" P] pred mono by blast
  note r = r(1) r(2) [unfolded splits_at_def]
  have ne: "cp \<noteq> []" using assms(3) by (auto simp: expanded_len_def)
  then have "expanded_len cp = unat (fst (last cp))" by (simp add: expanded_len_def split: list.split)
  then have "\<not> P (length cp - 1)" using assms(3) last_conv_nth [OF ne] by (simp add: P_def)
  moreover have "P (length cp - 1)" if "r = length cp" using r(2) that ne by simp
  ultimately have "r < length cp" using r(2) by (metis le_neq_implies_less)
  moreover have "i < unat (fst (cp ! r))" using r(2) calculation by (auto simp: P_def not_le)
  ultimately show ?thesis using r by (auto simp: P_def)
qed

lemma cp_get_exact:
  assumes "canonical_runs 0 (nat_runs cp)" "into_levels cp = (Ok ls :: (hash list list, 'e) outcome)"
  shows "cp_get cp i = (Ok (if i < length ls then Some (ls ! i) else None) :: (hash list option, 'e) outcome)"
proof -
  have ls: "expand_rle 0 (nat_runs cp) = (Ok ls :: (hash list list, 'e) outcome)" using assms(2) by (simp add: into_levels_def nat_runs_def)
  obtain ys where "expand_rle 0 (nat_runs cp) = (Ok ys :: (hash list list, 'e) outcome)" "length ys = expanded_len cp"
    "nat_runs cp \<noteq> [] \<longrightarrow> ys \<noteq> [] \<and> hd ys = snd (hd (nat_runs cp))"
    using expand_canonical [OF assms(1)] unfolding last_count_runs by auto
  then have len: "length ls = expanded_len cp" and first: "cp \<noteq> [] \<longrightarrow> hd ls = snd (hd cp)"
    using ls by (auto simp: nat_runs_def hd_map split: prod.splits)
  show ?thesis
  proof (cases "0 < i \<and> i < expanded_len cp")
    case True
    then obtain r where r: "partition_point (\<lambda>(cum, _). if cum = 0 then Panic else Ok (unat cum - 1 < i)) cp = (Ok r :: (nat, 'e) outcome)"
        "r < length cp" "\<forall>k < r. unat (fst (cp ! k)) \<le> i" "i < unat (fst (cp ! r))"
      using run_search [OF assms(1)] by blast
    have nth: "nat_runs cp ! k = (unat (fst (cp ! k)), snd (cp ! k))" if "k < length cp" for k
      using that by (simp add: nat_runs_def split: prod.split)
    have "ls ! i = snd (nat_runs cp ! r)"
      by (rule expand_nth [OF assms(1) ls]) (use True len r nth in \<open>auto simp: nat_runs_def\<close>)
    then show ?thesis using True r(1,2) len nth by (simp add: cp_get_def)
  next
    case False
    then consider "expanded_len cp \<le> i" | "i = 0" "0 < expanded_len cp" by linarith
    then show ?thesis
    proof cases
      case 2
      then obtain c ps r where cp: "cp = (c, ps) # r" by (cases cp) (auto simp: expanded_len_def)
      have "ls ! 0 = ps" using first cp len 2 by (cases ls) auto
      then show ?thesis using 2 len by (simp add: cp_get_def cp)
    qed (use len in \<open>simp add: cp_get_def\<close>)
  qed
qed

lemma cumulate_append:
  "cumulate acc (d @ [(n, x)]) = cumulate acc d @ [(acc + sum_list (map fst d) + n, x)]"
  by (induction acc d rule: cumulate.induct) (auto simp: add.assoc)

lemma dedup_sum: "sum_list (map fst (dedup_with_count xs)) = length xs"
  by (induction xs) (auto split: list.splits)

lemma cumulate_bound: "(c, v) \<in> set (cumulate acc d) \<Longrightarrow> c \<le> acc + sum_list (map fst d)"
  by (induction acc d rule: cumulate.induct) fastforce+

lemma dedup_snoc:
  "dedup_with_count (xs @ [x]) =
     (case rev (dedup_with_count xs) of [] \<Rightarrow> [(1, x)]
      | (n, y) # front \<Rightarrow> if y = x then rev front @ [(n + 1, x)] else dedup_with_count xs @ [(1, x)])"
proof (induction xs)
  case (Cons z xs)
  show ?case
  proof (cases "dedup_with_count xs")
    case Nil
    then have "xs = []" using dedup_hd [of xs] by (cases xs) auto
    then show ?thesis by auto
  next
    case (Cons p r)
    obtain n y where p: "p = (n, y)" by (cases p)
    obtain m w front where rev: "rev (dedup_with_count xs) = (m, w) # front" using Cons by (cases "rev (dedup_with_count xs)") auto
    have "rev ((m, w) # front) = p # r" using rev Cons by (metis rev_rev_ident)
    then consider "front = []" "r = []" "p = (m, w)" | r' where "front = r' @ [p]" "r = rev r' @ [(m, w)]"
      by (cases front rule: rev_cases) auto
    then show ?thesis
    proof cases
      case 1
      then show ?thesis using Cons.IH rev Cons p by auto
    next
      case 2
      then show ?thesis using Cons.IH rev Cons p by auto
    qed
  qed
qed simp

text \<open>Pushing the levels one after the other gives the encoding of the list.\<close>

lemma of_nat_runs:
  assumes "length ls \<le> 255"
  shows "nat_runs (map (\<lambda>(cnt, level). (of_nat cnt, level)) (rle_cumulative ls)) = rle_cumulative ls"
proof -
  have "unat (of_nat c :: u8) = c" if "(c, v) \<in> set (rle_cumulative ls)" for c v
    using cumulate_bound [of c v 0 "dedup_with_count ls"] that assms by (simp add: rle_cumulative_def dedup_sum unat_of_nat)
  then show ?thesis by (auto simp: nat_runs_def intro!: map_idI)
qed

lemma try_from_levels_canonical:
  assumes "try_from_levels ls = Ok cp"
  shows "canonical_runs 0 (nat_runs cp)" "into_levels cp = (Ok ls :: (hash list list, 'e) outcome)"
proof -
  have "length ls \<le> 255" "cp = map (\<lambda>(cnt, level). (of_nat cnt, level)) (rle_cumulative ls)"
    using assms by (auto simp: try_from_levels_def split: if_splits)
  then have runs: "nat_runs cp = rle_cumulative ls" using of_nat_runs by simp
  then show "canonical_runs 0 (nat_runs cp)" using conjunct1 [OF dedup_canonical, of 0 ls] by (simp add: rle_cumulative_def)
  show "into_levels cp = (Ok ls :: (hash list list, 'e) outcome)" using conjunct2 [OF dedup_canonical, of 0 ls] runs by (simp add: into_levels_def nat_runs_def rle_cumulative_def)
qed

lemma expanded_length:
  assumes "canonical_runs 0 (nat_runs cp)" "into_levels cp = (Ok ls :: (hash list list, 'e) outcome)"
  shows "length ls = expanded_len cp"
proof -
  obtain ys where "expand_rle 0 (nat_runs cp) = (Ok ys :: (hash list list, 'e) outcome)" "length ys = last_count 0 (nat_runs cp) - 0"
    using expand_canonical [OF assms(1)] by auto
  then show ?thesis using assms(2) last_count_runs [of cp] by (simp add: into_levels_def nat_runs_def)
qed

lemma canonical_determines:
  assumes "canonical_runs 0 (nat_runs cp)" "into_levels cp = (Ok ls :: (hash list list, 'e) outcome)"
  shows "try_from_levels ls = Ok cp"
proof -
  have ls: "expand_rle 0 (nat_runs cp) = (Ok ls :: (hash list list, 'e) outcome)" using assms(2) by (simp add: into_levels_def nat_runs_def)
  have rle: "rle_cumulative ls = nat_runs cp" using canonical_unique [OF assms(1) ls] by (simp add: rle_cumulative_def)
  have "length ls = expanded_len cp" by (rule expanded_length [OF assms])
  moreover have "unat (fst (last cp)) < 2 ^ 8" using unat_bound [of "fst (last cp)"] by simp
  moreover have "expanded_len cp \<le> 255"
    using calculation(2) by (auto simp: expanded_len_def split: list.splits)
  moreover have "map (\<lambda>(cnt, level). (of_nat cnt, level)) (nat_runs cp) = cp"
    by (auto simp: nat_runs_def intro!: map_idI)
  ultimately show ?thesis by (simp add: try_from_levels_def rle)
qed

definition encode_levels :: "hash list list \<Rightarrow> compressed_parents" where
  "encode_levels ls = map (\<lambda>(cnt, level). (of_nat cnt, level)) (rle_cumulative ls)"

lemma push_snoc:
  assumes "length ls < 255"
  shows "cp_push l (encode_levels ls) = Ok (encode_levels (ls @ [l]))"
proof (cases "rev (dedup_with_count ls)")
  case Nil
  then have "ls = []" using dedup_hd [of ls] by auto
  then show ?thesis by (simp add: cp_push_def encode_levels_def rle_cumulative_def)
next
  case (Cons p front)
  obtain n y where p: "p = (n, y)" by (cases p)
  define d where "d = rev front"
  have d: "dedup_with_count ls = d @ [(n, y)]" using Cons p by (simp add: d_def rev_swap)
  have sum: "sum_list (map fst d) + n = length ls" using dedup_sum [of ls] d by simp
  define front' where "front' = map (\<lambda>(cnt, level). (of_nat cnt :: u8, level)) (cumulate 0 d)"
  have enc: "encode_levels ls = front' @ [(of_nat (length ls), y)]"
    by (simp add: encode_levels_def rle_cumulative_def d cumulate_append sum front'_def)
  have "checked_add (of_nat (length ls) :: u8) 1 = Some (of_nat (length ls + 1))"
    using assms by (simp add: checked_add_def unat_of_nat)
  then have push: "cp_push l (encode_levels ls) =
      Ok (if y = l then front' @ [(of_nat (length ls + 1), l)] else encode_levels ls @ [(of_nat (length ls + 1), l)])"
    by (simp add: cp_push_def enc)
  have snoc: "dedup_with_count (ls @ [l]) = (if y = l then d @ [(n + 1, l)] else dedup_with_count ls @ [(1, l)])"
    using dedup_snoc [of ls l] Cons p by (simp add: d_def)
  have "sum_list (map fst d) + (n + 1) = length ls + 1" using sum by simp
  then have "encode_levels (ls @ [l]) =
      (if y = l then front' @ [(of_nat (length ls + 1), l)] else encode_levels ls @ [(of_nat (length ls + 1), l)])"
    by (simp add: encode_levels_def rle_cumulative_def snoc cumulate_append front'_def dedup_sum)
  then show ?thesis using push by simp
qed

lemma push_full:
  assumes "length ls = 255"
  shows "cp_push l (encode_levels ls) = Panic"
proof -
  obtain n y d where d: "dedup_with_count ls = d @ [(n, y)]"
    using assms dedup_sum [of ls] by (cases "dedup_with_count ls" rule: rev_cases) auto
  have sum: "sum_list (map fst d) + n = 255" using dedup_sum [of ls] d assms by simp
  have "encode_levels ls = map (\<lambda>(cnt, level). (of_nat cnt, level)) (cumulate 0 d) @ [(of_nat 255, y)]"
    by (simp add: encode_levels_def rle_cumulative_def d cumulate_append sum)
  then show ?thesis by (simp add: cp_push_def checked_add_def)
qed

lemma push_all:
  assumes "length ls + length ms \<le> 255"
  shows "rfold cp_push ms (encode_levels ls) = (Ok (encode_levels (ls @ ms)) :: (compressed_parents, 'e) outcome)"
  using assms
proof (induction ms arbitrary: ls)
  case (Cons m ms)
  have "rfold cp_push ms (encode_levels (ls @ [m])) = (Ok (encode_levels ((ls @ [m]) @ ms)) :: (compressed_parents, 'e) outcome)"
    by (rule Cons.IH) (use Cons.prems in simp)
  moreover have "cp_push m (encode_levels ls) = (Ok (encode_levels (ls @ [m])) :: (compressed_parents, 'e) outcome)"
    using Cons.prems by (intro push_snoc) simp
  ultimately show ?case by simp
qed simp

section \<open>Properties of the encoding\<close>

text \<open>C14. Up to 255 levels of parents are encoded, and the encoding is exact: it expands to the
  levels, reads each of them, passes the check on foreign runs, is the only such encoding, and is
  what pushing the levels one by one yields.\<close>

theorem compressed_parents_exact:
  assumes "length ls \<le> 255"
  shows "\<exists>cp. try_from_levels ls = Ok cp \<and> rfold cp_push ls [] = (Ok cp :: (compressed_parents, 'e) outcome)
    \<and> into_levels cp = (Ok ls :: (hash list list, 'e) outcome) \<and> expanded_len cp = length ls
    \<and> (\<forall>i. cp_get cp i = (Ok (if i < length ls then Some (ls ! i) else None) :: (hash list option, 'e) outcome))
    \<and> (\<forall>runs. try_from_runs runs = Ok runs \<and> into_levels runs = (Ok ls :: (hash list list, 'e) outcome) \<longleftrightarrow> runs = cp)"
proof -
  have cp: "try_from_levels ls = Ok (encode_levels ls)" using assms by (simp add: try_from_levels_def encode_levels_def)
  note can = try_from_levels_canonical [OF cp]
  have push: "rfold cp_push ls [] = (Ok (encode_levels ls) :: (compressed_parents, 'e) outcome)"
    using push_all [of "[]" ls] assms by (simp add: encode_levels_def rle_cumulative_def)
  have get: "cp_get (encode_levels ls) i = (Ok (if i < length ls then Some (ls ! i) else None) :: (hash list option, 'e) outcome)" for i
    by (rule cp_get_exact [OF can])
  have len: "expanded_len (encode_levels ls) = length ls"
    using expanded_length [OF can] by simp
  have own: "try_from_runs (encode_levels ls) = Ok (encode_levels ls)" using canonical_check_runs [OF can(1)] by (simp add: try_from_runs_def)
  have uniq: "runs = encode_levels ls" if "try_from_runs runs = Ok runs" "into_levels runs = (Ok ls :: (hash list list, 'e) outcome)" for runs
  proof -
    have "check_runs runs = Ok ()" using that(1) by (cases "check_runs runs") (auto simp: try_from_runs_def)
    moreover have "runs = [] \<or> 0 < unat (fst (hd runs))" using that(2) by (cases runs) (auto simp: into_levels_def split: if_splits)
    ultimately have "canonical_runs 0 (nat_runs runs)" by (rule check_runs_canonical)
    from canonical_determines [OF this that(2)] cp show ?thesis by simp
  qed
  show ?thesis using cp push get len own uniq can(2) by (intro exI [of _ "encode_levels ls"]) blast
qed

theorem compressed_parents_exact_witness:
  "\<exists>cp. try_from_levels [[1], [1], [2]] = Ok cp \<and> into_levels cp = (Ok [[1], [1], [2]] :: (hash list list, unit) outcome)"
  using compressed_parents_exact [of "[[1], [1], [2]]"] by auto

section \<open>The hash of a header\<close>

lemma into_levels_check:
  assumes "check_runs cp = Ok ()"
  shows "into_levels cp = (Panic :: (hash list list, 'e) outcome) \<longleftrightarrow> cp \<noteq> [] \<and> fst (hd cp) = 0"
proof (cases "cp \<noteq> [] \<and> fst (hd cp) = 0")
  case True
  then show ?thesis by (cases cp) (auto simp: into_levels_def)
next
  case False
  then have "canonical_runs 0 (nat_runs cp)" by (intro check_runs_canonical [OF assms]) (auto simp: unat_gt_0)
  then obtain ys where "expand_rle 0 (nat_runs cp) = (Ok ys :: (hash list list, 'e) outcome)" using expand_canonical by blast
  then show ?thesis using False by (simp add: into_levels_def nat_runs_def)
qed

lemma expand_never_errs: "expand_rle p rs \<noteq> (Err e :: ('a list, 'e) outcome)"
proof (induction p rs rule: expand_rle.induct)
  case (2 p c x r)
  then show ?case by (cases "expand_rle c r :: ('a list, 'e) outcome") auto
qed simp

lemma check_runs_increasing:
  "sorted_wrt (<) (map fst runs) \<Longrightarrow> successively (\<lambda>a b. snd a \<noteq> snd b) runs \<Longrightarrow> check_runs runs = Ok ()"
  by (induction runs rule: check_runs.induct) auto

lemma new_finalized_check:
  assumes "check_runs runs = Ok ()"
  shows "new_finalized cr ver runs merkle accepted commitment timestamp bits nonce daa_score work score pruning_point =
      (Panic :: (header, 'e) outcome) \<longleftrightarrow> runs \<noteq> [] \<and> fst (hd runs) = 0"
    and "new_finalized cr ver runs merkle accepted commitment timestamp bits nonce daa_score work score pruning_point \<noteq>
      (Err e :: (header, 'e) outcome)"
proof -
  have "into_levels runs \<noteq> (Err e :: (hash list list, 'e) outcome)" for e by (simp add: into_levels_def expand_never_errs)
  then show "new_finalized cr ver runs merkle accepted commitment timestamp bits nonce daa_score work score pruning_point =
      (Panic :: (header, 'e) outcome) \<longleftrightarrow> runs \<noteq> [] \<and> fst (hd runs) = 0"
    and "new_finalized cr ver runs merkle accepted commitment timestamp bits nonce daa_score work score pruning_point \<noteq>
      (Err e :: (header, 'e) outcome)"
    using into_levels_check [OF assms, where 'e = 'e]
    by (cases "into_levels runs :: (hash list list, 'e) outcome";
        simp add: new_finalized_def finalize_header_def header_hash_def hash_override_nonce_time_def header_preimage_def)+
qed

text \<open>C15. Runs with strictly increasing counts and different neighbouring parents are accepted, a first
  count of zero included, although runs that start at zero cannot be expanded: building a header
  with them panics. With all other runs of this shape the header is built.\<close>

theorem zero_count_runs_panic:
  assumes "sorted_wrt (<) (map fst runs)" and "successively (\<lambda>a b. snd a \<noteq> snd b) runs"
  shows "try_from_runs runs = Ok runs \<and>
    (let header = (new_finalized cr ver runs merkle accepted commitment timestamp bits nonce daa_score work score pruning_point
        :: (header, 'e) outcome)
     in if runs \<noteq> [] \<and> fst (hd runs) = 0 then header = Panic else is_ok header)"
proof -
  note ok = check_runs_increasing [OF assms]
  show ?thesis
    using new_finalized_check [OF ok, where 'e = 'e] ok by (auto simp: try_from_runs_def Let_def is_ok_def split: outcome.split)
qed

theorem zero_count_runs_panic_witness:
  "try_from_runs [(0, [7]), (3, [8])] = Ok [(0, [7]), (3, [8])]
   \<and> new_finalized ex_crypto 1 [(0, [7]), (3, [8])] 0 0 0 0 0 0 0 0 0 0 = (Panic :: (header, unit) outcome)"
  using zero_count_runs_panic [of "[(0, [7]), (3, [8])]" ex_crypto 1 0 0 0 0 0 0 0 0 0 0, where 'e = unit]
  by (simp add: Let_def)

definition ex_header :: header where
  "ex_header = \<lparr>h_hash = 0, h_version = 1, h_parents_by_level = [(1, [7])], h_hash_merkle_root = 0,
     h_accepted_id_merkle_root = 0, h_utxo_commitment = 0, h_timestamp = 0, h_bits = 0, h_nonce = 0,
     h_daa_score = 0, h_blue_work = 0, h_blue_score = 0, h_pruning_point = 0\<rparr>"

text \<open>The levels, as they are written, are determined by their bytes.\<close>

lemma expand_length: "expand_rle p rs = (Ok ys :: ('a list, 'e) outcome) \<Longrightarrow> p \<le> last_count p rs \<and> length ys = last_count p rs - p"
proof (induction p rs arbitrary: ys rule: expand_rle.induct)
  case (2 p c x r)
  then obtain zs where "expand_rle c r = (Ok zs :: ('a list, 'e) outcome)" "ys = replicate (c - p) x @ zs" "p < c"
    by (cases "expand_rle c r :: ('a list, 'e) outcome") (auto split: if_splits)
  then show ?case using 2 by (auto simp: last_count_Cons)
qed (simp add: last_count_def)

lemma write_var_array_append:
  assumes "length a < 2 ^ 64" "length b < 2 ^ 64" "write_var_array a @ xs = write_var_array b @ ys"
  shows "a = b \<and> xs = ys"
proof -
  have "write_len (length a) = write_len (length b)" and rest: "concat (map hash_bytes a) @ xs = concat (map hash_bytes b) @ ys"
    using assms(3) by (simp_all add: write_var_array_def)
  then have "length a = length b" using assms(1,2) by (simp add: write_len_def to_le_bytes_inj)
  from this rest show ?thesis by (rule concat_map_append_inj [rotated]) auto
qed

lemma dropWhile_same_length:
  assumes "length xs = length ys" "dropWhile (\<lambda>b. b = z) xs = dropWhile (\<lambda>b. b = z) ys"
  shows "xs = ys"
proof -
  have split: "zs = replicate (length (takeWhile (\<lambda>b. b = z) zs)) z @ dropWhile (\<lambda>b. b = z) zs" for zs
  proof -
    have "takeWhile (\<lambda>b. b = z) zs = replicate (length (takeWhile (\<lambda>b. b = z) zs)) z"
      by (rule replicate_eqI) (auto dest: set_takeWhileD)
    then show ?thesis by (metis takeWhile_dropWhile_id)
  qed
  have "length (takeWhile (\<lambda>b. b = z) xs) + length (dropWhile (\<lambda>b. b = z) xs) = length xs"
    "length (takeWhile (\<lambda>b. b = z) ys) + length (dropWhile (\<lambda>b. b = z) ys) = length ys"
    by (metis length_append takeWhile_dropWhile_id)+
  then have "length (takeWhile (\<lambda>b. b = z) xs) = length (takeWhile (\<lambda>b. b = z) ys)" using assms by simp
  then show ?thesis using split [of xs] split [of ys] assms(2) by metis
qed

lemma write_blue_work_append: "write_blue_work v @ xs = write_blue_work w @ ys \<longleftrightarrow> v = w \<and> xs = ys"
proof -
  define bytes where "bytes = (\<lambda>w :: u192. rev (to_le_bytes 24 (unat w)))"
  have "length (dropWhile (\<lambda>b. b = 0) (bytes w)) \<le> 24" for w
    using length_dropWhile_le [of "\<lambda>b. b = 0" "bytes w"] by (simp add: bytes_def)
  then have short: "length (dropWhile (\<lambda>b. b = 0) (bytes w)) < 2 ^ 64" for w by (rule le_less_trans) simp
  have "bytes v = bytes w \<longleftrightarrow> v = w"
    using unat_bound [of v] unat_bound [of w] by (simp add: bytes_def to_le_bytes_inj word_unat_eq_iff)
  then have "dropWhile (\<lambda>b. b = 0) (bytes v) = dropWhile (\<lambda>b. b = 0) (bytes w) \<longleftrightarrow> v = w"
    using dropWhile_same_length [of "bytes v" "bytes w" 0] by (auto simp: bytes_def)
  then show ?thesis using write_var_bytes_append [OF short short] by (simp add: write_blue_work_def bytes_def)
qed

text \<open>What a header says apart from its cached hash.\<close>

definition header_fields :: "header \<Rightarrow> _" where
  "header_fields h = ((h_version h, h_hash_merkle_root h, h_accepted_id_merkle_root h, h_utxo_commitment h),
     (h_timestamp h, h_bits h, h_nonce h, h_daa_score h), (h_blue_work h, h_blue_score h, h_pruning_point h))"

lemma header_preimage_inj:
  assumes "into_levels (h_parents_by_level g) = (Ok ls :: (hash list list, unit) outcome)"
    and "into_levels (h_parents_by_level h) = (Ok ms :: (hash list list, unit) outcome)"
    and "list_all (\<lambda>l. length l < 2 ^ 64) ls" "list_all (\<lambda>l. length l < 2 ^ 64) ms"
    and "header_preimage g (h_nonce g) (h_timestamp g) = (header_preimage h (h_nonce h) (h_timestamp h) :: (u8 list, unit) outcome)"
  shows "ls = ms \<and> header_fields g = header_fields h"
proof -
  define rest where "rest = (\<lambda>h :: header. hash_bytes (h_hash_merkle_root h) @ hash_bytes (h_accepted_id_merkle_root h) @ hash_bytes (h_utxo_commitment h)
         @ write_u64 (h_timestamp h) @ write_u32 (h_bits h) @ write_u64 (h_nonce h) @ write_u64 (h_daa_score h)
         @ write_u64 (h_blue_score h) @ write_blue_work (h_blue_work h) @ hash_bytes (h_pruning_point h))"
  have len: "length ls = expanded_len (h_parents_by_level g)" "length ms = expanded_len (h_parents_by_level h)"
    using expand_length [OF assms(1) [unfolded into_levels_def]] expand_length [OF assms(2) [unfolded into_levels_def]]
      last_count_runs by (simp_all add: nat_runs_def)
  have small: "expanded_len cp < 256" for cp
    using unat_bound [of "fst (last cp)"] by (auto simp: expanded_len_def split: list.splits)
  have eq: "h_version g = h_version h" "write_len (expanded_len (h_parents_by_level g)) = write_len (expanded_len (h_parents_by_level h))"
    "concat (map write_var_array ls) @ rest g = concat (map write_var_array ms) @ rest h"
    using assms(5) by (simp_all add: header_preimage_def assms(1,2) rest_def)
  have "expanded_len (h_parents_by_level g) = expanded_len (h_parents_by_level h)"
    using eq(2) small [of "h_parents_by_level g"] small [of "h_parents_by_level h"] by (simp add: write_len_def to_le_bytes_inj)
  then have "length ls = length ms" using len by simp
  then have "ls = ms \<and> rest g = rest h"
    using eq(3)
  proof (rule concat_map_append_inj [rotated])
    fix a b :: "hash list" and xs ys
    assume "a \<in> set ls" "b \<in> set ms" "write_var_array a @ xs = write_var_array b @ ys"
    moreover from this(1,2) have "length a < 2 ^ 64" "length b < 2 ^ 64" using assms(3,4) by (simp_all add: list_all_iff)
    ultimately show "a = b \<and> xs = ys" by (intro write_var_array_append)
  qed
  then show ?thesis using eq(1) write_blue_work_append by (auto simp: rest_def header_fields_def)
qed

text \<open>C13. The hash of a block commits to its header: when the hash function has no collision on the
  two streams, headers with the same hash have the same parents on every level and agree in every
  field but the cached hash.\<close>

theorem header_hash_commits:
  assumes "header_hash cr g = (Ok x :: (hash, unit) outcome)" "header_hash cr h = (Ok x :: (hash, unit) outcome)"
    and "into_levels (h_parents_by_level g) = (Ok ls :: (hash list list, unit) outcome)"
    and "into_levels (h_parents_by_level h) = (Ok ms :: (hash list list, unit) outcome)"
    and "list_all (\<lambda>l. length l < 2 ^ 64) ls" "list_all (\<lambda>l. length l < 2 ^ 64) ms"
    and "header_preimage g (h_nonce g) (h_timestamp g) = (Ok b :: (u8 list, unit) outcome)"
    and "header_preimage h (h_nonce h) (h_timestamp h) = (Ok c :: (u8 list, unit) outcome)"
    and "blake2b cr ''BlockHash'' b = blake2b cr ''BlockHash'' c \<longrightarrow> b = c"
  shows "ls = ms \<and> header_fields g = header_fields h"
proof (rule header_preimage_inj [OF assms(3-6)])
  have "b = c" using assms(1,2,7,8,9) by (simp add: header_hash_def hash_override_nonce_time_def)
  then show "header_preimage g (h_nonce g) (h_timestamp g) = (header_preimage h (h_nonce h) (h_timestamp h) :: (u8 list, unit) outcome)"
    using assms(7,8) by simp
qed

theorem header_hash_commits_witness:
  "header_fields ex_header = header_fields (ex_header\<lparr>h_hash := 5\<rparr>)"
proof -
  have lv: "into_levels (h_parents_by_level ex_header) = (Ok [[7]] :: (hash list list, unit) outcome)"
    by (simp add: into_levels_def ex_header_def)
  then obtain b where b: "header_preimage ex_header (h_nonce ex_header) (h_timestamp ex_header) = (Ok b :: (u8 list, unit) outcome)"
    by (simp add: header_preimage_def)
  have same: "header_preimage (ex_header\<lparr>h_hash := 5\<rparr>) n t = (header_preimage ex_header n t :: (u8 list, unit) outcome)" for n t
    by (simp add: header_preimage_def)
  have hash: "header_hash ex_crypto ex_header = (Ok 1 :: (hash, unit) outcome)"
    using b by (simp add: header_hash_def hash_override_nonce_time_def ex_crypto_def)
  show ?thesis
    using header_hash_commits [of ex_crypto ex_header 1 "ex_header\<lparr>h_hash := 5\<rparr>" "[[7]]" "[[7]]" b b] lv b same hash
    by (simp add: header_hash_def hash_override_nonce_time_def)
qed

end
