(* ===== verification/Tx_Hash.thy ===== *)
theory Tx_Hash
  imports Sighash "HOL-Library.Log_Nat"
begin

text \<open>
  The hash and the identifier of a transaction (\<^verbatim>\<open>src/consensus/core/src/hashing/tx.rs\<close>), the
  construction of transactions (\<^verbatim>\<open>src/consensus/core/src/tx.rs\<close>) and Merkle roots
  (\<^verbatim>\<open>src/crypto/merkle/src/lib.rs\<close>, \<^verbatim>\<open>src/consensus/core/src/merkle.rs\<close>).

  The array of the Merkle computation is shown to hold the levels of the tree over the padded
  leaves, so the root is that of the recursive definition. Equal hashes or roots of different
  contents exhibit a collision of the hash function among the strings that were hashed.
\<close>

section \<open>Transactions\<close>

definition FULL :: u8 where "FULL = 0"
definition EXCLUDE_SIGNATURE_SCRIPT :: u8 where "EXCLUDE_SIGNATURE_SCRIPT = 1"
definition EXCLUDE_MASS_COMMIT :: u8 where "EXCLUDE_MASS_COMMIT = 2"

definition flags_contain :: "u8 \<Rightarrow> u8 \<Rightarrow> bool" where
  "flags_contain flags f = (flags AND f = f)"

definition write_outpoint :: "transaction_outpoint \<Rightarrow> u8 list" where
  "write_outpoint op = hash_bytes (transaction_id op) @ write_u32 (index op)"

definition write_input :: "u8 \<Rightarrow> transaction_input \<Rightarrow> u8 list" where
  "write_input flags i =
     write_outpoint (previous_outpoint i)
     @ (if \<not> flags_contain flags EXCLUDE_SIGNATURE_SCRIPT
        then write_var_bytes (signature_script i) @ [sig_op_count i] else write_var_bytes [])
     @ write_u64 (sequence_no i)"

definition write_output :: "transaction_output \<Rightarrow> u8 list" where
  "write_output out =
     write_u64 (output_value out) @ write_u16 (spk_version (output_spk out)) @ write_var_bytes (script (output_spk out))"

definition write_transaction :: "u8 \<Rightarrow> transaction \<Rightarrow> u8 list" where
  "write_transaction flags tx =
     write_u16 (version tx) @ write_len (length (inputs tx)) @ concat (map (write_input flags) (inputs tx))
     @ write_len (length (outputs tx)) @ concat (map write_output (outputs tx))
     @ write_u64 (lock_time tx) @ subnetwork_id tx @ write_u64 (gas tx) @ write_var_bytes (payload tx)
     @ (if \<not> flags_contain flags EXCLUDE_MASS_COMMIT then if 0 < mass tx then write_u64 (mass tx) else [] else [])"

definition tx_hash :: "crypto \<Rightarrow> transaction \<Rightarrow> hash" where
  "tx_hash cr tx = blake2b cr ''TransactionHash'' (write_transaction FULL tx)"

definition hash_pre_crescendo :: "crypto \<Rightarrow> transaction \<Rightarrow> hash" where
  "hash_pre_crescendo cr tx = blake2b cr ''TransactionHash'' (write_transaction EXCLUDE_MASS_COMMIT tx)"

definition tx_id_of :: "crypto \<Rightarrow> transaction \<Rightarrow> hash" where
  "tx_id_of cr tx =
     (let flags = if is_coinbase tx then FULL else EXCLUDE_SIGNATURE_SCRIPT OR EXCLUDE_MASS_COMMIT
      in blake2b cr ''TransactionID'' (write_transaction flags tx))"

definition new_non_finalized ::
    "u16 \<Rightarrow> transaction_input list \<Rightarrow> transaction_output list \<Rightarrow> u64 \<Rightarrow> u8 list \<Rightarrow> u64 \<Rightarrow> u8 list \<Rightarrow> transaction" where
  "new_non_finalized v ins outs lt subnet g pl =
     \<lparr>version = v, inputs = ins, outputs = outs, lock_time = lt, subnetwork_id = subnet, gas = g, payload = pl, mass = 0, tx_id = 0\<rparr>"

definition finalize_tx :: "crypto \<Rightarrow> transaction \<Rightarrow> transaction" where
  "finalize_tx cr tx = tx\<lparr>tx_id := tx_id_of cr tx\<rparr>"

definition set_mass :: "u64 \<Rightarrow> transaction \<Rightarrow> transaction" where
  "set_mass m tx = tx\<lparr>mass := m\<rparr>"

definition new_transaction ::
    "crypto \<Rightarrow> u16 \<Rightarrow> transaction_input list \<Rightarrow> transaction_output list \<Rightarrow> u64 \<Rightarrow> u8 list \<Rightarrow> u64 \<Rightarrow> u8 list \<Rightarrow> transaction" where
  "new_transaction cr v ins outs lt subnet g pl = finalize_tx cr (new_non_finalized v ins outs lt subnet g pl)"

definition new_with_mass ::
    "crypto \<Rightarrow> u16 \<Rightarrow> transaction_input list \<Rightarrow> transaction_output list \<Rightarrow> u64 \<Rightarrow> u8 list \<Rightarrow> u64 \<Rightarrow> u8 list \<Rightarrow> u64 \<Rightarrow> transaction" where
  "new_with_mass cr v ins outs lt subnet g pl m = finalize_tx cr (set_mass m (new_non_finalized v ins outs lt subnet g pl))"

section \<open>Merkle roots\<close>

definition merkle_hash :: "crypto \<Rightarrow> hash \<Rightarrow> hash \<Rightarrow> hash" where
  "merkle_hash cr left right = blake2b cr ''MerkleBranchHash'' (hash_bytes left @ hash_bytes right)"

definition next_power_of_two :: "nat \<Rightarrow> nat" where
  "next_power_of_two n = (if n \<le> 1 then 1 else 2 ^ floorlog 2 (n - 1))"

text \<open>One step of the loop: a parent is none when its left child is, and a missing right child is zero.\<close>

definition merkle_parent :: "crypto \<Rightarrow> hash option \<Rightarrow> hash option \<Rightarrow> hash option" where
  "merkle_parent cr l r = (case l of None \<Rightarrow> None
     | Some a \<Rightarrow> Some (merkle_hash cr a (case r of Some b \<Rightarrow> b | None \<Rightarrow> ZERO_HASH)))"

definition merkle_step :: "crypto \<Rightarrow> nat \<Rightarrow> nat \<Rightarrow> hash option list \<Rightarrow> (hash option list, 'e) outcome" where
  "merkle_step cr next_pot j merkles =
     (let i = 2 * j; offset = next_pot + j
      in if i + 1 < length merkles \<and> offset < length merkles
         then Ok (merkles[offset := merkle_parent cr (merkles ! i) (merkles ! (i + 1))]) else Panic)"

definition calc_merkle_root :: "crypto \<Rightarrow> hash list \<Rightarrow> (hash, 'e) outcome" where
  "calc_merkle_root cr hashes =
     (if hashes = [] then Ok ZERO_HASH
      else let next_pot = next_power_of_two (length hashes);
               vec_len = 2 * next_pot - 1;
               merkles = map Some hashes @ replicate (vec_len - length hashes) None
           in rbind (rfold (merkle_step cr next_pot) [0..<vec_len div 2] merkles) (\<lambda>m.
              expect (last m)))"

definition calc_hash_merkle_root :: "crypto \<Rightarrow> transaction list \<Rightarrow> (hash, 'e) outcome" where
  "calc_hash_merkle_root cr txs = calc_merkle_root cr (map (tx_hash cr) txs)"

definition calc_hash_merkle_root_pre_crescendo :: "crypto \<Rightarrow> transaction list \<Rightarrow> (hash, 'e) outcome" where
  "calc_hash_merkle_root_pre_crescendo cr txs = calc_merkle_root cr (map (hash_pre_crescendo cr) txs)"


section \<open>The array holds the levels of the tree\<close>

fun level_up :: "crypto \<Rightarrow> hash option list \<Rightarrow> hash option list" where
  "level_up cr (l # r # xs) = merkle_parent cr l r # level_up cr xs"
| "level_up cr _ = []"

fun tree_levels :: "crypto \<Rightarrow> nat \<Rightarrow> hash option list \<Rightarrow> hash option list" where
  "tree_levels cr 0 L = L"
| "tree_levels cr (Suc h) L = L @ tree_levels cr h (level_up cr L)"

lemma length_level_up [simp]: "length (level_up cr L) = length L div 2"
  by (induction cr L rule: level_up.induct) auto

lemma nth_level_up: "j < length L div 2 \<Longrightarrow> level_up cr L ! j = merkle_parent cr (L ! (2 * j)) (L ! (2 * j + 1))"
proof (induction cr L arbitrary: j rule: level_up.induct)
  case (1 cr l r xs)
  then show ?case by (cases j) auto
qed auto

lemma tree_levels_start: "j < length L \<Longrightarrow> tree_levels cr h L ! j = L ! j"
  by (cases h) (auto simp: nth_append)

lemma length_tree_levels: "length L = 2 ^ h \<Longrightarrow> length (tree_levels cr h L) = 2 * 2 ^ h - 1"
  by (induction h arbitrary: L) auto

lemma tree_levels_parent:
  "length L = 2 ^ h \<Longrightarrow> j < 2 ^ h - 1 \<Longrightarrow>
   tree_levels cr h L ! (2 ^ h + j) = merkle_parent cr (tree_levels cr h L ! (2 * j)) (tree_levels cr h L ! (2 * j + 1))"
proof (induction h arbitrary: L j)
  case (Suc h)
  define S where "S = tree_levels cr h (level_up cr L)"
  have up: "length (level_up cr L) = 2 ^ h" using Suc.prems(1) by simp
  have seq: "tree_levels cr (Suc h) L = L @ S" by (simp add: S_def)
  have above: "tree_levels cr (Suc h) L ! (2 ^ Suc h + k) = S ! k" for k unfolding seq using Suc.prems(1) by (simp add: nth_append)
  show ?case
  proof (cases "j < 2 ^ h")
    case True
    then have "S ! j = merkle_parent cr (L ! (2 * j)) (L ! (2 * j + 1))"
      using up Suc.prems(1) by (simp add: S_def tree_levels_start nth_level_up)
    then show ?thesis unfolding above using True Suc.prems(1) by (simp add: seq nth_append)
  next
    case False
    define i where "i = j - 2 ^ h"
    have i: "j = 2 ^ h + i" "i < 2 ^ h - 1" "2 * j = 2 ^ Suc h + 2 * i" using False Suc.prems(2) by (auto simp: i_def)
    have "S ! j = merkle_parent cr (S ! (2 * i)) (S ! (2 * i + 1))" unfolding S_def i(1) by (rule Suc.IH [OF up i(2)])
    then show ?thesis unfolding above i(3) using above [of "2 * i"] above [of "2 * i + 1"] by (simp add: add.assoc)
  qed
qed simp

lemma merkle_loop:
  assumes "length L = 2 ^ h" "length M = 2 * 2 ^ h - 1" "\<forall>k < 2 ^ h. M ! k = L ! k" "n \<le> 2 ^ h - 1"
  shows "\<exists>M'. rfold (merkle_step cr (2 ^ h)) [0..<n] M = (Ok M' :: (hash option list, 'e) outcome) \<and> length M' = length M
    \<and> (\<forall>k < 2 ^ h + n. M' ! k = tree_levels cr h L ! k)"
  using assms(4)
proof (induction n)
  case 0
  then show ?case using assms(1,3) by (simp add: tree_levels_start)
next
  case (Suc n)
  then obtain M' where M': "rfold (merkle_step cr (2 ^ h)) [0..<n] M = (Ok M' :: (hash option list, 'e) outcome)" "length M' = length M"
    "\<forall>k < 2 ^ h + n. M' ! k = tree_levels cr h L ! k" by auto
  have n: "n < 2 ^ h - 1" using Suc.prems by simp
  have in_range: "2 * n + 1 < length M'" "2 ^ h + n < length M'" "2 * n + 1 < 2 ^ h + n" using n M'(2) assms(2) by auto
  define M'' where "M'' = M'[2 ^ h + n := merkle_parent cr (M' ! (2 * n)) (M' ! (2 * n + 1))]"
  have "merkle_parent cr (M' ! (2 * n)) (M' ! (2 * n + 1)) = tree_levels cr h L ! (2 ^ h + n)"
    using tree_levels_parent [OF assms(1) n, of cr] M'(3) in_range(3) by simp
  then have "\<forall>k < 2 ^ h + Suc n. M'' ! k = tree_levels cr h L ! k"
    using M'(3) in_range(2) by (auto simp: M''_def nth_list_update less_Suc_eq)
  moreover have "rfold (merkle_step cr (2 ^ h)) [0..<Suc n] M = (Ok M'' :: (hash option list, 'e) outcome)"
    using M'(1) in_range by (simp add: rfold_append merkle_step_def Let_def M''_def)
  ultimately show ?case using M'(2) by (auto simp: M''_def)
qed

section \<open>The root is that of the recursive tree\<close>

fun merkle_tree :: "crypto \<Rightarrow> nat \<Rightarrow> hash list \<Rightarrow> hash option" where
  "merkle_tree cr 0 xs = (case xs of [] \<Rightarrow> None | x # _ \<Rightarrow> Some x)"
| "merkle_tree cr (Suc h) xs =
     merkle_parent cr (merkle_tree cr h (take (2 ^ h) xs)) (merkle_tree cr h (drop (2 ^ h) xs))"

fun option_tree :: "crypto \<Rightarrow> nat \<Rightarrow> hash option list \<Rightarrow> hash option" where
  "option_tree cr 0 L = hd L"
| "option_tree cr (Suc h) L =
     merkle_parent cr (option_tree cr h (take (2 ^ h) L)) (option_tree cr h (drop (2 ^ h) L))"

lemma level_up_take: "level_up cr (take (2 * n) L) = take n (level_up cr L)"
proof (induction n arbitrary: L)
  case (Suc n)
  show ?case
  proof (cases "(cr, L)" rule: level_up.cases)
    case (1 cr l r xs)
    then show ?thesis using Suc.IH by simp
  qed auto
qed simp

lemma level_up_drop: "level_up cr (drop (2 * n) L) = drop n (level_up cr L)"
proof (induction n arbitrary: L)
  case (Suc n)
  show ?case
  proof (cases "(cr, L)" rule: level_up.cases)
    case (1 cr l r xs)
    then show ?thesis using Suc.IH by simp
  qed auto
qed simp

lemma option_tree_up: "length L = 2 * 2 ^ h \<Longrightarrow> option_tree cr h (level_up cr L) = option_tree cr (Suc h) L"
proof (induction h arbitrary: L)
  case 0
  then obtain l r where "L = [l, r]" by (auto simp: length_Suc_conv numeral_2_eq_2)
  then show ?case by simp
next
  case (Suc h)
  have "option_tree cr h (take (2 ^ h) (level_up cr L)) = option_tree cr (Suc h) (take (2 ^ Suc h) L)"
    "option_tree cr h (drop (2 ^ h) (level_up cr L)) = option_tree cr (Suc h) (drop (2 ^ Suc h) L)"
    using Suc.IH [of "take (2 ^ Suc h) L"] Suc.IH [of "drop (2 ^ Suc h) L"] Suc.prems
    by (simp_all add: level_up_take [symmetric] level_up_drop [symmetric] del: option_tree.simps(2))
  then show ?case by (simp only: option_tree.simps(2) [of cr "Suc h" L] option_tree.simps(2) [of cr h "level_up cr L"])
qed

lemma tree_levels_last: "length L = 2 ^ h \<Longrightarrow> last (tree_levels cr h L) = option_tree cr h L"
proof (induction h arbitrary: L)
  case 0
  then show ?case by (cases L) auto
next
  case (Suc h)
  have "0 < length (tree_levels cr h (level_up cr L))" using length_tree_levels [of "level_up cr L" h cr] Suc.prems by (cases "2 ^ h :: nat") simp_all
  then have "tree_levels cr h (level_up cr L) \<noteq> []" by simp
  then show ?case using Suc option_tree_up [of L h cr] by (simp del: option_tree.simps)
qed

lemma option_tree_padded:
  "length xs \<le> 2 ^ h \<Longrightarrow> option_tree cr h (map Some xs @ replicate (2 ^ h - length xs) None) = merkle_tree cr h xs"
proof (induction h arbitrary: xs)
  case 0
  then show ?case by (cases xs) auto
next
  case (Suc h)
  let ?L = "map Some xs @ replicate (2 ^ Suc h - length xs) None"
  have "take (2 ^ h) ?L = map Some (take (2 ^ h) xs) @ replicate (2 ^ h - length (take (2 ^ h) xs)) None"
    "drop (2 ^ h) ?L = map Some (drop (2 ^ h) xs) @ replicate (2 ^ h - length (drop (2 ^ h) xs)) None"
    using Suc.prems by (auto simp: take_map drop_map min_def)
  then show ?case using Suc.IH [of "take (2 ^ h) xs"] Suc.IH [of "drop (2 ^ h) xs"] Suc.prems by simp
qed

lemma merkle_tree_Some: "xs \<noteq> [] \<Longrightarrow> length xs \<le> 2 ^ h \<Longrightarrow> merkle_tree cr h xs \<noteq> None"
proof (induction h arbitrary: xs)
  case 0
  then show ?case by (cases xs) auto
next
  case (Suc h)
  have "take (2 ^ h) xs \<noteq> []" using Suc.prems(1) by simp
  then obtain a where "merkle_tree cr h (take (2 ^ h) xs) = Some a" using Suc.IH [of "take (2 ^ h) xs"] by auto
  then show ?case by (simp add: merkle_parent_def)
qed

definition tree_height :: "nat \<Rightarrow> nat" where
  "tree_height n = (if n \<le> 1 then 0 else floorlog 2 (n - 1))"

lemma next_power_height: "next_power_of_two n = 2 ^ tree_height n" "n \<le> 2 ^ tree_height n"
proof -
  show "next_power_of_two n = 2 ^ tree_height n" by (simp add: next_power_of_two_def tree_height_def)
  have "n - 1 < 2 ^ floorlog 2 (n - 1)" if "1 < n" using floorlog_bounds [of "n - 1" 2] that by simp
  then show "n \<le> 2 ^ tree_height n" by (auto simp: tree_height_def not_le)
qed

lemma calc_merkle_root_tree:
  assumes "xs \<noteq> []"
  shows "\<exists>r. merkle_tree cr (tree_height (length xs)) xs = Some r \<and> calc_merkle_root cr xs = (Ok r :: (hash, 'e) outcome)"
proof -
  define h where "h = tree_height (length xs)"
  have h: "next_power_of_two (length xs) = 2 ^ h" "length xs \<le> 2 ^ h" using next_power_height by (simp_all add: h_def)
  define L where "L = map Some xs @ replicate (2 ^ h - length xs) (None :: hash option)"
  define M where "M = map Some xs @ replicate (2 * 2 ^ h - 1 - length xs) (None :: hash option)"
  have L: "length L = 2 ^ h" using h(2) by (simp add: L_def)
  have M: "length M = 2 * 2 ^ h - 1" using h(2) by (simp add: M_def)
  have "\<forall>k < 2 ^ h. M ! k = L ! k" by (auto simp: M_def L_def nth_append)
  from merkle_loop [OF L M this, of "2 ^ h - 1" cr, where 'e = 'e]
  obtain M' where M': "rfold (merkle_step cr (2 ^ h)) [0..<2 ^ h - 1] M = (Ok M' :: (hash option list, 'e) outcome)" "length M' = length M"
    "\<forall>k < 2 ^ h + (2 ^ h - 1). M' ! k = tree_levels cr h L ! k" by auto
  have "M' = tree_levels cr h L"
    by (rule nth_equalityI) (use M' M length_tree_levels [OF L] in auto)
  then have last: "last M' = merkle_tree cr h xs"
    using tree_levels_last [OF L, of cr] option_tree_padded [OF h(2), of cr] by (simp add: L_def)
  obtain r where r: "merkle_tree cr h xs = Some r" using merkle_tree_Some [OF assms h(2)] by blast
  have "(2 * 2 ^ h - 1) div 2 = (2 ^ h - 1 :: nat)" by (cases "2 ^ h :: nat") auto
  then have "calc_merkle_root cr xs = (Ok r :: (hash, 'e) outcome)"
    using assms M'(1) last r by (simp add: calc_merkle_root_def h(1) Let_def M_def)
  then show ?thesis using r by (simp add: h_def)
qed

section \<open>Commitment\<close>

text \<open>No two different arguments from the two lists have the same image.\<close>

definition collision_free :: "('a \<Rightarrow> 'b) \<Rightarrow> 'a list \<Rightarrow> 'a list \<Rightarrow> bool" where
  "collision_free f as bs = list_all (\<lambda>a. list_all (\<lambda>b. f a = f b \<longrightarrow> a = b) bs) as"

lemma collision_freeD: "collision_free f as bs \<Longrightarrow> a \<in> set as \<Longrightarrow> b \<in> set bs \<Longrightarrow> f a = f b \<Longrightarrow> a = b"
  by (auto simp: collision_free_def list_all_iff)

lemma collision_free_mono: "collision_free f as bs \<Longrightarrow> set as' \<subseteq> set as \<Longrightarrow> set bs' \<subseteq> set bs \<Longrightarrow> collision_free f as' bs'"
  by (auto simp: collision_free_def list_all_iff)

text \<open>The pairs that the computation of a root hashes.\<close>

definition branch :: "crypto \<Rightarrow> hash option \<Rightarrow> hash option \<Rightarrow> (hash \<times> hash) list" where
  "branch cr l r = (case l of None \<Rightarrow> [] | Some a \<Rightarrow> [(a, case r of Some b \<Rightarrow> b | None \<Rightarrow> ZERO_HASH)])"

fun merkle_pairs :: "crypto \<Rightarrow> nat \<Rightarrow> hash list \<Rightarrow> (hash \<times> hash) list" where
  "merkle_pairs cr 0 xs = []"
| "merkle_pairs cr (Suc h) xs =
     merkle_pairs cr h (take (2 ^ h) xs) @ merkle_pairs cr h (drop (2 ^ h) xs)
     @ branch cr (merkle_tree cr h (take (2 ^ h) xs)) (merkle_tree cr h (drop (2 ^ h) xs))"

lemma merkle_tree_inj:
  assumes "length xs = length ys" "length xs \<le> 2 ^ h" "merkle_tree cr h xs = merkle_tree cr h ys"
    and "collision_free (\<lambda>(l, r). merkle_hash cr l r) (merkle_pairs cr h xs) (merkle_pairs cr h ys)"
  shows "xs = ys"
  using assms
proof (induction h arbitrary: xs ys)
  case 0
  then show ?case by (cases xs; cases ys) auto
next
  case (Suc h)
  show ?case
  proof (cases "xs = []")
    case True
    then show ?thesis using Suc.prems(1) by simp
  next
    case False
    define l l' r r' where "l = take (2 ^ h) xs" and "l' = take (2 ^ h) ys" and "r = drop (2 ^ h) xs" and "r' = drop (2 ^ h) ys"
    have split: "xs = l @ r" "ys = l' @ r'" by (simp_all add: l_def l'_def r_def r'_def)
    have len: "length l = length l'" "length r = length r'" "length l \<le> 2 ^ h" "length r \<le> 2 ^ h" "l \<noteq> []" "l' \<noteq> []"
      using Suc.prems(1,2) False by (auto simp: l_def l'_def r_def r'_def)
    obtain a a' where a: "merkle_tree cr h l = Some a" "merkle_tree cr h l' = Some a'"
      using merkle_tree_Some [of l h cr] merkle_tree_Some [of l' h cr] len by auto
    define b b' where "b = (case merkle_tree cr h r of Some b \<Rightarrow> b | None \<Rightarrow> ZERO_HASH)"
      and "b' = (case merkle_tree cr h r' of Some b \<Rightarrow> b | None \<Rightarrow> ZERO_HASH)"
    have pairs: "merkle_pairs cr (Suc h) xs = merkle_pairs cr h l @ merkle_pairs cr h r @ [(a, b)]"
      "merkle_pairs cr (Suc h) ys = merkle_pairs cr h l' @ merkle_pairs cr h r' @ [(a', b')]"
      using a by (simp_all add: branch_def b_def b'_def l_def l'_def r_def r'_def)
    have "merkle_hash cr a b = merkle_hash cr a' b'"
      using Suc.prems(3) a by (simp add: merkle_parent_def b_def b'_def l_def l'_def r_def r'_def)
    then have ab: "a = a'" "b = b'"
      using collision_freeD [OF Suc.prems(4) [unfolded pairs], of "(a, b)" "(a', b')"] by auto
    have "l = l'"
      by (rule Suc.IH [OF len(1,3)]) (use a ab collision_free_mono [OF Suc.prems(4) [unfolded pairs]] in auto)
    moreover have "r = r'"
    proof (cases "r = []")
      case False
      then have "r' \<noteq> []" using len(2) by auto
      then have "merkle_tree cr h r = merkle_tree cr h r'"
        using ab(2) merkle_tree_Some [OF False len(4), of cr] merkle_tree_Some [of r' h cr] len(2,4) by (auto simp: b_def b'_def)
      then show ?thesis by (intro Suc.IH [OF len(2,4)]) (use collision_free_mono [OF Suc.prems(4) [unfolded pairs]] in auto)
    qed (use len(2) in simp)
    ultimately show ?thesis using split by simp
  qed
qed

definition root_pairs :: "crypto \<Rightarrow> hash list \<Rightarrow> (hash \<times> hash) list" where
  "root_pairs cr xs = merkle_pairs cr (tree_height (length xs)) xs"

lemma merkle_root_inj:
  assumes "length xs = length ys" "calc_merkle_root cr xs = (calc_merkle_root cr ys :: (hash, 'e) outcome)"
    and "collision_free (\<lambda>(l, r). merkle_hash cr l r) (root_pairs cr xs) (root_pairs cr ys)"
  shows "xs = ys"
proof (cases "xs = []")
  case False
  then have "ys \<noteq> []" using assms(1) by auto
  with False have "merkle_tree cr (tree_height (length xs)) xs = merkle_tree cr (tree_height (length xs)) ys"
    using calc_merkle_root_tree [of xs cr, where 'e = 'e] calc_merkle_root_tree [of ys cr, where 'e = 'e] assms(1,2) by auto
  then show ?thesis using merkle_tree_inj [OF assms(1) next_power_height(2)] assms(1,3) by (simp add: root_pairs_def)
qed (use assms(1) in simp)

lemma merkle_root_returns: "\<exists>r. calc_merkle_root cr xs = (Ok r :: (hash, 'e) outcome)"
  using calc_merkle_root_tree [of xs cr] by (cases "xs = []") (auto simp: calc_merkle_root_def)

text \<open>The stream of a transaction determines it.\<close>

definition tx_fits :: "transaction \<Rightarrow> bool" where
  "tx_fits tx =
     (length (subnetwork_id tx) = SUBNETWORK_ID_SIZE \<and> length (payload tx) < 2 ^ 64
      \<and> length (inputs tx) < 2 ^ 64 \<and> length (outputs tx) < 2 ^ 64
      \<and> list_all (\<lambda>i. length (signature_script i) < 2 ^ 64) (inputs tx)
      \<and> list_all (\<lambda>out. length (script (output_spk out)) < 2 ^ 64) (outputs tx))"

lemma write_input_append:
  assumes "length (signature_script a) < 2 ^ 64" "length (signature_script b) < 2 ^ 64"
    and "write_input FULL a @ xs = write_input FULL b @ ys"
  shows "a = b \<and> xs = ys"
proof -
  have "write_outpoint (previous_outpoint a) = write_outpoint (previous_outpoint b)"
    "write_var_bytes (signature_script a) @ [sig_op_count a] @ write_u64 (sequence_no a) @ xs
     = write_var_bytes (signature_script b) @ [sig_op_count b] @ write_u64 (sequence_no b) @ ys"
    using assms(3) by (simp_all add: write_input_def write_outpoint_def flags_contain_def FULL_def EXCLUDE_SIGNATURE_SCRIPT_def)
  then show ?thesis
    using write_var_bytes_append [OF assms(1,2)] by (auto simp: write_outpoint_def transaction_input.equality transaction_outpoint.equality)
qed

lemma write_output_append:
  assumes "length (script (output_spk a)) < 2 ^ 64" "length (script (output_spk b)) < 2 ^ 64"
    and "write_output a @ xs = write_output b @ ys"
  shows "a = b \<and> xs = ys"
  using assms(3) write_var_bytes_append [OF assms(1,2)]
  by (auto simp: write_output_def transaction_output.equality script_public_key.equality)

lemma write_transaction_inj:
  assumes "write_transaction FULL t = write_transaction FULL u" "tx_fits t" "tx_fits u"
  shows "t\<lparr>tx_id := 0\<rparr> = u\<lparr>tx_id := 0\<rparr>"
proof -
  have ins_inj: "a = b \<and> xs = ys" if "a \<in> set (inputs t)" "b \<in> set (inputs u)" "write_input FULL a @ xs = write_input FULL b @ ys" for a b xs ys
    by (rule write_input_append [OF _ _ that(3)]) (use assms(2,3) that(1,2) in \<open>simp_all add: tx_fits_def list_all_iff\<close>)
  have outs_inj: "a = b \<and> xs = ys" if "a \<in> set (outputs t)" "b \<in> set (outputs u)" "write_output a @ xs = write_output b @ ys" for a b xs ys
    by (rule write_output_append [OF _ _ that(3)]) (use assms(2,3) that(1,2) in \<open>simp_all add: tx_fits_def list_all_iff\<close>)
  define tail where "tail = (\<lambda>t :: transaction. write_u64 (lock_time t) @ subnetwork_id t @ write_u64 (gas t) @ write_var_bytes (payload t)
     @ (if 0 < mass t then write_u64 (mass t) else []))"
  have flags: "\<not> flags_contain FULL EXCLUDE_MASS_COMMIT" by (simp add: flags_contain_def FULL_def EXCLUDE_MASS_COMMIT_def)
  have eq: "version t = version u" "write_len (length (inputs t)) = write_len (length (inputs u))"
    "concat (map (write_input FULL) (inputs t)) @ write_len (length (outputs t)) @ concat (map write_output (outputs t)) @ tail t
     = concat (map (write_input FULL) (inputs u)) @ write_len (length (outputs u)) @ concat (map write_output (outputs u)) @ tail u"
    using assms(1) flags by (simp_all add: write_transaction_def tail_def)
  have "length (inputs t) = length (inputs u)" using eq(2) assms(2,3) by (simp add: write_len_def to_le_bytes_inj tx_fits_def)
  from concat_map_append_inj [OF ins_inj this eq(3)] have ins: "inputs t = inputs u"
    and rest: "write_len (length (outputs t)) @ concat (map write_output (outputs t)) @ tail t
      = write_len (length (outputs u)) @ concat (map write_output (outputs u)) @ tail u" by blast+
  then have "write_len (length (outputs t)) = write_len (length (outputs u))"
    and rest': "concat (map write_output (outputs t)) @ tail t = concat (map write_output (outputs u)) @ tail u" by simp_all
  then have "length (outputs t) = length (outputs u)" using assms(2,3) by (simp add: write_len_def to_le_bytes_inj tx_fits_def)
  from concat_map_append_inj [OF outs_inj this rest'] have out: "outputs t = outputs u" and tail: "tail t = tail u" by blast+
  have len: "length (subnetwork_id t) = length (subnetwork_id u)" "length (payload t) < 2 ^ 64" "length (payload u) < 2 ^ 64"
    using assms(2,3) by (simp_all add: tx_fits_def)
  have fields: "lock_time t = lock_time u" "subnetwork_id t = subnetwork_id u" "gas t = gas u" "payload t = payload u"
    "(if 0 < mass t then write_u64 (mass t) else []) = (if 0 < mass u then write_u64 (mass u) else [])"
    using tail len(1) write_var_bytes_append [OF len(2,3)] by (auto simp: tail_def)
  have "mass t = mass u"
  proof (cases "mass t = 0 \<or> mass u = 0")
    case True
    then show ?thesis using arg_cong [OF fields(5), of length] by (auto simp: word_neq_0_conv [symmetric] split: if_splits)
  qed (use fields(5) in \<open>simp add: word_neq_0_conv [symmetric]\<close>)
  then show ?thesis using eq(1) ins out fields by (intro transaction.equality) simp_all
qed

lemma merkle_root_determines:
  assumes "length ts = length us" "list_all tx_fits ts" "list_all tx_fits us"
    and "calc_hash_merkle_root cr ts = (calc_hash_merkle_root cr us :: (hash, 'e) outcome)"
    and "collision_free (\<lambda>(l, r). merkle_hash cr l r) (root_pairs cr (map (tx_hash cr) ts)) (root_pairs cr (map (tx_hash cr) us))"
    and "collision_free (blake2b cr ''TransactionHash'') (map (write_transaction FULL) ts) (map (write_transaction FULL) us)"
  shows "map (\<lambda>t. t\<lparr>tx_id := 0\<rparr>) ts = map (\<lambda>t. t\<lparr>tx_id := 0\<rparr>) us"
proof -
  have "map (tx_hash cr) ts = map (tx_hash cr) us"
    using merkle_root_inj [of "map (tx_hash cr) ts" "map (tx_hash cr) us" cr, where 'e = 'e] assms(1,4,5) by (simp add: calc_hash_merkle_root_def)
  then have same: "tx_hash cr (ts ! i) = tx_hash cr (us ! i)" if "i < length ts" for i
    using that assms(1) by (metis nth_map)
  have "(ts ! i)\<lparr>tx_id := 0\<rparr> = (us ! i)\<lparr>tx_id := 0\<rparr>" if i: "i < length ts" for i
  proof (rule write_transaction_inj)
    show "write_transaction FULL (ts ! i) = write_transaction FULL (us ! i)"
      by (rule collision_freeD [OF assms(6)]) (use i assms(1) same in \<open>auto simp: tx_hash_def\<close>)
  qed (use i assms(1-3) in \<open>auto simp: list_all_length\<close>)
  then show ?thesis using assms(1) by (intro nth_equalityI) auto
qed

text \<open>C9. The Merkle root of a block commits to its transactions: the computation of the root returns
  for every list of transactions, and any list of as many transactions with that root is equal to it
  up to the cached identifiers, unless the hash function has a collision among the strings that were
  hashed (or a field is longer than its length prefix can say).\<close>

theorem merkle_root_commits:
  "\<exists>r. calc_hash_merkle_root cr ts = (Ok r :: (hash, unit) outcome) \<and>
     (\<forall>us. length ts = length us \<and> list_all tx_fits ts \<and> list_all tx_fits us \<and>
        calc_hash_merkle_root cr us = (Ok r :: (hash, unit) outcome) \<and>
        collision_free (\<lambda>(l, r). merkle_hash cr l r) (root_pairs cr (map (tx_hash cr) ts)) (root_pairs cr (map (tx_hash cr) us)) \<and>
        collision_free (blake2b cr ''TransactionHash'') (map (write_transaction FULL) ts) (map (write_transaction FULL) us)
      \<longrightarrow> map (\<lambda>t. t\<lparr>tx_id := 0\<rparr>) ts = map (\<lambda>t. t\<lparr>tx_id := 0\<rparr>) us)"
proof -
  obtain r where r: "calc_hash_merkle_root cr ts = (Ok r :: (hash, unit) outcome)"
    unfolding calc_hash_merkle_root_def using merkle_root_returns by blast
  then show ?thesis by (intro exI [of _ r] conjI) (auto intro!: merkle_root_determines [where cr = cr and 'e = unit])
qed

text \<open>A hash of the length and the first byte tells the strings of the example apart.\<close>

definition ex_hash_crypto :: crypto where
  "ex_hash_crypto = ex_crypto\<lparr>blake2b := (\<lambda>key data. of_nat (length data + 1000 * unat (data ! 0)))\<rparr>"

lemma ex_stream:
  "length (write_transaction FULL (ptx (ex_populated sig))) = 134 + length sig"
  "write_transaction FULL (ptx (ex_populated sig)) ! 0 = 0"
proof -
  have "write_u16 0 = [0, 0]" by (simp add: write_u16_def to_le_bytes_def upt_rec)
  then show "write_transaction FULL (ptx (ex_populated sig)) ! 0 = 0"
    by (simp add: write_transaction_def ex_populated_def)
  show "length (write_transaction FULL (ptx (ex_populated sig))) = 134 + length sig"
    by (simp add: write_transaction_def write_input_def write_output_def write_outpoint_def write_var_bytes_def ex_populated_def
        ex_spk_def FULL_def flags_contain_def EXCLUDE_SIGNATURE_SCRIPT_def EXCLUDE_MASS_COMMIT_def
        SUBNETWORK_ID_NATIVE_def SUBNETWORK_ID_SIZE_def from_byte_def)
qed

lemma ex_tx_hash: "length sig < 100 \<Longrightarrow> tx_hash ex_hash_crypto (ptx (ex_populated sig)) = of_nat (134 + length sig)"
  by (simp add: tx_hash_def ex_hash_crypto_def ex_stream)

theorem merkle_root_commits_witness:
  "\<exists>r r'. calc_hash_merkle_root ex_hash_crypto [ptx (ex_populated [1]), ptx (ex_populated [1, 2])] = (Ok r :: (hash, unit) outcome) \<and>
     calc_hash_merkle_root ex_hash_crypto [ptx (ex_populated [1, 2]), ptx (ex_populated [1])] = (Ok r' :: (hash, unit) outcome) \<and> r \<noteq> r'"
proof -
  let ?t = "ptx (ex_populated [1])" and ?u = "ptx (ex_populated [1, 2])"
  obtain r' where r': "calc_hash_merkle_root ex_hash_crypto [?u, ?t] = (Ok r' :: (hash, unit) outcome)"
    using merkle_root_commits [of ex_hash_crypto "[?u, ?t]"] by blast
  have fits: "tx_fits ?t" "tx_fits ?u"
    by (simp_all add: tx_fits_def ex_populated_def ex_spk_def SUBNETWORK_ID_NATIVE_def from_byte_def)
  let ?streams = "collision_free (blake2b ex_hash_crypto ''TransactionHash'')
      (map (write_transaction FULL) [?t, ?u]) (map (write_transaction FULL) [?u, ?t])"
    and ?pairs = "collision_free (\<lambda>(l, r). merkle_hash ex_hash_crypto l r)
      (root_pairs ex_hash_crypto (map (tx_hash ex_hash_crypto) [?t, ?u]))
      (root_pairs ex_hash_crypto (map (tx_hash ex_hash_crypto) [?u, ?t]))"
  have streams: ?streams by (simp add: collision_free_def ex_hash_crypto_def ex_stream)
  have "tree_height 2 = 1" by (simp add: tree_height_def compute_floorlog)
  then have pairs: ?pairs
    by (simp add: root_pairs_def numeral_2_eq_2 branch_def collision_free_def ex_tx_hash merkle_hash_def)
      (simp add: ex_hash_crypto_def hash_bytes_def to_le_bytes_def nth_append)
  obtain r where r: "calc_hash_merkle_root ex_hash_crypto [?t, ?u] = (Ok r :: (hash, unit) outcome)"
    and imp: "length [?t, ?u] = length [?u, ?t] \<and> list_all tx_fits [?t, ?u] \<and> list_all tx_fits [?u, ?t] \<and>
      calc_hash_merkle_root ex_hash_crypto [?u, ?t] = (Ok r :: (hash, unit) outcome) \<and> ?pairs \<and> ?streams \<longrightarrow>
      map (\<lambda>t. t\<lparr>tx_id := 0\<rparr>) [?t, ?u] = map (\<lambda>t. t\<lparr>tx_id := 0\<rparr>) [?u, ?t]"
    using merkle_root_commits [of ex_hash_crypto "[?t, ?u]"] by blast
  have fit: "list_all tx_fits [?t, ?u]" "list_all tx_fits [?u, ?t]" "length [?t, ?u] = length [?u, ?t]"
    using fits by (simp_all only: list.pred_inject list.size simp_thms)
  have "?t\<lparr>tx_id := 0\<rparr> \<noteq> ?u\<lparr>tx_id := 0\<rparr>" by (simp add: ex_populated_def)
  then have "map (\<lambda>t. t\<lparr>tx_id := 0\<rparr>) [?t, ?u] \<noteq> map (\<lambda>t. t\<lparr>tx_id := 0\<rparr>) [?u, ?t]" by (simp only: list.map list.inject simp_thms)
  then have "r \<noteq> r'" using imp fit streams pairs r' by blast
  with r r' show ?thesis by blast
qed

end
