(* ===== verification/Coinbase.thy ===== *)
theory Coinbase
  imports Ghostdag_Data Tx_Hash Mass_Calc
begin

text \<open>
  Coinbase transactions: the payload that a miner reports, the subsidy as a function of the DAA
  score and the transaction that a block must contain
  (\<^verbatim>\<open>src/consensus/src/processes/coinbase.rs\<close>, \<^verbatim>\<open>src/consensus/core/src/coinbase.rs\<close>), with the
  parameters that depend on a fork (\<^verbatim>\<open>src/consensus/core/src/config/params.rs\<close>).

  Parsing accepts exactly the payloads that serialising can produce, the outputs of a coinbase
  transaction pay exactly the rewards of the merge set, and the subsidies of all DAA scores of the
  main network stay below the maximal supply.
\<close>

section \<open>Parameters that depend on a fork\<close>

type_synonym fork_activation = u64

definition NEVER :: fork_activation where "NEVER = - 1"
definition ALWAYS :: fork_activation where "ALWAYS = 0"

definition is_active :: "fork_activation \<Rightarrow> u64 \<Rightarrow> bool" where
  "is_active a current_daa_score = (current_daa_score \<ge> a)"

record forked_param =
  fp_pre :: u64
  fp_post :: u64
  fp_activation :: fork_activation

definition new_forked_param :: "u64 \<Rightarrow> u64 \<Rightarrow> fork_activation \<Rightarrow> forked_param" where
  "new_forked_param pre post a = \<lparr>fp_pre = pre, fp_post = post, fp_activation = a\<rparr>"

definition forked_param_const :: "u64 \<Rightarrow> forked_param" where
  "forked_param_const v = \<lparr>fp_pre = v, fp_post = v, fp_activation = NEVER\<rparr>"

definition forked_param_get :: "forked_param \<Rightarrow> u64 \<Rightarrow> u64" where
  "forked_param_get p daa_score = (if is_active (fp_activation p) daa_score then fp_post p else fp_pre p)"

definition before_fork :: "forked_param \<Rightarrow> u64" where
  "before_fork p = (if fp_activation p = ALWAYS then fp_post p else fp_pre p)"

definition after_fork :: "forked_param \<Rightarrow> u64" where
  "after_fork p = (if fp_activation p = NEVER then fp_pre p else fp_post p)"

text \<open>The number of blocks per second from the two target times in milliseconds.\<close>

definition bps_history :: "u64 \<Rightarrow> u64 \<Rightarrow> fork_activation \<Rightarrow> (forked_param, 'e) outcome" where
  "bps_history pre_crescendo_target_time_per_block target_time_per_block crescendo_activation =
     rbind (div_w 1000 pre_crescendo_target_time_per_block) (\<lambda>pre.
     rbind (div_w 1000 target_time_per_block) (\<lambda>post.
     Ok (new_forked_param pre post crescendo_activation)))"

section \<open>Coinbase data\<close>

record miner_data =
  miner_spk :: script_public_key
  extra_data :: "u8 list"

record coinbase_data =
  cd_blue_score :: u64
  cd_subsidy :: u64
  cd_miner_data :: miner_data

record block_reward_data =
  reward_subsidy :: u64
  reward_total_fees :: u64
  reward_spk :: script_public_key

record coinbase_template =
  template_tx :: transaction
  has_red_reward :: bool

datatype coinbase_error =
    PayloadLenBelowMin nat nat
  | PayloadLenAboveMax nat nat
  | PayloadScriptPublicKeyLenAboveMax nat u8
  | PayloadCantContainScriptPublicKey nat nat

definition LENGTH_OF_BLUE_SCORE :: nat where "LENGTH_OF_BLUE_SCORE = 8"
definition LENGTH_OF_SUBSIDY :: nat where "LENGTH_OF_SUBSIDY = 8"
definition LENGTH_OF_SCRIPT_PUB_KEY_VERSION :: nat where "LENGTH_OF_SCRIPT_PUB_KEY_VERSION = 2"
definition LENGTH_OF_SCRIPT_PUB_KEY_LENGTH :: nat where "LENGTH_OF_SCRIPT_PUB_KEY_LENGTH = 1"

definition MIN_PAYLOAD_LENGTH :: nat where
  "MIN_PAYLOAD_LENGTH = LENGTH_OF_BLUE_SCORE + LENGTH_OF_SUBSIDY + LENGTH_OF_SCRIPT_PUB_KEY_VERSION
     + LENGTH_OF_SCRIPT_PUB_KEY_LENGTH"

definition SECONDS_PER_MONTH :: u64 where "SECONDS_PER_MONTH = 2629800"

definition SUBSIDY_BY_MONTH_TABLE :: "u64 list" where
  "SUBSIDY_BY_MONTH_TABLE = [
    44000000000, 41530469757, 39199543598, 36999442271, 34922823143, 32962755691, 31112698372, 29366476791,
    27718263097, 26162556530, 24694165062, 23308188075, 22000000000, 20765234878, 19599771799, 18499721135,
    17461411571, 16481377845, 15556349186, 14683238395, 13859131548, 13081278265, 12347082531, 11654094037,
    11000000000, 10382617439, 9799885899, 9249860567, 8730705785, 8240688922, 7778174593, 7341619197, 6929565774,
    6540639132, 6173541265, 5827047018, 5500000000, 5191308719, 4899942949, 4624930283, 4365352892, 4120344461,
    3889087296, 3670809598, 3464782887, 3270319566, 3086770632, 2913523509, 2750000000, 2595654359, 2449971474,
    2312465141, 2182676446, 2060172230, 1944543648, 1835404799, 1732391443, 1635159783, 1543385316, 1456761754,
    1375000000, 1297827179, 1224985737, 1156232570, 1091338223, 1030086115, 972271824, 917702399, 866195721,
    817579891, 771692658, 728380877, 687500000, 648913589, 612492868, 578116285, 545669111, 515043057, 486135912,
    458851199, 433097860, 408789945, 385846329, 364190438, 343750000, 324456794, 306246434, 289058142, 272834555,
    257521528, 243067956, 229425599, 216548930, 204394972, 192923164, 182095219, 171875000, 162228397, 153123217,
    144529071, 136417277, 128760764, 121533978, 114712799, 108274465, 102197486, 96461582, 91047609, 85937500,
    81114198, 76561608, 72264535, 68208638, 64380382, 60766989, 57356399, 54137232, 51098743, 48230791, 45523804,
    42968750, 40557099, 38280804, 36132267, 34104319, 32190191, 30383494, 28678199, 27068616, 25549371, 24115395,
    22761902, 21484375, 20278549, 19140402, 18066133, 17052159, 16095095, 15191747, 14339099, 13534308, 12774685,
    12057697, 11380951, 10742187, 10139274, 9570201, 9033066, 8526079, 8047547, 7595873, 7169549, 6767154, 6387342,
    6028848, 5690475, 5371093, 5069637, 4785100, 4516533, 4263039, 4023773, 3797936, 3584774, 3383577, 3193671,
    3014424, 2845237, 2685546, 2534818, 2392550, 2258266, 2131519, 2011886, 1898968, 1792387, 1691788, 1596835,
    1507212, 1422618, 1342773, 1267409, 1196275, 1129133, 1065759, 1005943, 949484, 896193, 845894, 798417, 753606,
    711309, 671386, 633704, 598137, 564566, 532879, 502971, 474742, 448096, 422947, 399208, 376803, 355654, 335693,
    316852, 299068, 282283, 266439, 251485, 237371, 224048, 211473, 199604, 188401, 177827, 167846, 158426, 149534,
    141141, 133219, 125742, 118685, 112024, 105736, 99802, 94200, 88913, 83923, 79213, 74767, 70570, 66609, 62871,
    59342, 56012, 52868, 49901, 47100, 44456, 41961, 39606, 37383, 35285, 33304, 31435, 29671, 28006, 26434, 24950,
    23550, 22228, 20980, 19803, 18691, 17642, 16652, 15717, 14835, 14003, 13217, 12475, 11775, 11114, 10490, 9901,
    9345, 8821, 8326, 7858, 7417, 7001, 6608, 6237, 5887, 5557, 5245, 4950, 4672, 4410, 4163, 3929, 3708, 3500, 3304,
    3118, 2943, 2778, 2622, 2475, 2336, 2205, 2081, 1964, 1854, 1750, 1652, 1559, 1471, 1389, 1311, 1237, 1168, 1102,
    1040, 982, 927, 875, 826, 779, 735, 694, 655, 618, 584, 551, 520, 491, 463, 437, 413, 389, 367, 347, 327, 309,
    292, 275, 260, 245, 231, 218, 206, 194, 183, 173, 163, 154, 146, 137, 130, 122, 115, 109, 103, 97, 91, 86, 81, 77,
    73, 68, 65, 61, 57, 54, 51, 48, 45, 43, 40, 38, 36, 34, 32, 30, 28, 27, 25, 24, 22, 21, 20, 19, 18, 17, 16, 15,
    14, 13, 12, 12, 11, 10, 10, 9, 9, 8, 8, 7, 7, 6, 6, 6, 5, 5, 5, 4, 4, 4, 4, 3, 3, 3, 3, 3, 2, 2, 2, 2, 2, 2, 2, 1,
    1, 1, 1, 1, 1, 1, 1, 1, 1, 1, 1, 0]"

record coinbase_manager =
  coinbase_payload_script_public_key_max_len :: u8
  max_coinbase_payload_len :: nat
  deflationary_phase_daa_score :: u64
  pre_deflationary_phase_base_subsidy :: u64
  cm_bps_history :: forked_param
  subsidy_by_month_table_before :: "u64 list"
  subsidy_by_month_table_after :: "u64 list"
  crescendo_activation_daa_score :: u64

text \<open>Division rounding up of 64-bit integers; by zero it panics.\<close>

definition div_ceil_w :: "u64 \<Rightarrow> u64 \<Rightarrow> (u64, 'e) outcome" where
  "div_ceil_w a b =
     rbind (div_w a b) (\<lambda>q. if a mod b = 0 then Ok q else add_w q 1)"

definition new_coinbase_manager ::
    "u8 \<Rightarrow> nat \<Rightarrow> u64 \<Rightarrow> u64 \<Rightarrow> forked_param \<Rightarrow> (coinbase_manager, 'e) outcome" where
  "new_coinbase_manager spk_max payload_max deflationary base bps =
     rbind (rmap (\<lambda>x. div_ceil_w x (before_fork bps)) SUBSIDY_BY_MONTH_TABLE) (\<lambda>before.
     rbind (rmap (\<lambda>x. div_ceil_w x (after_fork bps)) SUBSIDY_BY_MONTH_TABLE) (\<lambda>after.
     Ok \<lparr>coinbase_payload_script_public_key_max_len = spk_max, max_coinbase_payload_len = payload_max,
         deflationary_phase_daa_score = deflationary, pre_deflationary_phase_base_subsidy = base,
         cm_bps_history = bps, subsidy_by_month_table_before = before, subsidy_by_month_table_after = after,
         crescendo_activation_daa_score = fp_activation bps\<rparr>))"

section \<open>The subsidy\<close>

definition subsidy_month :: "coinbase_manager \<Rightarrow> u64 \<Rightarrow> (u64, 'e) outcome" where
  "subsidy_month cm daa_score =
     rbind (if crescendo_activation_daa_score cm < deflationary_phase_daa_score cm
            then rbind (sub_w daa_score (deflationary_phase_daa_score cm)) (\<lambda>d.
                 div_w d (after_fork (cm_bps_history cm)))
            else if daa_score < crescendo_activation_daa_score cm
            then rbind (sub_w daa_score (deflationary_phase_daa_score cm)) (\<lambda>d.
                 div_w d (before_fork (cm_bps_history cm)))
            else rbind (sub_w (crescendo_activation_daa_score cm) (deflationary_phase_daa_score cm)) (\<lambda>d.
                 rbind (div_w d (before_fork (cm_bps_history cm))) (\<lambda>s.
                 rbind (sub_w daa_score (crescendo_activation_daa_score cm)) (\<lambda>e.
                 rbind (div_w e (after_fork (cm_bps_history cm))) (\<lambda>t.
                 add_w s t)))))
       (\<lambda>seconds_since_deflationary_phase_started.
     div_w seconds_since_deflationary_phase_started SECONDS_PER_MONTH)"

definition calc_block_subsidy :: "coinbase_manager \<Rightarrow> u64 \<Rightarrow> (u64, 'e) outcome" where
  "calc_block_subsidy cm daa_score =
     (if daa_score < deflationary_phase_daa_score cm then Ok (pre_deflationary_phase_base_subsidy cm)
      else
        rbind (subsidy_month cm daa_score) (\<lambda>month.
        let subsidy_table = if is_active (fp_activation (cm_bps_history cm)) daa_score
              then subsidy_by_month_table_after cm else subsidy_by_month_table_before cm;
            i = min (unat month) (length subsidy_table - 1)
        in if i < length subsidy_table then Ok (subsidy_table ! i) else Panic))"

section \<open>The payload\<close>

definition serialize_coinbase_payload :: "coinbase_manager \<Rightarrow> coinbase_data \<Rightarrow> (u8 list, coinbase_error) outcome" where
  "serialize_coinbase_payload cm data =
     (let spk = miner_spk (cd_miner_data data); script_pub_key_len = length (script spk)
      in rbind (fail_if (script_pub_key_len > unat (coinbase_payload_script_public_key_max_len cm))
           (PayloadScriptPublicKeyLenAboveMax script_pub_key_len (coinbase_payload_script_public_key_max_len cm))) (\<lambda>_.
         Ok (write_u64 (cd_blue_score data) @ write_u64 (cd_subsidy data) @ write_u16 (spk_version spk)
             @ [of_nat script_pub_key_len] @ script spk @ extra_data (cd_miner_data data))))"

definition modify_coinbase_payload ::
    "coinbase_manager \<Rightarrow> u8 list \<Rightarrow> miner_data \<Rightarrow> (u8 list, coinbase_error) outcome" where
  "modify_coinbase_payload cm payload_bytes miner =
     (let spk = miner_spk miner; script_pub_key_len = length (script spk)
      in rbind (fail_if (script_pub_key_len > unat (coinbase_payload_script_public_key_max_len cm))
           (PayloadScriptPublicKeyLenAboveMax script_pub_key_len (coinbase_payload_script_public_key_max_len cm))) (\<lambda>_.
         Ok (take (LENGTH_OF_BLUE_SCORE + LENGTH_OF_SUBSIDY) payload_bytes
             @ write_u16 (spk_version spk) @ [of_nat script_pub_key_len] @ script spk @ extra_data miner)))"

text \<open>\<^verbatim>\<open>PayloadParser::take\<close>: the first bytes and the rest; splitting beyond the end panics.\<close>

definition parser_take :: "nat \<Rightarrow> u8 list \<Rightarrow> (u8 list \<times> u8 list, 'e) outcome" where
  "parser_take n remaining = (if n \<le> length remaining then Ok (take n remaining, drop n remaining) else Panic)"

definition deserialize_coinbase_payload ::
    "coinbase_manager \<Rightarrow> u8 list \<Rightarrow> (coinbase_data, coinbase_error) outcome" where
  "deserialize_coinbase_payload cm payload_bytes =
     rbind (fail_if (length payload_bytes < MIN_PAYLOAD_LENGTH)
       (PayloadLenBelowMin (length payload_bytes) MIN_PAYLOAD_LENGTH)) (\<lambda>_.
     rbind (fail_if (length payload_bytes > max_coinbase_payload_len cm)
       (PayloadLenAboveMax (length payload_bytes) (max_coinbase_payload_len cm))) (\<lambda>_.
     rbind (parser_take LENGTH_OF_BLUE_SCORE payload_bytes) (\<lambda>(score, r1).
     rbind (parser_take LENGTH_OF_SUBSIDY r1) (\<lambda>(sub, r2).
     rbind (parser_take LENGTH_OF_SCRIPT_PUB_KEY_VERSION r2) (\<lambda>(ver, r3).
     rbind (parser_take LENGTH_OF_SCRIPT_PUB_KEY_LENGTH r3) (\<lambda>(len, r4).
     let script_pub_key_len = of_nat (le_value len) :: u8
     in rbind (fail_if (script_pub_key_len > coinbase_payload_script_public_key_max_len cm)
          (PayloadScriptPublicKeyLenAboveMax (unat script_pub_key_len) (coinbase_payload_script_public_key_max_len cm))) (\<lambda>_.
        rbind (fail_if (length r4 < unat script_pub_key_len)
          (PayloadCantContainScriptPublicKey (length payload_bytes) (MIN_PAYLOAD_LENGTH + unat script_pub_key_len))) (\<lambda>_.
        rbind (parser_take (unat script_pub_key_len) r4) (\<lambda>(spk, extra).
        Ok \<lparr>cd_blue_score = of_nat (le_value score), cd_subsidy = of_nat (le_value sub),
            cd_miner_data = \<lparr>miner_spk = \<lparr>spk_version = of_nat (le_value ver), script = spk\<rparr>, extra_data = extra\<rparr>\<rparr>)))))))))"

section \<open>The transaction\<close>

definition blue_reward ::
    "(hash, block_reward_data) hmap \<Rightarrow> hash \<Rightarrow> transaction_output list \<Rightarrow> (transaction_output list, 'e) outcome" where
  "blue_reward mergeset_rewards blue outs =
     rbind (expect (hm_get mergeset_rewards blue)) (\<lambda>r.
     rbind (add_w (reward_subsidy r) (reward_total_fees r)) (\<lambda>v.
     Ok (if v > 0 then outs @ [\<lparr>output_value = v, output_spk = reward_spk r\<rparr>] else outs)))"

definition add_red_reward ::
    "(hash, block_reward_data) hmap \<Rightarrow> hash list \<Rightarrow> hash \<Rightarrow> u64 \<Rightarrow> (u64, 'e) outcome" where
  "add_red_reward mergeset_rewards mergeset_non_daa red red_reward =
     rbind (expect (hm_get mergeset_rewards red)) (\<lambda>r.
     if red \<in> set mergeset_non_daa then add_w red_reward (reward_total_fees r)
     else rbind (add_w (reward_subsidy r) (reward_total_fees r)) (\<lambda>v. add_w red_reward v))"

definition expected_coinbase_transaction ::
    "crypto \<Rightarrow> coinbase_manager \<Rightarrow> u64 \<Rightarrow> miner_data \<Rightarrow> ghostdag_data \<Rightarrow> (hash, block_reward_data) hmap \<Rightarrow> hash list \<Rightarrow>
     (coinbase_template, coinbase_error) outcome" where
  "expected_coinbase_transaction cr cm daa_score miner gd mergeset_rewards mergeset_non_daa =
     rbind (rfold (blue_reward mergeset_rewards)
              (filter (\<lambda>h. h \<notin> set mergeset_non_daa) (gd_mergeset_blues gd)) []) (\<lambda>blue_outputs.
     rbind (rfold (add_red_reward mergeset_rewards mergeset_non_daa) (gd_mergeset_reds gd) 0) (\<lambda>red_reward.
     let outs = if red_reward > 0 then blue_outputs @ [\<lparr>output_value = red_reward, output_spk = miner_spk miner\<rparr>]
                else blue_outputs
     in rbind (calc_block_subsidy cm daa_score) (\<lambda>subsidy.
        rbind (serialize_coinbase_payload cm
                 \<lparr>cd_blue_score = gd_blue_score gd, cd_subsidy = subsidy, cd_miner_data = miner\<rparr>) (\<lambda>payload_bytes.
        Ok \<lparr>template_tx = new_transaction cr TX_VERSION [] outs 0 SUBNETWORK_ID_COINBASE 0 payload_bytes,
            has_red_reward = red_reward > 0\<rparr>))))"

text \<open>The manager of the main network.\<close>

definition mainnet_coinbase_manager :: "(coinbase_manager, 'e) outcome" where
  "mainnet_coinbase_manager =
     rbind (bps_history 1000 100 110165000) (\<lambda>bps.
     new_coinbase_manager 150 204 (15778800 - 259200) 50000000000 bps)"



section \<open>Payloads\<close>

lemmas payload_lengths = LENGTH_OF_BLUE_SCORE_def LENGTH_OF_SUBSIDY_def LENGTH_OF_SCRIPT_PUB_KEY_VERSION_def
  LENGTH_OF_SCRIPT_PUB_KEY_LENGTH_def MIN_PAYLOAD_LENGTH_def

lemma parser_take_append [simp]:
  "n = length a \<Longrightarrow> parser_take n (a @ r) = Ok (a, r)" "parser_take (Suc 0) (x # r) = Ok ([x], r)"
  by (simp_all add: parser_take_def)

lemma write_of_le_value:
  "length a = 8 \<Longrightarrow> write_u64 (of_nat (le_value a)) = a" "length b = 2 \<Longrightarrow> write_u16 (of_nat (le_value b)) = b"
  using le_value_bound [of a] to_le_bytes_le_value [of a] le_value_bound [of b] to_le_bytes_le_value [of b]
  by (simp_all add: write_u64_def write_u16_def unat_of_nat)

lemma le_value_of_write: "of_nat (le_value (write_u64 x)) = x" "of_nat (le_value (write_u16 y)) = y"
  using unat_bound [of x] unat_bound [of y] by (simp_all add: write_u64_def write_u16_def le_value_to_le_bytes)

lemma payload_fields:
  assumes "MIN_PAYLOAD_LENGTH \<le> length p"
  obtains a b c l r where "p = a @ b @ c @ l # r" "length a = 8" "length b = 8" "length c = 2"
proof (rule that [of "take 8 p" "take 8 (drop 8 p)" "take 2 (drop 16 p)" "p ! 18" "drop 19 p"])
  have "drop 18 p = p ! 18 # drop 19 p" using assms Cons_nth_drop_Suc [of 18 p] by (simp add: payload_lengths)
  then have "drop 16 p = take 2 (drop 16 p) @ p ! 18 # drop 19 p" using append_take_drop_id [of 2 "drop 16 p"] by simp
  moreover have "drop 8 p = take 8 (drop 8 p) @ drop 16 p" using append_take_drop_id [of 8 "drop 8 p"] by simp
  ultimately show "p = take 8 p @ take 8 (drop 8 p) @ take 2 (drop 16 p) @ p ! 18 # drop 19 p"
    using append_take_drop_id [of 8 p] by argo
qed (use assms in \<open>simp_all add: payload_lengths\<close>)

lemma deserialize_fields:
  assumes "length a = 8" "length b = 8" "length c = 2"
  shows "deserialize_coinbase_payload cm (a @ b @ c @ l # r) =
    (if 19 + length r > max_coinbase_payload_len cm then Err (PayloadLenAboveMax (19 + length r) (max_coinbase_payload_len cm))
     else if l > coinbase_payload_script_public_key_max_len cm
     then Err (PayloadScriptPublicKeyLenAboveMax (unat l) (coinbase_payload_script_public_key_max_len cm))
     else if length r < unat l then Err (PayloadCantContainScriptPublicKey (19 + length r) (19 + unat l))
     else Ok \<lparr>cd_blue_score = of_nat (le_value a), cd_subsidy = of_nat (le_value b),
       cd_miner_data = \<lparr>miner_spk = \<lparr>spk_version = of_nat (le_value c), script = take (unat l) r\<rparr>, extra_data = drop (unat l) r\<rparr>\<rparr>)"
  using assms by (simp add: deserialize_coinbase_payload_def payload_lengths fail_if_def parser_take_def Let_def)

lemma serialize_length: "serialize_coinbase_payload cm d = Ok p \<Longrightarrow> MIN_PAYLOAD_LENGTH \<le> length p"
  by (auto simp: serialize_coinbase_payload_def Let_def outcome_simps payload_lengths)

lemma payload_parses:
  assumes "serialize_coinbase_payload cm d = Ok p" "length p \<le> max_coinbase_payload_len cm"
  shows "deserialize_coinbase_payload cm p = Ok d"
proof -
  define m where "m = cd_miner_data d"
  define n where "n = length (script (miner_spk m))"
  have n: "n \<le> unat (coinbase_payload_script_public_key_max_len cm)"
    and p: "p = write_u64 (cd_blue_score d) @ write_u64 (cd_subsidy d) @ write_u16 (spk_version (miner_spk m))
      @ of_nat n # (script (miner_spk m) @ extra_data m)"
    using assms(1) by (auto simp: serialize_coinbase_payload_def Let_def outcome_simps m_def n_def)
  have len: "unat (of_nat n :: u8) = n" using n unat_bound [of "coinbase_payload_script_public_key_max_len cm"] by (simp add: unat_of_nat)
  then have "\<not> of_nat n > coinbase_payload_script_public_key_max_len cm" using n by (simp add: word_less_nat_alt)
  then show ?thesis
    using assms(2) len unfolding p by (subst deserialize_fields) (simp_all add: n_def le_value_of_write m_def)
qed

lemma payload_of_parse:
  assumes "deserialize_coinbase_payload cm p = Ok d"
  shows "serialize_coinbase_payload cm d = Ok p \<and> length p \<le> max_coinbase_payload_len cm"
proof -
  have "MIN_PAYLOAD_LENGTH \<le> length p"
    using assms by (auto simp: deserialize_coinbase_payload_def outcome_simps)
  then obtain a b c l r where p: "p = a @ b @ c @ l # r" "length a = 8" "length b = 8" "length c = 2" by (rule payload_fields)
  have "length (take (unat l) r) = unat l \<and> unat l \<le> unat (coinbase_payload_script_public_key_max_len cm) \<and> 19 + length r \<le> max_coinbase_payload_len cm"
    using assms unfolding p(1) deserialize_fields [OF p(2-4)] by (auto simp: word_less_nat_alt split: if_splits)
  moreover have "d = \<lparr>cd_blue_score = of_nat (le_value a), cd_subsidy = of_nat (le_value b),
       cd_miner_data = \<lparr>miner_spk = \<lparr>spk_version = of_nat (le_value c), script = take (unat l) r\<rparr>, extra_data = drop (unat l) r\<rparr>\<rparr>"
    using assms unfolding p(1) deserialize_fields [OF p(2-4)] by (auto split: if_splits)
  ultimately show ?thesis
    using p(2-4) by (simp add: serialize_coinbase_payload_def Let_def write_of_le_value p(1))
qed

lemma payload_no_panic: "deserialize_coinbase_payload cm p \<noteq> Panic"
proof (cases "MIN_PAYLOAD_LENGTH \<le> length p")
  case True
  then obtain a b c l r where p: "p = a @ b @ c @ l # r" "length a = 8" "length b = 8" "length c = 2" by (rule payload_fields)
  show ?thesis unfolding p(1) deserialize_fields [OF p(2-4)] by simp
qed (simp add: deserialize_coinbase_payload_def)

lemma modify_serialized:
  assumes "serialize_coinbase_payload cm d = Ok p"
  shows "modify_coinbase_payload cm p m = serialize_coinbase_payload cm (d\<lparr>cd_miner_data := m\<rparr>)"
proof -
  have "take 16 p = write_u64 (cd_blue_score d) @ write_u64 (cd_subsidy d)"
    using assms by (auto simp: serialize_coinbase_payload_def Let_def outcome_simps)
  then show ?thesis by (simp add: modify_coinbase_payload_def serialize_coinbase_payload_def Let_def payload_lengths)
qed

text \<open>C12. Parsing a coinbase payload never panics and is the exact inverse of serialising: it returns
  the data \<open>d\<close> exactly on the payload that serialises \<open>d\<close> within the length limit. Replacing the miner
  data of a serialised payload gives the payload serialised with the new miner data.\<close>

theorem coinbase_payload_exact:
  "deserialize_coinbase_payload cm p \<noteq> Panic
   \<and> (deserialize_coinbase_payload cm p = Ok d
        \<longleftrightarrow> serialize_coinbase_payload cm d = Ok p \<and> length p \<le> max_coinbase_payload_len cm)
   \<and> (serialize_coinbase_payload cm d = Ok p
        \<longrightarrow> modify_coinbase_payload cm p m = serialize_coinbase_payload cm (d\<lparr>cd_miner_data := m\<rparr>))"
  using payload_no_panic payload_parses payload_of_parse modify_serialized by blast

definition ex_coinbase_manager :: coinbase_manager where
  "ex_coinbase_manager = \<lparr>coinbase_payload_script_public_key_max_len = 150, max_coinbase_payload_len = 204,
     deflationary_phase_daa_score = 100, pre_deflationary_phase_base_subsidy = 50, cm_bps_history = forked_param_const 1,
     subsidy_by_month_table_before = [44], subsidy_by_month_table_after = [44], crescendo_activation_daa_score = NEVER\<rparr>"

definition ex_coinbase_data :: coinbase_data where
  "ex_coinbase_data = \<lparr>cd_blue_score = 7, cd_subsidy = 50, cd_miner_data = \<lparr>miner_spk = \<lparr>spk_version = 0, script = [1, 2, 3]\<rparr>, extra_data = [9]\<rparr>\<rparr>"

lemma ex_payload: "\<exists>p. serialize_coinbase_payload ex_coinbase_manager ex_coinbase_data = Ok p \<and> length p = 23"
  by (simp add: serialize_coinbase_payload_def ex_coinbase_manager_def ex_coinbase_data_def)

theorem coinbase_payload_exact_witness:
  "\<exists>p. serialize_coinbase_payload ex_coinbase_manager ex_coinbase_data = Ok p
     \<and> deserialize_coinbase_payload ex_coinbase_manager p = Ok ex_coinbase_data
     \<and> modify_coinbase_payload ex_coinbase_manager p (cd_miner_data ex_coinbase_data) = Ok p"
proof -
  obtain p where p: "serialize_coinbase_payload ex_coinbase_manager ex_coinbase_data = Ok p" "length p = 23" using ex_payload by blast
  then show ?thesis
    using coinbase_payload_exact [of ex_coinbase_manager p ex_coinbase_data "cd_miner_data ex_coinbase_data"]
    by (simp add: ex_coinbase_manager_def)
qed

section \<open>Rewards\<close>

definition reward_sum :: "(hash, block_reward_data) hmap \<Rightarrow> hash \<Rightarrow> nat" where
  "reward_sum rewards h = (let r = the (hm_get rewards h) in unat (reward_subsidy r) + unat (reward_total_fees r))"

text \<open>A red block outside the DAA window earns its fees only.\<close>

definition red_share :: "(hash, block_reward_data) hmap \<Rightarrow> hash list \<Rightarrow> hash \<Rightarrow> nat" where
  "red_share rewards non_daa h =
     (if h \<in> set non_daa then unat (reward_total_fees (the (hm_get rewards h))) else reward_sum rewards h)"

definition reward_output :: "(hash, block_reward_data) hmap \<Rightarrow> hash \<Rightarrow> transaction_output" where
  "reward_output rewards h = \<lparr>output_value = of_nat (reward_sum rewards h), output_spk = reward_spk (the (hm_get rewards h))\<rparr>"

lemma blue_reward_step:
  assumes "hm_get rewards h \<noteq> None" "reward_sum rewards h < 2 ^ 64"
  shows "blue_reward rewards h outs = Ok (outs @ (if 0 < reward_sum rewards h then [reward_output rewards h] else []))"
proof -
  obtain r where r: "hm_get rewards h = Some r" using assms(1) by blast
  have fits: "unat (reward_subsidy r) + unat (reward_total_fees r) < 2 ^ 64" using assms(2) r by (simp add: reward_sum_def)
  then have v: "unat (reward_subsidy r + reward_total_fees r) = reward_sum rewards h" using r by (simp add: reward_sum_def unat_word_ariths)
  then have "reward_subsidy r + reward_total_fees r = of_nat (reward_sum rewards h)" by (simp flip: v)
  then show ?thesis using r fits v by (simp add: blue_reward_def checked_add_def reward_output_def word_less_nat_alt)
qed

lemma blue_rewards:
  assumes "list_all (\<lambda>h. hm_get rewards h \<noteq> None \<and> reward_sum rewards h < 2 ^ 64) bs"
  shows "rfold (blue_reward rewards) bs outs
    = Ok (outs @ map (reward_output rewards) (filter (\<lambda>h. 0 < reward_sum rewards h) bs))"
  using assms by (induction bs arbitrary: outs) (auto simp: blue_reward_step)

lemma red_reward_step:
  assumes "hm_get rewards h \<noteq> None" "unat acc + red_share rewards non_daa h < 2 ^ 64"
  shows "\<exists>v. add_red_reward rewards non_daa h acc = (Ok v :: (u64, 'e) outcome) \<and> unat v = unat acc + red_share rewards non_daa h"
proof -
  obtain r where r: "hm_get rewards h = Some r" using assms(1) by blast
  show ?thesis
  proof (cases "h \<in> set non_daa")
    case True
    then show ?thesis using r assms(2) by (auto simp: add_red_reward_def red_share_def checked_add_def unat_word_ariths)
  next
    case False
    have s: "unat (reward_subsidy r) + unat (reward_total_fees r) < 2 ^ 64" "unat acc + (unat (reward_subsidy r) + unat (reward_total_fees r)) < 2 ^ 64"
      using False r assms(2) by (simp_all add: red_share_def reward_sum_def)
    then have "unat (reward_subsidy r + reward_total_fees r) = unat (reward_subsidy r) + unat (reward_total_fees r)"
      by (simp add: unat_word_ariths)
    then show ?thesis using s False r
      by (simp add: add_red_reward_def red_share_def reward_sum_def checked_add_def unat_word_ariths)
  qed
qed

lemma red_rewards:
  assumes "list_all (\<lambda>h. hm_get rewards h \<noteq> None) rs" "unat acc + sum_list (map (red_share rewards non_daa) rs) < 2 ^ 64"
  shows "\<exists>v. rfold (add_red_reward rewards non_daa) rs acc = (Ok v :: (u64, 'e) outcome)
    \<and> unat v = unat acc + sum_list (map (red_share rewards non_daa) rs)"
  using assms
proof (induction rs arbitrary: acc)
  case (Cons h rs)
  obtain v where v: "add_red_reward rewards non_daa h acc = (Ok v :: (u64, 'e) outcome)" "unat v = unat acc + red_share rewards non_daa h"
    using red_reward_step [of rewards h acc non_daa] Cons.prems by auto
  then show ?case using Cons.IH [of v] Cons.prems by auto
qed simp

lemma sum_positive: "sum_list (map f (filter (\<lambda>x. 0 < f x) xs)) = (sum_list (map f xs) :: nat)"
  by (induction xs) auto

text \<open>C10. The coinbase transaction pays exactly the merge set. When the rewards of the merged blocks are
  known and the sums fit in 64 bits, it is built without a panic; every blue block in the DAA window
  with a positive reward has one output that pays its subsidy and fees to the script it reported, in
  the order of the merge set, one last output pays the reds to the current miner, the total is the
  sum of the rewards, and the payload parses back to the blue score, the subsidy and the miner.\<close>

theorem coinbase_pays_mergeset:
  assumes "list_all (\<lambda>h. hm_get rewards h \<noteq> None) (gd_mergeset_blues gd @ gd_mergeset_reds gd)"
    and "blues = filter (\<lambda>h. h \<notin> set non_daa) (gd_mergeset_blues gd)"
    and "list_all (\<lambda>h. reward_sum rewards h < 2 ^ 64) blues"
    and "red = sum_list (map (red_share rewards non_daa) (gd_mergeset_reds gd))" "red < 2 ^ 64"
    and "calc_block_subsidy cm daa_score = (Ok s :: (u64, coinbase_error) outcome)"
    and "length (script (miner_spk miner)) \<le> unat (coinbase_payload_script_public_key_max_len cm)"
    and "19 + length (script (miner_spk miner)) + length (extra_data miner) \<le> max_coinbase_payload_len cm"
  shows "\<exists>t. expected_coinbase_transaction cr cm daa_score miner gd rewards non_daa = Ok t
    \<and> is_coinbase (template_tx t) \<and> inputs (template_tx t) = [] \<and> tx_id (template_tx t) = tx_id_of cr (template_tx t)
    \<and> outputs (template_tx t) = map (reward_output rewards) (filter (\<lambda>h. 0 < reward_sum rewards h) blues)
        @ (if 0 < red then [\<lparr>output_value = of_nat red, output_spk = miner_spk miner\<rparr>] else [])
    \<and> sum_list (map (\<lambda>out. unat (output_value out)) (outputs (template_tx t))) = sum_list (map (reward_sum rewards) blues) + red
    \<and> deserialize_coinbase_payload cm (payload (template_tx t))
        = Ok \<lparr>cd_blue_score = gd_blue_score gd, cd_subsidy = s, cd_miner_data = miner\<rparr>"
proof -
  define d where "d = \<lparr>cd_blue_score = gd_blue_score gd, cd_subsidy = s, cd_miner_data = miner\<rparr>"
  obtain p where p: "serialize_coinbase_payload cm d = Ok p" "length p \<le> max_coinbase_payload_len cm"
    using assms(7,8) by (simp add: serialize_coinbase_payload_def d_def Let_def)
  define paid where "paid = map (reward_output rewards) (filter (\<lambda>h. 0 < reward_sum rewards h) blues)"
  have blue: "rfold (blue_reward rewards) blues [] = (Ok paid :: (transaction_output list, coinbase_error) outcome)"
    using blue_rewards [of rewards blues "[]"] assms(1,2,3) by (simp add: list_all_iff paid_def)
  obtain v where v: "rfold (add_red_reward rewards non_daa) (gd_mergeset_reds gd) 0 = (Ok v :: (u64, coinbase_error) outcome)" "unat v = red"
    using red_rewards [of rewards "gd_mergeset_reds gd" 0 non_daa] assms(1,4,5) by auto
  then have red: "v = of_nat red" "0 < v \<longleftrightarrow> 0 < red" by (auto simp: word_less_nat_alt)
  define outs where "outs = paid @ (if 0 < red then [\<lparr>output_value = v, output_spk = miner_spk miner\<rparr>] else [])"
  have run: "expected_coinbase_transaction cr cm daa_score miner gd rewards non_daa
      = Ok \<lparr>template_tx = new_transaction cr TX_VERSION [] outs 0 SUBNETWORK_ID_COINBASE 0 p, has_red_reward = 0 < v\<rparr>"
    using blue v(1) red(2) p(1) assms(6) unfolding assms(2) [symmetric]
    by (simp add: expected_coinbase_transaction_def assms(2) [symmetric] d_def outs_def)
  have "unat (output_value (reward_output rewards h)) = reward_sum rewards h" if "h \<in> set blues" for h
    using assms(3) that by (simp add: reward_output_def list_all_iff unat_of_nat)
  then have "map (\<lambda>out. unat (output_value out)) paid = map (reward_sum rewards) (filter (\<lambda>h. 0 < reward_sum rewards h) blues)"
    by (simp add: paid_def)
  then have total: "sum_list (map (\<lambda>out. unat (output_value out)) outs) = sum_list (map (reward_sum rewards) blues) + red"
    using v(2) by (simp add: outs_def sum_positive)
  show ?thesis
    using run total red(1) payload_parses [OF p]
    by (simp add: new_transaction_def finalize_tx_def new_non_finalized_def is_coinbase_def tx_id_of_def write_transaction_def
        outs_def paid_def d_def)
qed

definition ex_rewards :: "(hash, block_reward_data) hmap" where
  "ex_rewards = [(1, \<lparr>reward_subsidy = 50, reward_total_fees = 2, reward_spk = \<lparr>spk_version = 0, script = [1]\<rparr>\<rparr>),
     (2, \<lparr>reward_subsidy = 50, reward_total_fees = 3, reward_spk = \<lparr>spk_version = 0, script = [2]\<rparr>\<rparr>),
     (3, \<lparr>reward_subsidy = 50, reward_total_fees = 4, reward_spk = \<lparr>spk_version = 0, script = [3]\<rparr>\<rparr>)]"

definition ex_merging :: ghostdag_data where
  "ex_merging = \<lparr>gd_blue_score = 7, gd_blue_work = 0, gd_selected_parent = 1, gd_mergeset_blues = [1], gd_mergeset_reds = [2, 3],
     gd_blues_anticone_sizes = []\<rparr>"

theorem coinbase_pays_mergeset_witness:
  "\<exists>t. expected_coinbase_transaction ex_crypto ex_coinbase_manager 5 (cd_miner_data ex_coinbase_data) ex_merging ex_rewards [3] = Ok t
    \<and> sum_list (map (\<lambda>out. unat (output_value out)) (outputs (template_tx t))) = 52 + (53 + 4)"
proof -
  have sums: "reward_sum ex_rewards 1 = 52" "red_share ex_rewards [3] 2 = 53" "red_share ex_rewards [3] 3 = 4"
    by (simp_all add: ex_rewards_def reward_sum_def red_share_def)
  have known: "list_all (\<lambda>h. hm_get ex_rewards h \<noteq> None) (gd_mergeset_blues ex_merging @ gd_mergeset_reds ex_merging)"
    by (simp add: ex_rewards_def ex_merging_def)
  have subsidy: "calc_block_subsidy ex_coinbase_manager 5 = (Ok 50 :: (u64, coinbase_error) outcome)"
    by (simp add: calc_block_subsidy_def ex_coinbase_manager_def)
  have blues: "[1] = filter (\<lambda>h. h \<notin> set [3]) (gd_mergeset_blues ex_merging)" by (simp add: ex_merging_def)
  have red: "53 + 4 = sum_list (map (red_share ex_rewards [3]) (gd_mergeset_reds ex_merging))" by (simp add: ex_merging_def sums)
  have small: "list_all (\<lambda>h. reward_sum ex_rewards h < 2 ^ 64) [1]" by (simp add: sums)
  have miner: "length (script (miner_spk (cd_miner_data ex_coinbase_data))) \<le> unat (coinbase_payload_script_public_key_max_len ex_coinbase_manager)"
    "19 + length (script (miner_spk (cd_miner_data ex_coinbase_data))) + length (extra_data (cd_miner_data ex_coinbase_data))
      \<le> max_coinbase_payload_len ex_coinbase_manager"
    by (simp_all add: ex_coinbase_manager_def ex_coinbase_data_def)
  have "sum_list (map (reward_sum ex_rewards) [1]) = 52" by (simp add: sums)
  then show ?thesis
    using coinbase_pays_mergeset [OF known blues small red _ subsidy miner, of ex_crypto] by auto
qed

section \<open>Emission\<close>

lemma div_ceil_w_exact:
  assumes "b \<noteq> 0"
  shows "div_ceil_w a b = Ok (of_nat (div_ceil (unat a) (unat b)))"
proof -
  have "unat (a div b) = unat a div unat b" "unat (a mod b) = unat a mod unat b" by (simp_all add: unat_div unat_mod)
  moreover have "unat a div unat b + 1 < 2 ^ 64" if "unat a mod unat b \<noteq> 0"
  proof -
    have "unat b \<noteq> 1" using that by auto
    then have "1 < unat b" using assms by (simp add: unat_eq_zero nat_neq_iff)
    then have "unat a div unat b < unat a" using that by (cases "unat a = 0") simp_all
    then show ?thesis using unat_bound [of a] by simp
  qed
  ultimately show ?thesis
    using assms by (auto simp: div_ceil_w_def checked_div_def checked_add_def div_ceil_def word_unat_eq_iff unat_word_ariths unat_of_nat)
qed

lemma rmap_Ok: "(\<And>x. x \<in> set xs \<Longrightarrow> f x = Ok (g x)) \<Longrightarrow> rmap f xs = Ok (map g xs)"
  by (induction xs) auto

lemma table_length: "length SUBSIDY_BY_MONTH_TABLE = 426"
  by (simp add: SUBSIDY_BY_MONTH_TABLE_def)

lemma table_last: "SUBSIDY_BY_MONTH_TABLE ! 425 = 0"
  by (simp add: SUBSIDY_BY_MONTH_TABLE_def)

definition mainnet_cm :: coinbase_manager where
  "mainnet_cm = \<lparr>coinbase_payload_script_public_key_max_len = 150, max_coinbase_payload_len = 204,
     deflationary_phase_daa_score = 15519600, pre_deflationary_phase_base_subsidy = 50000000000,
     cm_bps_history = new_forked_param 1 10 110165000,
     subsidy_by_month_table_before = SUBSIDY_BY_MONTH_TABLE,
     subsidy_by_month_table_after = map (\<lambda>x. of_nat (div_ceil (unat x) 10)) SUBSIDY_BY_MONTH_TABLE,
     crescendo_activation_daa_score = 110165000\<rparr>"

lemma scaled_table:
  "b \<noteq> 0 \<Longrightarrow> rmap (\<lambda>x. div_ceil_w x b) SUBSIDY_BY_MONTH_TABLE
     = Ok (map (\<lambda>x. of_nat (div_ceil (unat x) (unat b))) SUBSIDY_BY_MONTH_TABLE)"
  by (intro rmap_Ok div_ceil_w_exact)

lemma mainnet_manager: "mainnet_coinbase_manager = Ok mainnet_cm"
proof -
  have "before_fork (new_forked_param 1 10 110165000) = 1" "after_fork (new_forked_param 1 10 110165000) = 10"
    by (simp_all add: before_fork_def after_fork_def new_forked_param_def ALWAYS_def NEVER_def)
  moreover have "map (\<lambda>x. of_nat (div_ceil (unat x) (unat 1))) SUBSIDY_BY_MONTH_TABLE = (SUBSIDY_BY_MONTH_TABLE :: u64 list)"
    by (simp add: div_ceil_def map_idI)
  ultimately show ?thesis
    by (simp add: mainnet_coinbase_manager_def bps_history_def checked_div_def new_coinbase_manager_def mainnet_cm_def
        scaled_table new_forked_param_def del: map_map)
qed

text \<open>The subsidy of a month per second, as the table has it, and per block.\<close>

definition month_subsidy :: "nat \<Rightarrow> nat" where
  "month_subsidy k = unat (SUBSIDY_BY_MONTH_TABLE ! min k 425)"

definition subsidy_at :: "nat \<Rightarrow> nat" where
  "subsidy_at d =
     (if d < 15519600 then 50000000000
      else if d < 110165000 then month_subsidy ((d - 15519600) div 2629800)
      else div_ceil (month_subsidy ((94645400 + (d - 110165000) div 10) div 2629800)) 10)"

lemma div_ceil_ge: "0 < b \<Longrightarrow> a \<le> b * div_ceil a b"
  using dividend_less_times_div [of b a] by (auto simp: div_ceil_def)

lemma word_arith_of_nat:
  fixes c :: u64
  assumes "m < 2 ^ 64"
  shows "unat c \<le> m \<Longrightarrow> checked_sub (of_nat m) c = Some (of_nat (m - unat c))"
    and "c \<noteq> 0 \<Longrightarrow> checked_div (of_nat m) c = Some (of_nat (m div unat c))"
proof -
  have m: "unat (of_nat m :: u64) = m" using assms by (simp add: unat_of_nat)
  show "unat c \<le> m \<Longrightarrow> checked_sub (of_nat m) c = Some (of_nat (m - unat c))"
    using assms by (simp add: checked_sub_Some_iff m unat_of_nat del: of_nat_diff)
  have "m div unat c < 2 ^ 64" using assms div_le_dividend [of m "unat c"] by (rule le_less_trans [rotated])
  then show "c \<noteq> 0 \<Longrightarrow> checked_div (of_nat m) c = Some (of_nat (m div unat c))"
    using assms by (simp add: checked_div_def word_unat_eq_iff unat_div unat_of_nat)
qed

lemma mainnet_month:
  assumes "15519600 \<le> d" "d < 2 ^ 64"
  shows "subsidy_month mainnet_cm (of_nat d) = Ok (of_nat
    ((if d < 110165000 then d - 15519600 else 94645400 + (d - 110165000) div 10) div 2629800))"
proof -
  have lt: "(of_nat d :: u64) < 110165000 \<longleftrightarrow> d < 110165000" using assms(2) by (simp add: word_less_nat_alt unat_of_nat)
  have bps: "before_fork (cm_bps_history mainnet_cm) = 1" "after_fork (cm_bps_history mainnet_cm) = 10"
    by (simp_all add: before_fork_def after_fork_def mainnet_cm_def new_forked_param_def ALWAYS_def NEVER_def)
  have start: "checked_sub (110165000 :: u64) 15519600 = Some 94645400" by (simp add: checked_sub_def)
  have whole: "checked_div x (1 :: u64) = Some x" for x by (simp add: checked_div_def)
  show ?thesis
  proof (cases "d < 110165000")
    case True
    then show ?thesis
      using assms lt by (simp add: subsidy_month_def bps mainnet_cm_def [THEN arg_cong [of _ _ deflationary_phase_daa_score]]
          mainnet_cm_def [THEN arg_cong [of _ _ crescendo_activation_daa_score]] word_arith_of_nat whole SECONDS_PER_MONTH_def del: of_nat_diff)
  next
    case False
    define n where "n = 94645400 + (d - 110165000) div 10"
    have n: "n < 2 ^ 64" using assms(2) False by (simp add: n_def)
    have "checked_add (94645400 :: u64) (of_nat ((d - 110165000) div 10)) = Some (of_nat n)"
      using checked_add_of_nat [of 94645400 "(d - 110165000) div 10", where 'a = 64] n by (simp add: n_def)
    then show ?thesis
      using False assms lt n unfolding n_def [symmetric]
      by (simp add: subsidy_month_def bps mainnet_cm_def [THEN arg_cong [of _ _ deflationary_phase_daa_score]]
          mainnet_cm_def [THEN arg_cong [of _ _ crescendo_activation_daa_score]] word_arith_of_nat whole start SECONDS_PER_MONTH_def
          del: of_nat_diff)
  qed
qed

lemma mainnet_subsidy:
  assumes "d < 2 ^ 64"
  shows "calc_block_subsidy mainnet_cm (of_nat d) = Ok (of_nat (subsidy_at d))"
proof (cases "d < 15519600")
  case True
  then have "(of_nat d :: u64) < 15519600" using assms by (simp add: word_less_nat_alt unat_of_nat)
  then show ?thesis using True by (simp add: calc_block_subsidy_def mainnet_cm_def subsidy_at_def)
next
  case False
  define month where "month = (if d < 110165000 then d - 15519600 else 94645400 + (d - 110165000) div 10) div 2629800"
  have run: "subsidy_month mainnet_cm (of_nat d) = Ok (of_nat month)" using mainnet_month [of d] False assms by (simp add: month_def)
  have "(if d < 110165000 then d - 15519600 else 94645400 + (d - 110165000) div 10) < 2 ^ 64" using assms by (auto simp: not_less)
  then have "month < 2 ^ 64" unfolding month_def by (rule le_less_trans [OF div_le_dividend])
  then have month: "unat (of_nat month :: u64) = month" by (simp add: unat_of_nat)
  have cmp: "\<not> (of_nat d :: u64) < 15519600" "(of_nat d :: u64) \<ge> 110165000 \<longleftrightarrow> \<not> d < 110165000"
    using False assms by (simp_all add: word_less_nat_alt word_le_nat_alt unat_of_nat not_less)
  have tables: "subsidy_by_month_table_before mainnet_cm = SUBSIDY_BY_MONTH_TABLE"
    "subsidy_by_month_table_after mainnet_cm = map (\<lambda>x. of_nat (div_ceil (unat x) 10)) SUBSIDY_BY_MONTH_TABLE"
    "deflationary_phase_daa_score mainnet_cm = 15519600" "fp_activation (cm_bps_history mainnet_cm) = 110165000"
    by (simp_all add: mainnet_cm_def new_forked_param_def)
  have "subsidy_at d = (if d < 110165000 then month_subsidy month else div_ceil (month_subsidy month) 10)"
    using False by (simp add: subsidy_at_def month_def)
  moreover have "min month 425 < 426" by simp
  ultimately show ?thesis
    using cmp month unfolding calc_block_subsidy_def run tables by (simp add: is_active_def table_length month_subsidy_def)
qed

lemma sum_blocks:
  fixes h :: "nat \<Rightarrow> nat"
  assumes "0 < a"
  shows "(\<Sum>j<m. h (j div a)) \<le> a * (\<Sum>s<m. h s)"
proof -
  have "(\<Sum>j<m. h (j div a)) \<le> (\<Sum>j<m * a. h (j div a))" using assms by (intro sum_mono2) auto
  also have "\<dots> = (\<Sum>s<m. \<Sum>j = s * a..<s * a + a. h (j div a))" by (rule sum.nat_group [symmetric])
  also have "\<dots> = (\<Sum>s<m. a * h s)"
  proof (rule sum.cong [OF refl])
    fix s
    have "h (j div a) = h s" if "j \<in> {s * a..<s * a + a}" for j
      using that div_nat_eqI [of a s j] assms by (auto simp: algebra_simps)
    then show "(\<Sum>j = s * a..<s * a + a. h (j div a)) = a * h s" by simp
  qed
  finally show ?thesis by (simp add: sum_distrib_left)
qed

text \<open>The most that one second of a month can emit, at ten blocks per second rounded up.\<close>

definition month_limit :: "nat \<Rightarrow> nat" where
  "month_limit k = 10 * div_ceil (month_subsidy k) 10"

lemma month_limits: "(\<Sum>k<n. month_limit k) \<le> 783954766510"
proof -
  have tail: "month_limit k = 0" if "425 \<le> k" for k
    using that by (simp add: month_limit_def month_subsidy_def min_absorb2 table_last div_ceil_def)
  have "(\<Sum>k<n. month_limit k) \<le> (\<Sum>k<n + 426. month_limit k)" by (intro sum_mono2) auto
  also have "\<dots> = (\<Sum>k<426. month_limit k)" using tail by (intro sum.mono_neutral_right) auto
  also have "\<dots> = sum_list (map (\<lambda>x. 10 * div_ceil (unat x) 10) SUBSIDY_BY_MONTH_TABLE)"
    by (simp add: sum_list_sum_nth table_length month_limit_def month_subsidy_def atLeast0LessThan min_absorb1)
  also have "\<dots> \<le> 783954766510" by (simp add: SUBSIDY_BY_MONTH_TABLE_def div_ceil_def)
  finally show ?thesis .
qed

lemma sum_split:
  fixes f :: "nat \<Rightarrow> nat"
  shows "(\<Sum>d<m + n. f d) = (\<Sum>d<m. f d) + (\<Sum>j<n. f (m + j))"
  by (induction n) simp_all

lemma sum_from_zero:
  fixes f :: "nat \<Rightarrow> nat"
  shows "(\<Sum>d<n. f d) \<le> (\<Sum>d<m. f d) + (\<Sum>j<n - m. f (m + j))"
proof (cases "n \<le> m")
  case True
  then have "(\<Sum>d<n. f d) \<le> (\<Sum>d<m. f d)" by (intro sum_mono2) auto
  then show ?thesis by simp
next
  case False
  then show ?thesis using sum_split [of f m "n - m"] by simp
qed

lemma subsidy_total: "(\<Sum>d<n. subsidy_at d) \<le> 50000000000 * 15519600 + 2629800 * 783954766510"
proof -
  define S where "S = (94645400 :: nat)"
  define w where "w s = month_limit (s div 2629800)" for s
  have early: "(\<Sum>d<15519600. subsidy_at d) = 50000000000 * 15519600" by (simp add: subsidy_at_def)
  have pre: "(\<Sum>j<S. subsidy_at (15519600 + j)) \<le> (\<Sum>s<S. w s)"
    by (rule sum_mono) (simp add: subsidy_at_def S_def w_def month_limit_def div_ceil_ge)
  have post: "(\<Sum>j<m. subsidy_at (110165000 + j)) \<le> (\<Sum>s<m. w (S + s))" for m
  proof -
    have "(\<Sum>j<m. subsidy_at (110165000 + j)) = (\<Sum>j<m. div_ceil (month_subsidy ((S + j div 10) div 2629800)) 10)"
      by (simp add: subsidy_at_def S_def)
    also have "\<dots> \<le> 10 * (\<Sum>s<m. div_ceil (month_subsidy ((S + s) div 2629800)) 10)"
      by (rule sum_blocks [of 10 "\<lambda>s. div_ceil (month_subsidy ((S + s) div 2629800)) 10"]) simp
    finally show ?thesis by (simp add: w_def month_limit_def sum_distrib_left)
  qed
  have "(\<Sum>d<n. subsidy_at d) \<le> (\<Sum>d<110165000. subsidy_at d) + (\<Sum>j<n. w (S + j))"
    using sum_from_zero [of subsidy_at n 110165000] post [of "n - 110165000"] sum_mono2 [of "{..<n}" "{..<n - 110165000}" "\<lambda>j. w (S + j)"]
    by fastforce
  also have "(\<Sum>d<110165000. subsidy_at d) \<le> 50000000000 * 15519600 + (\<Sum>s<S. w s)"
    using sum_from_zero [of subsidy_at 110165000 15519600] pre early by (simp add: S_def)
  finally have "(\<Sum>d<n. subsidy_at d) \<le> 50000000000 * 15519600 + ((\<Sum>s<S. w s) + (\<Sum>j<n. w (S + j)))" by simp
  also have "(\<Sum>s<S. w s) + (\<Sum>j<n. w (S + j)) = (\<Sum>s<S + n. w s)" by (rule sum_split [symmetric])
  also have "\<dots> \<le> 2629800 * (\<Sum>k<S + n. month_limit k)" unfolding w_def by (rule sum_blocks) simp
  also have "\<dots> \<le> 2629800 * 783954766510" using month_limits by simp
  finally show ?thesis by simp
qed

text \<open>C11. On the main network the subsidy is defined for every DAA score, and the subsidies of all DAA
  scores together stay within the maximal supply that the transaction checks assume.\<close>

theorem emission_within_supply:
  assumes "n \<le> 2 ^ 64"
  shows "\<exists>cm ss. mainnet_coinbase_manager = (Ok cm :: (coinbase_manager, unit) outcome)
    \<and> rmap (\<lambda>d. calc_block_subsidy cm (of_nat d)) [0..<n] = (Ok ss :: (u64 list, unit) outcome)
    \<and> length ss = n \<and> sum_list (map unat ss) \<le> unat MAX_SOMPI"
proof -
  define ss where "ss = map (\<lambda>d. of_nat (subsidy_at d) :: u64) [0..<n]"
  have "rmap (\<lambda>d. calc_block_subsidy mainnet_cm (of_nat d)) [0..<n] = (Ok ss :: (u64 list, unit) outcome)"
    unfolding ss_def using assms by (intro rmap_Ok mainnet_subsidy) simp
  moreover have "sum_list (map unat ss) \<le> (\<Sum>d<n. subsidy_at d)"
  proof -
    have "sum_list (map unat ss) \<le> sum_list (map subsidy_at [0..<n])"
      unfolding ss_def map_map by (rule sum_list_mono) (simp add: unat_of_nat)
    then show ?thesis by (simp add: interv_sum_list_conv_sum_set_nat atLeast0LessThan)
  qed
  moreover have "50000000000 * 15519600 + 2629800 * 783954766510 \<le> unat MAX_SOMPI" by (simp add: MAX_SOMPI_def SOMPI_PER_KASPA_def)
  ultimately show ?thesis using mainnet_manager [where 'a = unit] subsidy_total [of n] by (auto simp: ss_def)
qed

theorem emission_within_supply_witness:
  "\<exists>cm ss. mainnet_coinbase_manager = (Ok cm :: (coinbase_manager, unit) outcome)
    \<and> rmap (\<lambda>d. calc_block_subsidy cm (of_nat d)) [0..<200000000] = (Ok ss :: (u64 list, unit) outcome)
    \<and> sum_list (map unat ss) \<le> unat MAX_SOMPI"
proof -
  have "(200000000 :: nat) \<le> 2 ^ 64" by simp
  from emission_within_supply [OF this] show ?thesis by blast
qed
end
