(* ===== verification/Spec2Isabelle.thy ===== *)
theory Spec2Isabelle
  imports Utxo_Algebra Tx_Validation Ghostdag_Safety Header Tx_Hash Coinbase
begin

text \<open>
  A verification library for the Qaspa node, a Rust implementation of a proof-of-work block DAG.
  The library models the parts of the node that decide what is valid: the values and scripts of
  transactions, the sets of unspent outputs, and the order, work and difficulty of blocks.

  \<^bold>\<open>Reading the model.\<close> The program is built with overflow checks, so an overflow, a failed
  \<^verbatim>\<open>assert!\<close>, an index out of range, a division by zero and a failed \<^verbatim>\<open>unwrap\<close> end a thread. The
  type \<open>outcome\<close> of \<^verbatim>\<open>Qaspa_Prelude\<close> has a value for each way a call can end: \<open>Ok\<close>, \<open>Err\<close> with
  the error of the source, and \<open>Panic\<close>. A \<^verbatim>\<open>debug_assert!\<close> is not executed. In the
  script engine and its data, indexing, slicing, \<^verbatim>\<open>split_off\<close>, \<^verbatim>\<open>remove\<close>, \<^verbatim>\<open>insert\<close>, \<^verbatim>\<open>drain\<close> and
  subtraction of lengths are operations of the prelude that panic out of range, so a definition
  without its guard does panic; where the source tests the length and indexes in one short-circuit
  condition, so does the model. Limb arrays, whose size is part of their Rust type, are lists of that
  length, indexed within the bounds of the loops over them. Integers keep their width. A hash map is
  an association list with distinct keys. A loop that is not structurally recursive on its data is a
  function with a termination proof, or a \<^theory_text>\<open>partial_function\<close> into \<open>option\<close>, where \<open>None\<close> means that
  it does not end; no fuel is used anywhere. Functions of libraries outside the repository (secp256k1,
  BLAKE2b, SHA-256, the ML-DSA library) are fields of a record that is an argument of the
  definitions that call them; what the theorems assume of them is a named hypothesis.

  \<^bold>\<open>Transactions.\<close>
  \<^item> \<^verbatim>\<open>Tx_Model\<close>: \<^verbatim>\<open>src/consensus/core/src/tx.rs\<close>, the records and the views of a transaction with
    its spent entries.
  \<^item> \<^verbatim>\<open>Utxo_Algebra\<close>: \<^verbatim>\<open>src/consensus/core/src/utxo\<close>. A diff is valid over a base set; the
    composition of diffs, the difference of two diffs, reversal and the addition of a transaction
    are shown to be the corresponding operations on the views they stand for. The locale
    \<^verbatim>\<open>diff_accumulator\<close> states the interface of diffs and is interpreted on the code's model.
  \<^item> \<^verbatim>\<open>Tx_Hash\<close>: \<^verbatim>\<open>src/consensus/core/src/hashing/tx.rs\<close>, the constructors of transactions, and
    \<^verbatim>\<open>src/crypto/merkle\<close>. The array of the Merkle computation holds the levels of a binary tree, and
    the root commits to the transactions.
  \<^item> \<^verbatim>\<open>Mass_Calc\<close>: \<^verbatim>\<open>src/consensus/core/src/mass/mod.rs\<close>. The compute, transient and storage masses
    equal the documented formulas over the natural numbers.
  \<^item> \<^verbatim>\<open>Tx_Validation\<close>: \<^verbatim>\<open>src/consensus/src/processes/transaction_validator\<close>. Validation in
    isolation and against the spent entries accepts exactly the transactions that satisfy the
    written rules (the mass rule being the formula of \<^verbatim>\<open>Mass_Calc\<close>), conserves value,
    and does not depend on the order of the script checks.

  \<^bold>\<open>Scripts.\<close>
  \<^item> \<^verbatim>\<open>Script_Data\<close>: \<^verbatim>\<open>src/crypto/txscript/src/data_stack.rs\<close>, numbers and booleans on the stack and the
    operations on it. Numbers have one encoding each, and within the guards no access panics.
  \<^item> \<^verbatim>\<open>Sighash\<close> and \<^verbatim>\<open>Mldsa\<close>: \<^verbatim>\<open>src/consensus/core/src/hashing\<close> and \<^verbatim>\<open>src/crypto/mldsa\<close>, the
    messages that signatures sign. Reused hashes equal fresh ones, and a returned signature hash
    commits to the fields it should.
  \<^item> \<^verbatim>\<open>Script_Opcodes\<close>, \<^verbatim>\<open>Script_Engine\<close>: \<^verbatim>\<open>src/crypto/txscript/src/opcodes\<close>, \<^verbatim>\<open>lib.rs\<close>,
    \<^verbatim>\<open>caches.rs\<close>. Every opcode and the execution of the scripts of an input.
  \<^item> \<^verbatim>\<open>Script_Safety\<close>: no execution panics, and neither cache has an influence on a verdict. The
    locale \<^verbatim>\<open>answer_cache\<close> states what the engine needs of a signature cache.
  \<^item> \<^verbatim>\<open>Script_Standard\<close>, \<^verbatim>\<open>Address\<close>: \<^verbatim>\<open>src/crypto/txscript/src/script_builder.rs\<close>, \<^verbatim>\<open>standard.rs\<close>
    and \<^verbatim>\<open>src/crypto/addresses\<close>. Scripts parse to what was built, addresses and their scripts and
    texts determine each other.
  \<^item> \<^verbatim>\<open>Script_Spend\<close>: who can spend the outputs of each address version, of a stealth payment and of
    a multisig script, stated without the engine.

  \<^bold>\<open>Blocks.\<close>
  \<^item> \<^verbatim>\<open>Uint\<close>: \<^verbatim>\<open>src/math/src/uint.rs\<close>. Arithmetic on limbs is arithmetic modulo the width.
  \<^item> \<^verbatim>\<open>Difficulty\<close>: \<^verbatim>\<open>src/math/src/lib.rs\<close> and \<^verbatim>\<open>src/consensus/src/processes/difficulty.rs\<close>. The work
    of a block and the difficulty adjustment as formulas over the natural numbers; the adjustment
    does not depend on the order in which a window is stored.
  \<^item> \<^verbatim>\<open>Header\<close>: \<^verbatim>\<open>src/consensus/core/src/header.rs\<close>, \<^verbatim>\<open>hashing/header.rs\<close>, \<^verbatim>\<open>blockstatus.rs\<close>. The run
    length encoding of the parents is exact and unique, and the hash of a header commits to it; runs
    from outside that start with a count of zero are accepted and then panic.
  \<^item> \<^verbatim>\<open>Coinbase\<close>: \<^verbatim>\<open>src/consensus/src/processes/coinbase.rs\<close>. The coinbase transaction pays the
    rewards of the merge set and nothing else, its payload is parsed exactly, and the subsidies of
    the main network stay within the maximal supply.
  \<^item> \<^verbatim>\<open>Ghostdag_Data\<close>, \<^verbatim>\<open>Ghostdag\<close>: \<^verbatim>\<open>src/consensus/src/model/stores/ghostdag.rs\<close> and
    \<^verbatim>\<open>src/consensus/src/processes/ghostdag\<close>. The data of a block, the iterators over a merge set and
    the protocol itself, over stores that are lookups.
  \<^item> \<^verbatim>\<open>Ghostdag_Dag\<close>, \<^verbatim>\<open>Ghostdag_Color\<close>, \<^verbatim>\<open>Ghostdag_Safety\<close>: the invariant of the stores. The
    inductive relation \<open>dag_reachable\<close> adds blocks from genesis on, each with the data that the
    protocol computes, through the insertions of \<^verbatim>\<open>commit_header\<close> into the stores of GHOSTDAG.
    On every reachable store the protocol ends without a panic, its merge set is exact, its colouring is the greedy colouring of the reference, blue sets are
    \<open>k\<close>-clusters, recorded anticone sizes are exact, and work grows along the DAG. The reachability
    service is a function that is assumed to decide ancestry.

  \<^bold>\<open>Bounds.\<close> The theorems on GHOSTDAG assume that \<open>k\<close> is below \<open>2 ^ 16 - 1\<close>, that the blue scores
  leave room for one merge set in 64 bits and that the accumulated work fits in 192 bits; these are
  the points where the code would panic or wrap. The other theorems name their bounds in their
  hypotheses.

  \<^bold>\<open>Not modelled.\<close>
  \<^item> The reachability tree, pruning, pruning proofs, window building, block bodies and the virtual
    state of \<^verbatim>\<open>src/consensus/src\<close>: the stores they keep are lookups here.
  \<^item> Proof of work, the multiset hash and the hash functions of \<^verbatim>\<open>src/consensus/pow\<close>
    and \<^verbatim>\<open>src/crypto\<close>, and the sender side of stealth payments.
  \<^item> The network, the RPC server, the mempool and mining, the wallets, the indexes, the command line,
    metrics, notification and the database: they move or store data that the modelled parts check.
  \<^item> Serialisation by derived code, bindings to JavaScript, formatting of errors and logging.
\<close>

end
